(* ===== verification/Base.thy ===== *)
theory Base
  imports Main "HOL-Library.Word"
begin

text \<open>
  Prelude of the Moduo development: the machine types, the outcomes a C++ call can have, the
  sequencing combinator for calls that may not return normally, the model of decimal formatting
  that \<^verbatim>\<open>snprintf\<close> performs for \<^verbatim>\<open>%d\<close>, and generic lemmas on lists and 64-bit words that the
  components share.
\<close>

section \<open>Machine types\<close>

type_synonym byte = "8 word"
type_synonym size_t = "64 word"
type_synonym c_int = "32 word"
type_synonym fd = int
type_synonym errno = int
type_synonym tid = int

text \<open>Objects are addressed by the identity of the C++ object.\<close>

type_synonym chan_id = nat
type_synonym loop_id = nat
type_synonym conn_id = nat

section \<open>Collections of facts\<close>

named_theorems res_simps \<open>evaluation of sequenced calls\<close>
named_theorems size_simps \<open>reading size_t arithmetic that does not wrap\<close>
named_theorems frame_simps \<open>fields an operation leaves alone\<close>

section \<open>Outcomes of a call\<close>

text \<open>
  A call returns normally, ends the program, or never returns: \<open>Exit_Fatal\<close> is \<^verbatim>\<open>LOG_FATAL\<close> (which calls
  \<^verbatim>\<open>exit(-1)\<close>), \<open>Out_Of_Bounds\<close> an access outside the vector's storage (undefined behaviour),
  \<open>Null_Deref\<close> a call through a null or dangling pointer, \<open>Bad_Function_Call\<close> the exception of an
  empty \<^verbatim>\<open>std::function\<close>, \<open>Length_Error\<close> the exception of \<^verbatim>\<open>vector::resize\<close>, \<open>Assert_Failed\<close> a
  failing \<^verbatim>\<open>assert\<close>, \<open>Aborted\<close> a call of \<^verbatim>\<open>abort()\<close>, \<open>Signed_Overflow\<close> an \<^verbatim>\<open>int\<close> incremented
  past its largest value and \<open>Killed_SIGPIPE\<close> the signal of a write to a stream whose reader is gone. One
  more outcome is no end at all: \<open>Never_Returns\<close> is a call that waits for ever.
\<close>

datatype failure =
    Exit_Fatal
  | Out_Of_Bounds
  | Null_Deref
  | Bad_Function_Call
  | Length_Error
  | Assert_Failed
  | Aborted
  | Signed_Overflow
  | Killed_SIGPIPE
  | Never_Returns

type_synonym 'a res = "failure + 'a"

fun bind_r :: "'a res \<Rightarrow> ('a \<Rightarrow> 'b res) \<Rightarrow> 'b res" where
  "bind_r (Inl e) f = Inl e"
| "bind_r (Inr a) f = f a"

declare bind_r.simps [res_simps]

lemma bind_r_assoc [res_simps]: "bind_r (bind_r m f) g = bind_r m (\<lambda>a. bind_r (f a) g)"
  by (cases m) simp_all

lemma bind_r_Inr_iff [res_simps]: "bind_r m f = Inr b \<longleftrightarrow> (\<exists>a. m = Inr a \<and> f a = Inr b)"
  by (cases m) simp_all

lemma bind_r_Inl_iff: "bind_r m f = Inl e \<longleftrightarrow> m = Inl e \<or> (\<exists>a. m = Inr a \<and> f a = Inl e)"
  by (cases m) simp_all

lemma bind_r_cong: "m = n \<Longrightarrow> (\<And>a. n = Inr a \<Longrightarrow> f a = g a) \<Longrightarrow> bind_r m f = bind_r n g"
  by (cases n) simp_all

text \<open>A list of calls made one after the other stops at the first that does not return.\<close>

fun fold_r :: "('a \<Rightarrow> 's \<Rightarrow> 's res) \<Rightarrow> 'a list \<Rightarrow> 's \<Rightarrow> 's res" where
  "fold_r f [] s = Inr s"
| "fold_r f (x # xs) s = bind_r (f x s) (fold_r f xs)"

lemma fold_r_append: "fold_r f (xs @ ys) s = bind_r (fold_r f xs s) (fold_r f ys)"
proof (induction xs arbitrary: s)
  case Nil
  then show ?case by simp
next
  case (Cons x xs)
  have "fold_r f ((x # xs) @ ys) s = bind_r (f x s) (\<lambda>t. bind_r (fold_r f xs t) (fold_r f ys))"
    by (cases "f x s") (simp_all add: Cons.IH)
  also have "\<dots> = bind_r (bind_r (f x s) (fold_r f xs)) (fold_r f ys)"
    by (simp only: bind_r_assoc)
  finally show ?case by simp
qed

lemma fold_r_append_fun: "fold_r f (xs @ ys) = (\<lambda>s. bind_r (fold_r f xs s) (fold_r f ys))"
  by (rule ext) (rule fold_r_append)

lemma fold_r_invariant:
  assumes step: "\<And>x s s'. x \<in> set xs \<Longrightarrow> I s \<Longrightarrow> f x s = Inr s' \<Longrightarrow> I s'"
    and "I s" and "fold_r f xs s = Inr s'"
  shows "I s'"
  using assms
proof (induction xs arbitrary: s)
  case Nil
  then show ?case by simp
next
  case (Cons x xs)
  from Cons.prems(3) obtain t where t: "f x s = Inr t" and rest: "fold_r f xs t = Inr s'"
    by (auto simp: bind_r_Inr_iff)
  have "I t" using Cons.prems(1) [of x s t] Cons.prems(2) t by simp
  moreover have "\<And>y u u'. y \<in> set xs \<Longrightarrow> I u \<Longrightarrow> f y u = Inr u' \<Longrightarrow> I u'"
    using Cons.prems(1) by (metis list.set_intros(2))
  ultimately show ?case using rest Cons.IH by blast
qed

section \<open>Errno values the code compares with\<close>

definition ENOENT :: errno where "ENOENT = 2"
definition EINTR :: errno where "EINTR = 4"
definition EWOULDBLOCK :: errno where "EWOULDBLOCK = 11"
definition EEXIST :: errno where "EEXIST = 17"
definition EMFILE :: errno where "EMFILE = 24"
definition EPIPE :: errno where "EPIPE = 32"
definition ECONNRESET :: errno where "ECONNRESET = 104"

lemmas errno_defs =
  ENOENT_def EINTR_def EWOULDBLOCK_def EEXIST_def EMFILE_def EPIPE_def ECONNRESET_def

section \<open>Decimal formatting\<close>

definition digit_char :: "nat \<Rightarrow> char" where
  "digit_char d = char_of (48 + d)"

definition char_digit :: "char \<Rightarrow> nat" where
  "char_digit c = of_char c - 48"

lemma char_digit_inverse [simp]: "d < 10 \<Longrightarrow> char_digit (digit_char d) = d"
  by (simp add: char_digit_def digit_char_def)

fun dec :: "nat \<Rightarrow> string" where
  "dec n = (if n < 10 then [digit_char n] else dec (n div 10) @ [digit_char (n mod 10)])"

declare dec.simps [simp del]

text \<open>\<^verbatim>\<open>%d\<close> of an \<^verbatim>\<open>int\<close>: a minus sign for a negative value, then the decimal digits.\<close>

definition fmt_d :: "int \<Rightarrow> string" where
  "fmt_d i = (if i < 0 then ''-'' else []) @ dec (nat \<bar>i\<bar>)"

definition undec :: "string \<Rightarrow> nat" where
  "undec s = foldl (\<lambda>a c. 10 * a + char_digit c) 0 s"

lemma undec_dec [simp]: "undec (dec n) = n"
proof (induction n rule: dec.induct)
  case (1 n)
  show ?case
  proof (cases "n < 10")
    case True
    then show ?thesis by (simp add: dec.simps [of n] undec_def)
  next
    case False
    with "1.IH" have "undec (dec (n div 10)) = n div 10" by simp
    with False show ?thesis by (simp add: dec.simps [of n] undec_def)
  qed
qed

lemma dec_inject [simp]: "dec m = dec n \<longleftrightarrow> m = n"
  by (metis undec_dec)

lemma dec_digits: "c \<in> set (dec n) \<Longrightarrow> \<exists>d < 10. c = digit_char d"
proof (induction n rule: dec.induct)
  case (1 n)
  show ?case
  proof (cases "n < 10")
    case True
    with "1.prems" show ?thesis by (auto simp: dec.simps [of n])
  next
    case False
    with "1.prems" have "c \<in> set (dec (n div 10)) \<or> c = digit_char (n mod 10)"
      by (auto simp: dec.simps [of n])
    moreover have "n mod 10 < 10" by simp
    ultimately show ?thesis using "1.IH" False by blast
  qed
qed

lemma dec_nonempty [simp]: "dec n \<noteq> []"
  by (subst dec.simps) simp

lemma digit_char_neq:
  assumes "d < 10" and "of_char c < (48::nat) \<or> 57 < (of_char c :: nat)"
  shows "digit_char d \<noteq> c"
proof
  assume "digit_char d = c"
  then have "(of_char c :: nat) = of_char (digit_char d)" by simp
  also have "\<dots> = 48 + d" using assms(1) by (simp add: digit_char_def)
  finally show False using assms by auto
qed

lemma char_notin_dec:
  "of_char c < (48::nat) \<or> 57 < (of_char c :: nat) \<Longrightarrow> c \<notin> set (dec n)"
  using dec_digits digit_char_neq by blast

lemma length_dec: "0 < k \<Longrightarrow> n < 10 ^ k \<Longrightarrow> length (dec n) \<le> k"
proof (induction k arbitrary: n)
  case 0
  then show ?case by simp
next
  case (Suc k)
  show ?case
  proof (cases "n < 10")
    case True
    then show ?thesis by (simp add: dec.simps [of n])
  next
    case False
    with Suc.prems have "n div 10 < 10 ^ k" by auto
    moreover from False Suc.prems have "0 < k" by (cases k) auto
    ultimately have "length (dec (n div 10)) \<le> k" by (rule Suc.IH [rotated])
    with False show ?thesis by (simp add: dec.simps [of n])
  qed
qed

lemma fmt_d_inject [simp]: "fmt_d i = fmt_d j \<longleftrightarrow> i = j"
proof
  assume eq: "fmt_d i = fmt_d j"
  have minus: "CHR ''-'' \<notin> set (dec m)" for m by (rule char_notin_dec) simp
  have "i < 0 \<longleftrightarrow> j < 0"
    using arg_cong [OF eq, of set] minus by (auto simp: fmt_d_def split: if_splits)
  with eq show "i = j" by (auto simp: fmt_d_def split: if_splits)
qed simp

text \<open>\<^verbatim>\<open>snprintf(buf, n, ...)\<close> into a buffer of \<open>n\<close> bytes keeps \<open>n - 1\<close> characters.\<close>

definition snprintf :: "nat \<Rightarrow> string \<Rightarrow> string" where
  "snprintf n s = take (n - 1) s"

lemma snprintf_short: "length s < n \<Longrightarrow> snprintf n s = s"
  by (simp add: snprintf_def)

text \<open>A text up to a separator that does not occur in it is determined by the whole.\<close>

lemma append_sep_inject:
  assumes "c \<notin> set xs" and "c \<notin> set xs'"
  shows "xs @ c # ys = xs' @ c # ys' \<longleftrightarrow> xs = xs' \<and> ys = ys'"
  using assms
proof (induction xs arbitrary: xs')
  case Nil
  then show ?case by (cases xs') auto
next
  case (Cons x xs)
  then show ?case by (cases xs') auto
qed

section \<open>Overwriting a range of a vector\<close>

definition overwrite :: "'a list \<Rightarrow> nat \<Rightarrow> 'a list \<Rightarrow> 'a list" where
  "overwrite xs i ys = take i xs @ ys @ drop (i + length ys) xs"

lemma length_overwrite [simp]:
  "i + length ys \<le> length xs \<Longrightarrow> length (overwrite xs i ys) = length xs"
  by (simp add: overwrite_def)

lemma take_overwrite [simp]: "j \<le> i \<Longrightarrow> i \<le> length xs \<Longrightarrow> take j (overwrite xs i ys) = take j xs"
  by (simp add: overwrite_def min_absorb1)

lemma slice_overwrite_append:
  assumes "r \<le> i" and "i + length ys \<le> length xs"
  shows "take (i + length ys - r) (drop r (overwrite xs i ys)) = take (i - r) (drop r xs) @ ys"
proof -
  have "drop r (overwrite xs i ys) = drop r (take i xs) @ ys @ drop (i + length ys) xs"
    using assms by (simp add: overwrite_def)
  moreover have "length (drop r (take i xs)) = i - r" using assms by simp
  moreover have "drop r (take i xs) = take (i - r) (drop r xs)" using assms by (simp add: drop_take)
  ultimately show ?thesis using assms by simp
qed

section \<open>Arithmetic of \<^typ>\<open>size_t\<close>\<close>

lemma unat_add_size [size_simps]:
  fixes a b :: size_t
  shows "unat a + unat b < 2 ^ 64 \<Longrightarrow> unat (a + b) = unat a + unat b"
  by (simp add: unat_word_ariths)

lemma unat_sub_size [size_simps]:
  fixes a b :: size_t
  shows "unat b \<le> unat a \<Longrightarrow> unat (a - b) = unat a - unat b"
  by (simp add: unat_sub word_le_nat_alt)

lemma unat_of_nat_size [size_simps]: "n < 2 ^ 64 \<Longrightarrow> unat (of_nat n :: size_t) = n"
  by (simp add: unat_of_nat)

lemma size_less_iff: fixes a b :: size_t shows "a < b \<longleftrightarrow> unat a < unat b"
  by (simp add: word_less_nat_alt)

end
