(* ===== verification/InetAddress.thy ===== *)
theory InetAddress
  imports Base
begin

text \<open>
  \<^verbatim>\<open>src/InetAddress.h\<close> and \<^verbatim>\<open>src/InetAddress.cc\<close>: the IPv4 socket address. The byte order functions
  and \<^verbatim>\<open>inet_ntop\<close> are those of a little-endian host; \<^verbatim>\<open>inet_addr\<close>, whose accepted syntax the code
  does not rely on, is an argument of the constructor.
\<close>

unbundle bit_operations_syntax

record sockaddr_in =
  sin_family :: int
  sin_port :: "16 word"
  s_addr :: "32 word"

definition AF_INET :: int where "AF_INET = 2"

definition htons :: "16 word \<Rightarrow> 16 word" where
  "htons p = push_bit 8 p OR drop_bit 8 p"

definition ntohs :: "16 word \<Rightarrow> 16 word" where
  "ntohs p = push_bit 8 p OR drop_bit 8 p"

definition octet :: "nat \<Rightarrow> 32 word \<Rightarrow> nat" where
  "octet i a = unat (drop_bit (8 * i) a AND 255)"

definition inet_ntop :: "32 word \<Rightarrow> string" where
  "inet_ntop a = dec (octet 0 a) @ ''.'' @ dec (octet 1 a) @ ''.'' @
                 dec (octet 2 a) @ ''.'' @ dec (octet 3 a)"

definition zero_sockaddr :: sockaddr_in where
  "zero_sockaddr = \<lparr>sin_family = 0, sin_port = 0, s_addr = 0\<rparr>"

text \<open>The class has one field, \<^verbatim>\<open>addr_\<close>.\<close>

record InetAddress =
  sock_addr :: sockaddr_in

definition mk_InetAddress :: "(string \<Rightarrow> 32 word) \<Rightarrow> 16 word \<Rightarrow> string \<Rightarrow> InetAddress" where
  "mk_InetAddress inet_addr port ip =
     \<lparr>sock_addr = zero_sockaddr\<lparr>sin_family := AF_INET, sin_port := htons port, s_addr := inet_addr ip\<rparr>\<rparr>"

definition InetAddress_of :: "sockaddr_in \<Rightarrow> InetAddress" where
  "InetAddress_of a = \<lparr>sock_addr = a\<rparr>"

definition getSockAddr :: "InetAddress \<Rightarrow> sockaddr_in" where
  "getSockAddr a = sock_addr a"

definition setSockAddr :: "sockaddr_in \<Rightarrow> InetAddress \<Rightarrow> InetAddress" where
  "setSockAddr s a = a\<lparr>sock_addr := s\<rparr>"

text \<open>\<^verbatim>\<open>char buf[64]\<close>: \<^verbatim>\<open>sprintf\<close> is not bounded, so a text that does not fit overruns the array.\<close>

definition addr_buf_size :: nat where "addr_buf_size = 64"

definition toIp :: "InetAddress \<Rightarrow> string" where
  "toIp a = inet_ntop (s_addr (sock_addr a))"

definition toPort :: "InetAddress \<Rightarrow> 16 word" where
  "toPort a = ntohs (sin_port (sock_addr a))"

definition toIpPort :: "InetAddress \<Rightarrow> string res" where
  "toIpPort a =
     (let buf = inet_ntop (s_addr (sock_addr a));
          port = ntohs (sin_port (sock_addr a));
          out = buf @ '':'' @ dec (unat port)
      in if length out < addr_buf_size then Inr out else Inl Out_Of_Bounds)"

section \<open>Lemmas\<close>

lemma ntohs_htons [simp]: "ntohs (htons p) = p"
  by (rule bit_word_eqI) (auto simp: ntohs_def htons_def bit_simps)

lemma octet_less: "octet i a < 256"
proof -
  have "unat (drop_bit (8 * i) a AND 255) \<le> unat (255 :: 32 word)"
    by (rule word_and_le1 [THEN word_le_nat_alt [THEN iffD1]])
  then show ?thesis by (simp add: octet_def)
qed

lemma length_dec_octet: "length (dec (octet i a)) \<le> 3"
  using octet_less [of i a] by (intro length_dec) simp_all

lemma length_inet_ntop: "length (inet_ntop a) \<le> 15"
  using length_dec_octet [of 0 a] length_dec_octet [of 1 a]
    length_dec_octet [of 2 a] length_dec_octet [of 3 a]
  by (simp add: inet_ntop_def)

lemma length_dec_port: "length (dec (unat (p :: 16 word))) \<le> 5"
proof (rule length_dec)
  have "unat p < 2 ^ 16" using unsigned_less [of p] by simp
  then show "unat p < 10 ^ 5" by simp
qed simp

lemma toIpPort_eq: "toIpPort a = Inr (toIp a @ '':'' @ dec (unat (toPort a)))"
proof -
  have "length (inet_ntop (s_addr (sock_addr a)) @ '':'' @ dec (unat (ntohs (sin_port (sock_addr a))))) < addr_buf_size"
    using length_inet_ntop [of "s_addr (sock_addr a)"] length_dec_port [of "ntohs (sin_port (sock_addr a))"]
    by (simp add: addr_buf_size_def)
  then show ?thesis by (simp add: toIpPort_def toIp_def toPort_def Let_def)
qed

lemma length_toIpPort: "toIpPort a = Inr s \<Longrightarrow> length s \<le> 21"
  using length_inet_ntop [of "s_addr (sock_addr a)"] length_dec_port [of "toPort a"]
  by (auto simp: toIpPort_eq toIp_def)

lemma notin_dec_punct [simp]:
  "CHR ''.'' \<notin> set (dec n)" "CHR '':'' \<notin> set (dec n)" "CHR ''#'' \<notin> set (dec n)"
  by (rule char_notin_dec, simp)+

lemma inet_ntop_octets:
  assumes "inet_ntop a = inet_ntop b"
  shows "octet 0 a = octet 0 b \<and> octet 1 a = octet 1 b \<and> octet 2 a = octet 2 b \<and> octet 3 a = octet 3 b"
  using assms by (simp add: inet_ntop_def append_sep_inject)

lemma word32_octets_eqI:
  assumes "\<And>i. i < 4 \<Longrightarrow> octet i a = octet i b"
  shows "a = b"
proof (rule bit_word_eqI)
  fix n assume n: "n < LENGTH(32)"
  let ?i = "n div 8"
  have i: "?i < 4" using n by simp
  have "drop_bit (8 * ?i) a AND 255 = drop_bit (8 * ?i) b AND 255"
    using assms [OF i] unfolding octet_def by (rule unsigned_word_eqI)
  then have "bit (drop_bit (8 * ?i) a AND 255) (n mod 8) = bit (drop_bit (8 * ?i) b AND 255) (n mod 8)"
    by simp
  moreover have "bit (255 :: 32 word) (n mod 8)"
  proof -
    have "(255 :: 32 word) = mask 8" by (simp add: mask_eq_exp_minus_1)
    moreover have "n mod 8 < 8" by simp
    then have "bit (mask 8 :: 32 word) (n mod 8)" by (simp only: bit_mask_iff) simp
    ultimately show ?thesis by simp
  qed
  moreover have "8 * ?i + n mod 8 = n" by simp
  ultimately show "bit a n = bit b n"
    by (simp add: bit_simps)
qed

lemma inet_ntop_inject: "inet_ntop a = inet_ntop b \<longleftrightarrow> a = b"
proof
  assume "inet_ntop a = inet_ntop b"
  note oct = inet_ntop_octets [OF this]
  show "a = b"
  proof (rule word32_octets_eqI)
    fix i :: nat assume "i < 4"
    then have "i = 0 \<or> i = 1 \<or> i = 2 \<or> i = 3" by auto
    then show "octet i a = octet i b" using oct by auto
  qed
qed simp

lemma colon_notin_inet_ntop [simp]: "CHR '':'' \<notin> set (inet_ntop a)"
  by (simp add: inet_ntop_def)

lemma ntohs_inject [simp]: "ntohs p = ntohs q \<longleftrightarrow> p = q"
  by (metis ntohs_htons ntohs_def htons_def)

section \<open>Property\<close>

text \<open>
  C40. \<^verbatim>\<open>toIpPort\<close> never overruns its 64-byte array: its text is the dotted address, a colon and the decimal
  port, at most 21 characters; two addresses give the same text only if they are the same host and
  port; and \<^verbatim>\<open>toPort\<close> gives back the port the constructor was called with.
\<close>

theorem toIpPort_faithful:
  "(\<exists>s. toIpPort a = Inr s \<and> length s \<le> 21 \<and> s = toIp a @ '':'' @ dec (unat (toPort a))) \<and>
   (toIpPort a = toIpPort b \<longleftrightarrow>
      s_addr (sock_addr a) = s_addr (sock_addr b) \<and> sin_port (sock_addr a) = sin_port (sock_addr b)) \<and>
   toPort (mk_InetAddress inet_addr port ip) = port"
proof (intro conjI)
  show "\<exists>s. toIpPort a = Inr s \<and> length s \<le> 21 \<and> s = toIp a @ '':'' @ dec (unat (toPort a))"
    using length_toIpPort [of a] by (simp add: toIpPort_eq)
  have "toIpPort a = toIpPort b \<longleftrightarrow> inet_ntop (s_addr (sock_addr a)) = inet_ntop (s_addr (sock_addr b)) \<and>
      unat (toPort a) = unat (toPort b)"
    unfolding toIpPort_eq toIp_def by (simp add: append_sep_inject)
  then show "toIpPort a = toIpPort b \<longleftrightarrow>
      s_addr (sock_addr a) = s_addr (sock_addr b) \<and> sin_port (sock_addr a) = sin_port (sock_addr b)"
    unfolding inet_ntop_inject toPort_def using unsigned_word_eqI [of "ntohs (sin_port (sock_addr a))" "ntohs (sin_port (sock_addr b))"]
    by auto
  show "toPort (mk_InetAddress inet_addr port ip) = port" by (simp add: toPort_def mk_InetAddress_def)
qed

end
