(* ===== verification/Logger.thy ===== *)
theory Logger
  imports Base
begin

text \<open>
  \<^verbatim>\<open>src/Timestamp.{h,cc}\<close> and \<^verbatim>\<open>src/Logger.{h,cc}\<close>: time stamps, their text, and the log line that
  the \<^verbatim>\<open>LOG_*\<close> macros print. \<^verbatim>\<open>localtime\<close> is an argument (it depends on the time zone). The other
  components record the level and the format text of each \<^verbatim>\<open>LOG_ERROR\<close> they make.
\<close>

section \<open>Timestamp\<close>

record Timestamp =
  microSecondsSinceEpoch :: int

definition Timestamp_zero :: Timestamp where
  "Timestamp_zero = \<lparr>microSecondsSinceEpoch = 0\<rparr>"

definition mk_Timestamp :: "int \<Rightarrow> Timestamp" where
  "mk_Timestamp t = \<lparr>microSecondsSinceEpoch = t\<rparr>"

text \<open>\<open>time\<close> is the value of \<^verbatim>\<open>time(NULL)\<close>, in seconds.\<close>

definition Timestamp_now :: "int \<Rightarrow> Timestamp" where
  "Timestamp_now time = mk_Timestamp time"

record tm =
  tm_year :: int
  tm_mon :: int
  tm_mday :: int
  tm_hour :: int
  tm_min :: int
  tm_sec :: int

definition fmt_4d :: "int \<Rightarrow> string" where
  "fmt_4d i = replicate (4 - length (fmt_d i)) (CHR '' '') @ fmt_d i"

definition fmt_02d :: "int \<Rightarrow> string" where
  "fmt_02d i = replicate (2 - length (fmt_d i)) (CHR ''0'') @ fmt_d i"

definition toString :: "(int \<Rightarrow> tm) \<Rightarrow> Timestamp \<Rightarrow> string" where
  "toString localtime t =
     (let tm_time = localtime (microSecondsSinceEpoch t)
      in snprintf 128
           (fmt_4d (tm_year tm_time + 1900) @ ''/'' @ fmt_02d (tm_mon tm_time + 1) @ ''/'' @
            fmt_02d (tm_mday tm_time) @ '' '' @ fmt_02d (tm_hour tm_time) @ '':'' @
            fmt_02d (tm_min tm_time) @ '':'' @ fmt_02d (tm_sec tm_time)))"

section \<open>Logger\<close>

datatype LogLevel = INFO | ERROR | FATAL | DEBUG

text \<open>The singleton's level and what has been written to \<^verbatim>\<open>std::cout\<close>.\<close>

record logger =
  logLevel :: LogLevel
  cout :: string

definition setLogLevel :: "LogLevel \<Rightarrow> logger \<Rightarrow> logger" where
  "setLogLevel l g = g\<lparr>logLevel := l\<rparr>"

fun level_prefix :: "LogLevel \<Rightarrow> string" where
  "level_prefix INFO = ''[INFO]''"
| "level_prefix ERROR = ''[ERROR]''"
| "level_prefix FATAL = ''[FATAL]''"
| "level_prefix DEBUG = ''[DEBUG]''"

definition log_msg :: "(int \<Rightarrow> tm) \<Rightarrow> int \<Rightarrow> string \<Rightarrow> logger \<Rightarrow> logger" where
  "log_msg localtime time msg g =
     g\<lparr>cout := cout g @ level_prefix (logLevel g) @
               toString localtime (Timestamp_now time) @ '' : '' @ msg @ [CHR 0x0A]\<rparr>"

text \<open>
  The macros: set the level, format into \<^verbatim>\<open>char buf[1024]\<close>, write the line; \<^verbatim>\<open>LOG_FATAL\<close> then
  exits. \<open>msg\<close> is the formatted text.
\<close>

definition LOG_INFO :: "(int \<Rightarrow> tm) \<Rightarrow> int \<Rightarrow> string \<Rightarrow> logger \<Rightarrow> logger res" where
  "LOG_INFO lt t msg g = Inr (log_msg lt t (snprintf 1024 msg) (setLogLevel INFO g))"

definition LOG_ERROR :: "(int \<Rightarrow> tm) \<Rightarrow> int \<Rightarrow> string \<Rightarrow> logger \<Rightarrow> logger res" where
  "LOG_ERROR lt t msg g = Inr (log_msg lt t (snprintf 1024 msg) (setLogLevel ERROR g))"

definition LOG_FATAL :: "(int \<Rightarrow> tm) \<Rightarrow> int \<Rightarrow> string \<Rightarrow> logger \<Rightarrow> logger res" where
  "LOG_FATAL lt t msg g =
     (let g' = log_msg lt t (snprintf 1024 msg) (setLogLevel FATAL g) in Inl Exit_Fatal)"

section \<open>Lemmas\<close>

lemma fmt_d_nonneg [simp]: "0 \<le> i \<Longrightarrow> fmt_d i = dec (nat i)"
  by (simp add: fmt_d_def)

lemma length_dec_exact:
  assumes "10 ^ k \<le> n" and "n < 10 ^ Suc k"
  shows "length (dec n) = Suc k"
  using assms
proof (induction k arbitrary: n)
  case 0
  then show ?case by (simp add: dec.simps [of n])
next
  case (Suc k)
  then have "10 ^ k \<le> n div 10" "n div 10 < 10 ^ Suc k" by auto
  then have "length (dec (n div 10)) = Suc k" by (rule Suc.IH)
  moreover have "\<not> n < 10"
  proof -
    have "(1::nat) \<le> 10 ^ k" by simp
    with Suc.prems(1) show ?thesis by (simp only: power_Suc)
  qed
  ultimately show ?case by (simp add: dec.simps [of n])
qed

lemma length_fmt_4d: "1000 \<le> i \<Longrightarrow> i < 10000 \<Longrightarrow> length (fmt_4d i) = 4"
  using length_dec_exact [of 3 "nat i"] by (simp add: fmt_4d_def)

lemma length_fmt_02d: "0 \<le> i \<Longrightarrow> i < 100 \<Longrightarrow> length (fmt_02d i) = 2"
  using length_dec [of 2 "nat i"] by (simp add: fmt_02d_def)

lemma foldl_digits_zeros: "foldl (\<lambda>a c. 10 * a + char_digit c) 0 (replicate n (CHR ''0'')) = 0"
  by (induction n) (simp_all add: char_digit_def)

lemma undec_fmt_02d: "0 \<le> i \<Longrightarrow> undec (fmt_02d i) = nat i"
proof -
  assume "0 \<le> i"
  then have "undec (fmt_02d i) = undec (dec (nat i))"
    by (simp add: fmt_02d_def undec_def foldl_digits_zeros)
  then show ?thesis by simp
qed

lemma fmt_02d_inject: "0 \<le> i \<Longrightarrow> 0 \<le> j \<Longrightarrow> fmt_02d i = fmt_02d j \<longleftrightarrow> i = j"
  using undec_fmt_02d [of i] undec_fmt_02d [of j] by fastforce

lemma fmt_4d_inject:
  "1000 \<le> i \<Longrightarrow> i < 10000 \<Longrightarrow> 1000 \<le> j \<Longrightarrow> j < 10000 \<Longrightarrow> fmt_4d i = fmt_4d j \<longleftrightarrow> i = j"
  using length_dec_exact [of 3 "nat i"] length_dec_exact [of 3 "nat j"]
  by (simp add: fmt_4d_def) linarith

section \<open>Property\<close>

definition tm_ok :: "tm \<Rightarrow> bool" where
  "tm_ok m \<longleftrightarrow> - 900 \<le> tm_year m \<and> tm_year m < 8100 \<and> 0 \<le> tm_mon m \<and> tm_mon m < 12 \<and>
     1 \<le> tm_mday m \<and> tm_mday m \<le> 31 \<and> 0 \<le> tm_hour m \<and> tm_hour m < 24 \<and> 0 \<le> tm_min m \<and> tm_min m < 60 \<and>
     0 \<le> tm_sec m \<and> tm_sec m \<le> 60"

lemma toString_text:
  assumes "m = localtime (microSecondsSinceEpoch t)" and "tm_ok m"
  shows "toString localtime t =
     fmt_4d (tm_year m + 1900) @ ''/'' @ fmt_02d (tm_mon m + 1) @ ''/'' @
     fmt_02d (tm_mday m) @ '' '' @ fmt_02d (tm_hour m) @ '':'' @ fmt_02d (tm_min m) @ '':'' @ fmt_02d (tm_sec m)"
  using assms by (simp add: toString_def Let_def snprintf_short length_fmt_4d length_fmt_02d tm_ok_def)

text \<open>
  The text of a time stamp: for broken-down times in the ranges of localtime(3) and a four-digit
  year, \<^verbatim>\<open>toString\<close> fits its 128-byte array, has always 19 characters, and two time stamps with the same
  text have the same broken-down time.
\<close>

lemma toString_fixed_width:
  assumes "tm_ok (localtime (microSecondsSinceEpoch t))" and "tm_ok (localtime (microSecondsSinceEpoch u))"
  shows "length (toString localtime t) = 19 \<and>
     (toString localtime t = toString localtime u \<longleftrightarrow>
        localtime (microSecondsSinceEpoch t) = localtime (microSecondsSinceEpoch u))"
proof
  show "length (toString localtime t) = 19"
    unfolding toString_text [of _ localtime t, OF refl assms(1)] using assms(1)
    by (simp add: length_fmt_4d length_fmt_02d tm_ok_def)
  let ?a = "localtime (microSecondsSinceEpoch t)" and ?b = "localtime (microSecondsSinceEpoch u)"
  have "toString localtime t = toString localtime u \<longleftrightarrow>
      tm_year ?a = tm_year ?b \<and> tm_mon ?a = tm_mon ?b \<and> tm_mday ?a = tm_mday ?b \<and> tm_hour ?a = tm_hour ?b \<and>
      tm_min ?a = tm_min ?b \<and> tm_sec ?a = tm_sec ?b"
    unfolding toString_text [of _ localtime t, OF refl assms(1)] toString_text [of _ localtime u, OF refl assms(2)] using assms
    by (simp add: tm_ok_def length_fmt_4d length_fmt_02d fmt_02d_inject fmt_4d_inject append_eq_append_conv
        del: append_assoc flip: append_assoc)
  then show "toString localtime t = toString localtime u \<longleftrightarrow> ?a = ?b" by (auto intro: tm.equality)
qed

lemma toString_fixed_width_witness:
  "length (toString (\<lambda>s. \<lparr>tm_year = 125, tm_mon = 0, tm_mday = 1, tm_hour = 0, tm_min = 0, tm_sec = s\<rparr>)
     (mk_Timestamp 5)) = 19"
proof -
  let ?lt = "\<lambda>s. \<lparr>tm_year = 125, tm_mon = 0, tm_mday = 1, tm_hour = 0, tm_min = 0, tm_sec = s\<rparr>"
  have "tm_ok (?lt (microSecondsSinceEpoch (mk_Timestamp 5)))" by (simp add: tm_ok_def mk_Timestamp_def)
  from toString_fixed_width [of ?lt "mk_Timestamp 5" "mk_Timestamp 5", OF this this] show ?thesis by blast
qed

end
