(* ===== verification/Kernel.thy ===== *)
theory Kernel
  imports InetAddress Logger
begin

text \<open>
  The operating system as a parameter. A \<open>'k kernel\<close> is a record of the system calls the program
  makes, over an abstract kernel state \<open>'k\<close>; every operation that reaches the system takes it as
  an argument. A call returns the C return value and the value of \<^verbatim>\<open>errno\<close> after it. What the
  properties rely on is stated as named predicates on the record, from the manual pages
  epoll_ctl(2), epoll_wait(2), readv(2), write(2) and eventfd(2). \<open>sigpipe_ignored\<close> is the disposition of
  \<^verbatim>\<open>SIGPIPE\<close> the process was started with, which the program never changes.
\<close>

datatype ctl_op = EPOLL_CTL_ADD | EPOLL_CTL_DEL | EPOLL_CTL_MOD

text \<open>\<^verbatim>\<open>struct epoll_event\<close>: \<^verbatim>\<open>data\<close> is a union whose \<^verbatim>\<open>ptr\<close> member is the one set last and read.\<close>

record epoll_event =
  ev_events :: c_int
  ev_ptr :: chan_id

datatype sock_opt = TCP_NODELAY | SO_REUSEADDR | SO_REUSEPORT | SO_KEEPALIVE

record 'k kernel =
  sys_write :: "fd \<Rightarrow> byte list \<Rightarrow> 'k \<Rightarrow> (int \<times> errno) \<times> 'k"
  sys_read8 :: "fd \<Rightarrow> 'k \<Rightarrow> (int \<times> errno) \<times> 'k"
  sys_readv :: "fd \<Rightarrow> nat list \<Rightarrow> 'k \<Rightarrow> (int \<times> errno \<times> byte list) \<times> 'k"
  sys_close :: "fd \<Rightarrow> 'k \<Rightarrow> 'k"
  sys_eventfd :: "'k \<Rightarrow> (int \<times> errno) \<times> 'k"
  sys_epoll_create1 :: "'k \<Rightarrow> (int \<times> errno) \<times> 'k"
  sys_epoll_ctl :: "fd \<Rightarrow> ctl_op \<Rightarrow> fd \<Rightarrow> epoll_event \<Rightarrow> 'k \<Rightarrow> (int \<times> errno) \<times> 'k"
  sys_epoll_wait :: "fd \<Rightarrow> nat \<Rightarrow> int \<Rightarrow> 'k \<Rightarrow> (int \<times> errno \<times> epoll_event list) \<times> 'k"
  sys_socket :: "'k \<Rightarrow> (int \<times> errno) \<times> 'k"
  sys_bind :: "fd \<Rightarrow> sockaddr_in \<Rightarrow> 'k \<Rightarrow> (int \<times> errno) \<times> 'k"
  sys_listen :: "fd \<Rightarrow> int \<Rightarrow> 'k \<Rightarrow> (int \<times> errno) \<times> 'k"
  sys_accept4 :: "fd \<Rightarrow> 'k \<Rightarrow> (int \<times> errno \<times> sockaddr_in) \<times> 'k"
  sys_shutdown_wr :: "fd \<Rightarrow> 'k \<Rightarrow> (int \<times> errno) \<times> 'k"
  sys_setsockopt :: "fd \<Rightarrow> sock_opt \<Rightarrow> int \<Rightarrow> 'k \<Rightarrow> (int \<times> errno) \<times> 'k"
  sys_getsockopt_error :: "fd \<Rightarrow> 'k \<Rightarrow> (int \<times> errno \<times> int) \<times> 'k"
  sys_getsockname :: "fd \<Rightarrow> 'k \<Rightarrow> (int \<times> errno \<times> sockaddr_in) \<times> 'k"
  sys_time :: "'k \<Rightarrow> int"
  sigpipe_ignored :: bool

text \<open>The kernel state together with the error lines logged so far.\<close>

record 'k sys =
  os :: 'k
  logs :: "(LogLevel \<times> string) list"

definition log_error :: "string \<Rightarrow> 'k sys \<Rightarrow> 'k sys" where
  "log_error msg \<sigma> = \<sigma>\<lparr>logs := logs \<sigma> @ [(ERROR, msg)]\<rparr>"

lemma os_log_error [simp]: "os (log_error msg \<sigma>) = os \<sigma>"
  by (simp add: log_error_def)

lemma logs_log_error [simp]: "logs (log_error msg \<sigma>) = logs \<sigma> @ [(ERROR, msg)]"
  by (simp add: log_error_def)

section \<open>Documented behaviour of the system calls\<close>

text \<open>
  readv(2): on success the number of bytes transferred, at most the sum of the lengths, is
  returned; the buffers are filled in order. \<open>bs\<close> are the bytes transferred.
\<close>

definition readv_contract :: "'k kernel \<Rightarrow> bool" where
  "readv_contract K \<longleftrightarrow>
     (\<forall>fd lens k n e bs k'. sys_readv K fd lens k = ((n, e, bs), k') \<longrightarrow>
        (0 \<le> n \<longrightarrow> n = int (length bs) \<and> length bs \<le> sum_list lens))"

text \<open>
  write(2): the number of bytes written is at most the number given. On a stream whose reader is gone the call fails
  with \<^verbatim>\<open>EPIPE\<close> and the process gets \<^verbatim>\<open>SIGPIPE\<close>, which kills it unless the signal is ignored; the writes to
  connections test for that (the eventfd has no reader to lose).
\<close>

definition broken_pipe :: "'k kernel \<Rightarrow> int \<Rightarrow> errno \<Rightarrow> bool" where
  "broken_pipe K n e \<longleftrightarrow> n < 0 \<and> e = EPIPE \<and> \<not> sigpipe_ignored K"

lemma no_broken_pipe [simp]: "0 \<le> n \<Longrightarrow> \<not> broken_pipe K n e"
  by (simp add: broken_pipe_def)

definition write_contract :: "'k kernel \<Rightarrow> bool" where
  "write_contract K \<longleftrightarrow>
     (\<forall>fd bs k n e k'. sys_write K fd bs k = ((n, e), k') \<longrightarrow> n \<le> int (length bs))"

text \<open>
  epoll_ctl(2), for the interest list \<open>interest ep k\<close> of the epoll instance \<open>ep\<close>: \<open>ADD\<close> of a
  registered descriptor fails with \<^verbatim>\<open>EEXIST\<close>, \<open>MOD\<close> and \<open>DEL\<close> of one that is not fail with
  \<^verbatim>\<open>ENOENT\<close>; a call that succeeds returns 0 and changes the entry of that descriptor in that instance only, a call
  that fails (an \<open>ADD\<close> or \<open>MOD\<close> may also lack resources) returns -1 and changes nothing.
\<close>

type_synonym interest_list = "fd \<Rightarrow> epoll_event option"

definition ctl_applicable :: "ctl_op \<Rightarrow> fd \<Rightarrow> interest_list \<Rightarrow> bool" where
  "ctl_applicable op f il = (case op of EPOLL_CTL_ADD \<Rightarrow> il f = None | _ \<Rightarrow> il f \<noteq> None)"

definition ctl_apply :: "ctl_op \<Rightarrow> fd \<Rightarrow> epoll_event \<Rightarrow> interest_list \<Rightarrow> interest_list" where
  "ctl_apply op f ev il = (case op of EPOLL_CTL_DEL \<Rightarrow> il(f := None) | _ \<Rightarrow> il(f := Some ev))"

definition ctl_errno :: "ctl_op \<Rightarrow> errno" where
  "ctl_errno op = (case op of EPOLL_CTL_ADD \<Rightarrow> EEXIST | _ \<Rightarrow> ENOENT)"

definition epoll_ctl_contract :: "'k kernel \<Rightarrow> (fd \<Rightarrow> 'k \<Rightarrow> interest_list) \<Rightarrow> bool" where
  "epoll_ctl_contract K interest \<longleftrightarrow>
     (\<forall>ep op f ev k r e k'. sys_epoll_ctl K ep op f ev k = ((r, e), k') \<longrightarrow>
        (\<forall>ep'. ep' \<noteq> ep \<longrightarrow> interest ep' k' = interest ep' k) \<and>
        (if ctl_applicable op f (interest ep k)
         then (r = 0 \<and> interest ep k' = ctl_apply op f ev (interest ep k)) \<or>
              (op \<noteq> EPOLL_CTL_DEL \<and> r = - 1 \<and> interest ep k' = interest ep k)
         else r = - 1 \<and> e = ctl_errno op \<and> interest ep k' = interest ep k))"

text \<open>epoll_wait(2): at most \<open>maxevents\<close> events are returned, and the count is their number.\<close>

definition epoll_wait_contract :: "'k kernel \<Rightarrow> bool" where
  "epoll_wait_contract K \<longleftrightarrow>
     (\<forall>ep maxevents t k n e evs k'. sys_epoll_wait K ep maxevents t k = ((n, e, evs), k') \<longrightarrow>
        (0 \<le> n \<longrightarrow> n = int (length evs) \<and> length evs \<le> maxevents))"

text \<open>
  Only epoll_ctl(2) (and close(2)) change an interest list: the calls the connections make besides
  these two leave every interest list alone. \<open>sent f k\<close> observes what the kernel has accepted on the
  stream \<open>f\<close>: write(2) adds the prefix it reports, shutdown(2) of the write end adds the end of the
  stream, a failed call and every other call add nothing.
\<close>

datatype stream_item = Byte byte | Fin

definition epoll_frame_contract :: "'k kernel \<Rightarrow> (fd \<Rightarrow> 'k \<Rightarrow> interest_list) \<Rightarrow> bool" where
  "epoll_frame_contract K interest \<longleftrightarrow>
     (\<forall>ep f bs k. interest ep (snd (sys_write K f bs k)) = interest ep k) \<and>
     (\<forall>ep f lens k. interest ep (snd (sys_readv K f lens k)) = interest ep k) \<and>
     (\<forall>ep f b k. interest ep (snd (sys_listen K f b k)) = interest ep k) \<and>
     (\<forall>ep f k. interest ep (snd (sys_shutdown_wr K f k)) = interest ep k) \<and>
     (\<forall>ep f opt v k. interest ep (snd (sys_setsockopt K f opt v k)) = interest ep k) \<and>
     (\<forall>ep f k. interest ep (snd (sys_getsockname K f k)) = interest ep k) \<and>
     (\<forall>ep ep' m t k. interest ep (snd (sys_epoll_wait K ep' m t k)) = interest ep k)"

definition stream_contract :: "'k kernel \<Rightarrow> (fd \<Rightarrow> 'k \<Rightarrow> stream_item list) \<Rightarrow> bool" where
  "stream_contract K sent \<longleftrightarrow>
     (\<forall>f bs k n e k'. sys_write K f bs k = ((n, e), k') \<longrightarrow>
        (\<forall>g. sent g k' = (if g = f then sent g k @ map Byte (take (nat n) bs) else sent g k))) \<and>
     (\<forall>ep op f ev k g. sent g (snd (sys_epoll_ctl K ep op f ev k)) = sent g k) \<and>
     (\<forall>f lens k g. sent g (snd (sys_readv K f lens k)) = sent g k) \<and>
     (\<forall>ep m t k g. sent g (snd (sys_epoll_wait K ep m t k)) = sent g k) \<and>
     (\<forall>f k r e k'. sys_shutdown_wr K f k = ((r, e), k') \<longrightarrow>
        (\<forall>g. sent g k' = (if g = f \<and> 0 \<le> r then sent g k @ [Fin] else sent g k)))"

text \<open>A kernel that never refuses an applicable call of epoll_ctl(2) for lack of resources.\<close>

definition epoll_ctl_grants :: "'k kernel \<Rightarrow> (fd \<Rightarrow> 'k \<Rightarrow> interest_list) \<Rightarrow> bool" where
  "epoll_ctl_grants K interest \<longleftrightarrow>
     (\<forall>ep op f ev k. ctl_applicable op f (interest ep k) \<longrightarrow> 0 \<le> fst (fst (sys_epoll_ctl K ep op f ev k)))"

text \<open>epoll_create1(2): a new epoll instance watches nothing.\<close>

definition epoll_create_contract :: "'k kernel \<Rightarrow> (fd \<Rightarrow> 'k \<Rightarrow> interest_list) \<Rightarrow> bool" where
  "epoll_create_contract K interest \<longleftrightarrow>
     (\<forall>k ep e k'. sys_epoll_create1 K k = ((ep, e), k') \<longrightarrow> 0 \<le> ep \<longrightarrow> interest ep k' = (\<lambda>_. None))"

lemma epoll_createD:
  "epoll_create_contract K interest \<Longrightarrow> sys_epoll_create1 K k = ((ep, e), k') \<Longrightarrow> 0 \<le> ep \<Longrightarrow> interest ep k' = (\<lambda>_. None)"
  unfolding epoll_create_contract_def by blast

text \<open>
  None of the calls that create a loop is promised to succeed: eventfd(2) and epoll_create1(2) may lack descriptors
  or memory, epoll_ctl(2) memory or watches. \<open>loop_grants\<close> and \<open>epoll_ctl_grants\<close> name the kernels that never refuse
  one; a property that does not suppose them says what happens when a call is refused.
\<close>

definition loop_grants :: "'k kernel \<Rightarrow> bool" where
  "loop_grants K \<longleftrightarrow> (\<forall>k. 0 \<le> fst (fst (sys_eventfd K k))) \<and> (\<forall>k. 0 \<le> fst (fst (sys_epoll_create1 K k)))"

lemma loop_grantsD:
  assumes "loop_grants K"
  shows "sys_eventfd K k = ((f, e), k') \<Longrightarrow> 0 \<le> f" "sys_epoll_create1 K k = ((f, e), k') \<Longrightarrow> 0 \<le> f"
  using assms unfolding loop_grants_def by (metis fst_conv)+

lemma epoll_frameD:
  assumes "epoll_frame_contract K interest"
  shows "interest ep (snd (sys_write K f bs k)) = interest ep k"
    and "interest ep (snd (sys_readv K f lens k)) = interest ep k"
    and "interest ep (snd (sys_listen K f b k)) = interest ep k"
    and "interest ep (snd (sys_shutdown_wr K f k)) = interest ep k"
    and "interest ep (snd (sys_setsockopt K f opt v k)) = interest ep k"
    and "interest ep (snd (sys_getsockname K f k)) = interest ep k"
    and "interest ep (snd (sys_epoll_wait K ep' m t k)) = interest ep k"
  using assms by (simp_all add: epoll_frame_contract_def)

lemma stream_writeD:
  assumes "stream_contract K sent" and "sys_write K f bs k = ((n, e), k')"
  shows "sent g k' = (if g = f then sent g k @ map Byte (take (nat n) bs) else sent g k)"
  by (rule assms(1) [unfolded stream_contract_def, THEN conjunct1, rule_format, OF assms(2)])

lemma stream_otherD:
  assumes S: "stream_contract K sent"
  shows "sent g (snd (sys_epoll_ctl K ep op f ev k)) = sent g k"
    and "sent g (snd (sys_readv K f lens k)) = sent g k"
    and "f \<noteq> g \<Longrightarrow> sent g (snd (sys_write K f bs k)) = sent g k"
    and "sent g (snd (sys_epoll_wait K ep m t k)) = sent g k"
proof -
  show "sent g (snd (sys_epoll_ctl K ep op f ev k)) = sent g k"
    by (rule S [unfolded stream_contract_def, THEN conjunct2, THEN conjunct1, rule_format])
  show "sent g (snd (sys_readv K f lens k)) = sent g k"
    by (rule S [unfolded stream_contract_def, THEN conjunct2, THEN conjunct2, THEN conjunct1, rule_format])
  show "sent g (snd (sys_epoll_wait K ep m t k)) = sent g k"
    by (rule S [unfolded stream_contract_def, THEN conjunct2, THEN conjunct2, THEN conjunct2, THEN conjunct1, rule_format])
  assume "f \<noteq> g"
  then show "sent g (snd (sys_write K f bs k)) = sent g k"
    using stream_writeD [OF S, of f bs k _ _ _ g] by (metis prod.collapse)
qed

lemma stream_shutdownD:
  assumes "stream_contract K sent" and "sys_shutdown_wr K f k = ((r, e), k')"
  shows "sent g k' = (if g = f \<and> 0 \<le> r then sent g k @ [Fin] else sent g k)"
  by (rule assms(1) [unfolded stream_contract_def, THEN conjunct2, THEN conjunct2, THEN conjunct2,
        THEN conjunct2, rule_format,
        OF assms(2)])

lemma epoll_ctl_grantsD:
  "epoll_ctl_grants K interest \<Longrightarrow> ctl_applicable op f (interest ep k) \<Longrightarrow>
     0 \<le> fst (fst (sys_epoll_ctl K ep op f ev k))"
  unfolding epoll_ctl_grants_def by blast

lemma readv_contractD:
  "readv_contract K \<Longrightarrow> sys_readv K f lens k = ((n, e, bs), k') \<Longrightarrow> 0 \<le> n \<Longrightarrow>
     n = int (length bs) \<and> length bs \<le> sum_list lens"
  unfolding readv_contract_def by blast

lemma write_contractD:
  "write_contract K \<Longrightarrow> sys_write K f bs k = ((n, e), k') \<Longrightarrow> n \<le> int (length bs)"
  unfolding write_contract_def by blast

lemma epoll_ctl_contract_ok:
  "epoll_ctl_contract K interest \<Longrightarrow> sys_epoll_ctl K ep op f ev k = ((r, e), k') \<Longrightarrow>
   ctl_applicable op f (interest ep k) \<Longrightarrow> 0 \<le> r \<Longrightarrow>
     interest ep k' = ctl_apply op f ev (interest ep k)"
  unfolding epoll_ctl_contract_def by fastforce

lemma epoll_ctl_contract_fail:
  "epoll_ctl_contract K interest \<Longrightarrow> sys_epoll_ctl K ep op f ev k = ((r, e), k') \<Longrightarrow>
   \<not> ctl_applicable op f (interest ep k) \<Longrightarrow>
     r = - 1 \<and> e = ctl_errno op \<and> interest ep k' = interest ep k"
  unfolding epoll_ctl_contract_def by fastforce

lemma epoll_ctl_contract_other:
  "epoll_ctl_contract K interest \<Longrightarrow> sys_epoll_ctl K ep op f ev k = ((r, e), k') \<Longrightarrow> ep' \<noteq> ep \<Longrightarrow>
     interest ep' k' = interest ep' k"
  unfolding epoll_ctl_contract_def by blast

lemma epoll_wait_contractD:
  "epoll_wait_contract K \<Longrightarrow> sys_epoll_wait K ep m t k = ((n, e, evs), k') \<Longrightarrow> 0 \<le> n \<Longrightarrow>
     n = int (length evs) \<and> length evs \<le> m"
  unfolding epoll_wait_contract_def by blast

end
