(* ===== verification/Channel.thy ===== *)
theory Channel
  imports Kernel
begin

text \<open>
  \<^verbatim>\<open>src/Channel.{h,cc}\<close>: a descriptor, the events it wants, the events that occurred and the four
  callbacks. The operations that only touch the channel are here; those that also reach the poller
  (\<^verbatim>\<open>update\<close>, \<^verbatim>\<open>enableReading\<close>, \<^verbatim>\<open>remove\<close> and so on) are completed in theory \<open>EventLoop\<close>, whose
  state they change. Callbacks are named by the member function they are bound to; the meaning of
  a name is the \<open>disp\<close> argument of the dispatch.
\<close>

unbundle bit_operations_syntax

section \<open>Constants and data\<close>

definition EPOLLIN :: c_int where "EPOLLIN = 1"
definition EPOLLPRI :: c_int where "EPOLLPRI = 2"
definition EPOLLOUT :: c_int where "EPOLLOUT = 4"
definition EPOLLERR :: c_int where "EPOLLERR = 8"
definition EPOLLHUP :: c_int where "EPOLLHUP = 16"

definition kNoneEvent :: c_int where "kNoneEvent = 0"
definition kReadEvent :: c_int where "kReadEvent = EPOLLIN OR EPOLLPRI"
definition kWriteEvent :: c_int where "kWriteEvent = EPOLLOUT"

lemmas event_defs =
  EPOLLIN_def EPOLLPRI_def EPOLLOUT_def EPOLLERR_def EPOLLHUP_def
  kNoneEvent_def kReadEvent_def kWriteEvent_def

datatype handler =
    LoopHandleRead loop_id
  | AcceptorHandleRead
  | ConnHandleRead conn_id
  | ConnHandleWrite conn_id
  | ConnHandleClose conn_id
  | ConnHandleError conn_id

record channel =
  ch_loop :: loop_id
  ch_fd :: fd
  ch_events :: c_int
  ch_revents :: c_int
  ch_index :: int
  ch_tie :: "conn_id option"
  ch_tied :: bool
  readCallback :: "handler option"
  writeCallback :: "handler option"
  closeCallback :: "handler option"
  errorCallback :: "handler option"

text \<open>A descriptor outside the expected range is only reported on \<^verbatim>\<open>stderr\<close>.\<close>

definition mk_Channel :: "loop_id \<Rightarrow> fd \<Rightarrow> channel" where
  "mk_Channel l f =
     \<lparr>ch_loop = l, ch_fd = f, ch_events = 0, ch_revents = 0, ch_index = - 1,
      ch_tie = None, ch_tied = False,
      readCallback = None, writeCallback = None, closeCallback = None, errorCallback = None\<rparr>"

definition setReadCallback :: "handler \<Rightarrow> channel \<Rightarrow> channel" where
  "setReadCallback h c = c\<lparr>readCallback := Some h\<rparr>"

definition setWriteCallback :: "handler \<Rightarrow> channel \<Rightarrow> channel" where
  "setWriteCallback h c = c\<lparr>writeCallback := Some h\<rparr>"

definition setCloseCallback :: "handler \<Rightarrow> channel \<Rightarrow> channel" where
  "setCloseCallback h c = c\<lparr>closeCallback := Some h\<rparr>"

definition setErrorCallback :: "handler \<Rightarrow> channel \<Rightarrow> channel" where
  "setErrorCallback h c = c\<lparr>errorCallback := Some h\<rparr>"

definition tie :: "conn_id \<Rightarrow> channel \<Rightarrow> channel" where
  "tie obj c = c\<lparr>ch_tie := Some obj, ch_tied := True\<rparr>"

definition set_revents :: "c_int \<Rightarrow> channel \<Rightarrow> channel" where
  "set_revents r c = c\<lparr>ch_revents := r\<rparr>"

definition set_index :: "int \<Rightarrow> channel \<Rightarrow> channel" where
  "set_index i c = c\<lparr>ch_index := i\<rparr>"

definition isNoneEvent :: "channel \<Rightarrow> bool" where
  "isNoneEvent c \<longleftrightarrow> ch_events c = kNoneEvent"

definition isWriting :: "channel \<Rightarrow> bool" where
  "isWriting c \<longleftrightarrow> ch_events c AND kWriteEvent \<noteq> 0"

definition isReading :: "channel \<Rightarrow> bool" where
  "isReading c \<longleftrightarrow> ch_events c AND kReadEvent \<noteq> 0"

text \<open>
  The change each request makes to \<^verbatim>\<open>events_\<close> before \<^verbatim>\<open>update()\<close> is called. \<^verbatim>\<open>disableWriting\<close> is
  written with \<^verbatim>\<open>events_ &= kWriteEvent\<close>, without the complement.
\<close>

datatype interest_req = EnableReading | DisableReading | EnableWriting | DisableWriting | DisableAll

fun request_events :: "interest_req \<Rightarrow> c_int \<Rightarrow> c_int" where
  "request_events EnableReading ev = ev OR kReadEvent"
| "request_events DisableReading ev = ev AND NOT kReadEvent"
| "request_events EnableWriting ev = ev OR kWriteEvent"
| "request_events DisableWriting ev = ev AND kWriteEvent"
| "request_events DisableAll ev = kNoneEvent"

definition request :: "interest_req \<Rightarrow> channel \<Rightarrow> channel" where
  "request r c = c\<lparr>ch_events := request_events r (ch_events c)\<rparr>"

section \<open>Dispatch of the events that occurred\<close>

text \<open>
  \<open>getc\<close> reads the channel object from the program state; \<open>disp\<close> runs a bound member function. The
  test and the callback are read again before each of the four calls, as the code does.
\<close>

definition call_if :: "('w \<Rightarrow> channel option) \<Rightarrow> (handler \<Rightarrow> 'w \<Rightarrow> 'w res) \<Rightarrow>
    (c_int \<Rightarrow> bool) \<Rightarrow> (channel \<Rightarrow> handler option) \<Rightarrow> 'w \<Rightarrow> 'w res" where
  "call_if getc disp cond cb w =
     (case getc w of
        None \<Rightarrow> Inl Null_Deref
      | Some c \<Rightarrow> if cond (ch_revents c)
                  then (case cb c of Some h \<Rightarrow> disp h w | None \<Rightarrow> Inr w)
                  else Inr w)"

definition wants_close :: "c_int \<Rightarrow> bool" where
  "wants_close r \<longleftrightarrow> r AND EPOLLHUP \<noteq> 0 \<and> \<not> (r AND EPOLLIN \<noteq> 0)"

definition wants_error :: "c_int \<Rightarrow> bool" where
  "wants_error r \<longleftrightarrow> r AND EPOLLERR \<noteq> 0"

definition wants_read :: "c_int \<Rightarrow> bool" where
  "wants_read r \<longleftrightarrow> r AND (EPOLLIN OR EPOLLPRI) \<noteq> 0"

definition wants_write :: "c_int \<Rightarrow> bool" where
  "wants_write r \<longleftrightarrow> r AND EPOLLOUT \<noteq> 0"

definition handleEventWithGuard ::
    "('w \<Rightarrow> channel option) \<Rightarrow> (handler \<Rightarrow> 'w \<Rightarrow> 'w res) \<Rightarrow> 'w \<Rightarrow> 'w res" where
  "handleEventWithGuard getc disp w =
     bind_r (call_if getc disp wants_close closeCallback w) (\<lambda>w1.
     bind_r (call_if getc disp wants_error errorCallback w1) (\<lambda>w2.
     bind_r (call_if getc disp wants_read readCallback w2) (\<lambda>w3.
       call_if getc disp wants_write writeCallback w3)))"

text \<open>\<open>alive\<close> tells whether the object a \<^verbatim>\<open>weak_ptr\<close> refers to still exists.\<close>

definition handleEvent :: "('w \<Rightarrow> channel option) \<Rightarrow> (conn_id \<Rightarrow> 'w \<Rightarrow> bool) \<Rightarrow>
    (handler \<Rightarrow> 'w \<Rightarrow> 'w res) \<Rightarrow> 'w \<Rightarrow> 'w res" where
  "handleEvent getc alive disp w =
     (case getc w of
        None \<Rightarrow> Inl Null_Deref
      | Some c \<Rightarrow>
          if ch_tied c
          then (case ch_tie c of
                  Some obj \<Rightarrow> if alive obj w then handleEventWithGuard getc disp w else Inr w
                | None \<Rightarrow> Inr w)
          else handleEventWithGuard getc disp w)"

text \<open>
  The reference: the callbacks that a set of events stands for, read off the bits of epoll(7)
  (\<^verbatim>\<open>EPOLLIN\<close> is bit 0, \<^verbatim>\<open>EPOLLPRI\<close> 1, \<^verbatim>\<open>EPOLLOUT\<close> 2, \<^verbatim>\<open>EPOLLERR\<close> 3, \<^verbatim>\<open>EPOLLHUP\<close> 4) and not off the code's
  tests: close for a hang-up with nothing to read, error for an error, read for data or priority
  data, write for room to write.
\<close>

definition event_handlers :: "channel \<Rightarrow> handler list" where
  "event_handlers c =
     (let opt = (\<lambda>on cb. if on then (case cb of Some h \<Rightarrow> [h] | None \<Rightarrow> []) else []);
          r = ch_revents c
      in opt (bit r 4 \<and> \<not> bit r 0) (closeCallback c) @
         opt (bit r 3) (errorCallback c) @
         opt (bit r 0 \<or> bit r 1) (readCallback c) @
         opt (bit r 2) (writeCallback c))"

section \<open>Lemmas\<close>

lemma request_fields [simp]:
  "ch_fd (request r c) = ch_fd c" "ch_loop (request r c) = ch_loop c" "ch_index (request r c) = ch_index c"
  "ch_revents (request r c) = ch_revents c" "ch_tie (request r c) = ch_tie c" "ch_tied (request r c) = ch_tied c"
  "ch_events (request r c) = request_events r (ch_events c)"
  "readCallback (request r c) = readCallback c" "writeCallback (request r c) = writeCallback c"
  "closeCallback (request r c) = closeCallback c" "errorCallback (request r c) = errorCallback c"
  by (simp_all add: request_def)

lemma set_index_fields [simp]:
  "ch_fd (set_index i c) = ch_fd c" "ch_loop (set_index i c) = ch_loop c" "ch_index (set_index i c) = i"
  "ch_events (set_index i c) = ch_events c" "ch_tie (set_index i c) = ch_tie c" "ch_tied (set_index i c) = ch_tied c"
  "ch_revents (set_index i c) = ch_revents c" "readCallback (set_index i c) = readCallback c"
  "writeCallback (set_index i c) = writeCallback c" "closeCallback (set_index i c) = closeCallback c"
  "errorCallback (set_index i c) = errorCallback c"
  by (simp_all add: set_index_def)

text \<open>Read and write interest as bits of \<^verbatim>\<open>events_\<close>.\<close>

lemma and_nonzero_iff: fixes x m :: c_int shows "x AND m \<noteq> 0 \<longleftrightarrow> (\<exists>n. bit x n \<and> bit m n)"
proof -
  have "x AND m = 0 \<longleftrightarrow> (\<forall>n. \<not> bit (x AND m) n)"
    using bit_eqI [of "x AND m" 0] by auto
  then show ?thesis by (simp add: bit_and_iff)
qed

lemma kReadEvent_bits: "bit kReadEvent n \<longleftrightarrow> n = 0 \<or> n = 1"
proof -
  have e: "kReadEvent = mask 2" by (simp add: event_defs mask_eq_exp_minus_1)
  show ?thesis unfolding e bit_mask_iff possible_bit_word by auto
qed

lemma kWriteEvent_bits: "bit kWriteEvent n \<longleftrightarrow> n = 2"
proof -
  have e: "kWriteEvent = 2 ^ 2" by (simp add: event_defs)
  show ?thesis unfolding e bit_exp_iff possible_bit_word by auto
qed

text \<open>The tests of the code are the bits of epoll(7).\<close>

lemma single_event_bits:
  "bit EPOLLIN n \<longleftrightarrow> n = 0" "bit EPOLLPRI n \<longleftrightarrow> n = 1" "bit EPOLLERR n \<longleftrightarrow> n = 3" "bit EPOLLHUP n \<longleftrightarrow> n = 4"
proof -
  have e: "EPOLLIN = 2 ^ 0" "EPOLLPRI = 2 ^ 1" "EPOLLERR = 2 ^ 3" "EPOLLHUP = 2 ^ 4" by (simp_all add: event_defs)
  show "bit EPOLLIN n \<longleftrightarrow> n = 0" "bit EPOLLPRI n \<longleftrightarrow> n = 1" "bit EPOLLERR n \<longleftrightarrow> n = 3" "bit EPOLLHUP n \<longleftrightarrow> n = 4"
    unfolding e bit_exp_iff possible_bit_word by auto
qed

lemma wants_bits:
  "wants_close r \<longleftrightarrow> bit r 4 \<and> \<not> bit r 0" "wants_error r \<longleftrightarrow> bit r 3"
  "wants_read r \<longleftrightarrow> bit r 0 \<or> bit r 1" "wants_write r \<longleftrightarrow> bit r 2"
proof -
  show "wants_close r \<longleftrightarrow> bit r 4 \<and> \<not> bit r 0" "wants_error r \<longleftrightarrow> bit r 3"
    unfolding wants_close_def wants_error_def and_nonzero_iff single_event_bits by blast+
  show "wants_read r \<longleftrightarrow> bit r 0 \<or> bit r 1"
    unfolding wants_read_def kReadEvent_def [symmetric] and_nonzero_iff kReadEvent_bits by blast
  show "wants_write r \<longleftrightarrow> bit r 2"
    unfolding wants_write_def kWriteEvent_def [symmetric] and_nonzero_iff kWriteEvent_bits by blast
qed

lemma isReading_bits: "isReading c \<longleftrightarrow> bit (ch_events c) 0 \<or> bit (ch_events c) 1"
  unfolding isReading_def and_nonzero_iff kReadEvent_bits by blast

lemma isWriting_bits: "isWriting c \<longleftrightarrow> bit (ch_events c) 2"
  unfolding isWriting_def and_nonzero_iff kWriteEvent_bits by blast

lemma request_bits:
  "bit (request_events r ev) n \<longleftrightarrow>
     (case r of
        EnableReading \<Rightarrow> bit ev n \<or> n = 0 \<or> n = 1
      | DisableReading \<Rightarrow> bit ev n \<and> n \<noteq> 0 \<and> n \<noteq> 1
      | EnableWriting \<Rightarrow> bit ev n \<or> n = 2
      | DisableWriting \<Rightarrow> bit ev n \<and> n = 2
      | DisableAll \<Rightarrow> False)"
proof (cases r)
  case DisableReading
  have "n < 32" if "bit ev n" using that bit_imp_le_length [of ev n] by simp
  with DisableReading show ?thesis
    by (auto simp: bit_and_iff bit_not_iff kReadEvent_bits possible_bit_word)
qed (auto simp: bit_and_iff bit_or_iff kReadEvent_bits kWriteEvent_bits kNoneEvent_def)

text \<open>What the dispatch reads of a channel.\<close>

definition same_dispatch :: "channel \<Rightarrow> channel \<Rightarrow> bool" where
  "same_dispatch c c' \<longleftrightarrow> ch_revents c' = ch_revents c \<and> readCallback c' = readCallback c \<and>
     writeCallback c' = writeCallback c \<and> closeCallback c' = closeCallback c \<and>
     errorCallback c' = errorCallback c"

lemma same_dispatch_refl [simp]: "same_dispatch c c"
  by (simp add: same_dispatch_def)

lemma same_dispatch_trans: "same_dispatch a b \<Longrightarrow> same_dispatch b c \<Longrightarrow> same_dispatch a c"
  by (simp add: same_dispatch_def)

definition keeps_dispatch :: "('w \<Rightarrow> channel option) \<Rightarrow> (handler \<Rightarrow> 'w \<Rightarrow> 'w res) \<Rightarrow> bool" where
  "keeps_dispatch getc disp \<longleftrightarrow>
     (\<forall>h w w' c. disp h w = Inr w' \<and> getc w = Some c \<longrightarrow>
        (\<exists>c'. getc w' = Some c' \<and> same_dispatch c c'))"

definition opt_handler :: "bool \<Rightarrow> handler option \<Rightarrow> handler list" where
  "opt_handler on cb = (if on then (case cb of Some h \<Rightarrow> [h] | None \<Rightarrow> []) else [])"

lemma event_handlers_alt:
  "event_handlers c =
     opt_handler (wants_close (ch_revents c)) (closeCallback c) @
     opt_handler (wants_error (ch_revents c)) (errorCallback c) @
     opt_handler (wants_read (ch_revents c)) (readCallback c) @
     opt_handler (wants_write (ch_revents c)) (writeCallback c)"
  by (simp add: event_handlers_def opt_handler_def wants_bits Let_def)

lemma call_if_eq:
  "getc w = Some c \<Longrightarrow> call_if getc disp cond cb w = fold_r disp (opt_handler (cond (ch_revents c)) (cb c)) w"
  by (auto simp: call_if_def opt_handler_def split: option.splits sum.splits)
    (metis bind_r.elims fold_r.simps(1))+

text \<open>A call that returns leaves what the dispatch reads unchanged.\<close>

lemma call_if_next:
  assumes frame: "keeps_dispatch getc disp"
    and c: "getc w = Some c0" and step: "fold_r disp hs w = Inr w'"
  shows "\<exists>c'. getc w' = Some c' \<and> same_dispatch c0 c'"
  using c step
proof (induction hs arbitrary: w c0)
  case Nil
  then show ?case by simp
next
  case (Cons h hs)
  from Cons.prems(2) obtain w1 where w1: "disp h w = Inr w1" and rest: "fold_r disp hs w1 = Inr w'"
    by (auto simp: bind_r_Inr_iff)
  from frame w1 Cons.prems(1) obtain c1 where c1: "getc w1 = Some c1" "same_dispatch c0 c1"
    unfolding keeps_dispatch_def by blast
  from Cons.IH [OF c1(1) rest] c1(2) show ?case by (blast intro: same_dispatch_trans)
qed

lemma handleEventWithGuard_eq:
  assumes frame: "keeps_dispatch getc disp"
    and c: "getc w = Some c"
  shows "handleEventWithGuard getc disp w = fold_r disp (event_handlers c) w"
proof -
  have later: "call_if getc disp cond cb v =
      fold_r disp (opt_handler (cond (ch_revents c)) (cb c)) v"
    if cb: "\<And>c'. same_dispatch c c' \<Longrightarrow> cb c' = cb c" and v: "fold_r disp hs w = Inr v" for cond cb v hs
  proof -
    from call_if_next [OF frame c v] obtain c' where c': "getc v = Some c'" "same_dispatch c c'" by blast
    then show ?thesis using call_if_eq [of getc v c' disp cond cb] cb [OF c'(2)]
      by (simp add: same_dispatch_def)
  qed
  let ?C = "opt_handler (wants_close (ch_revents c)) (closeCallback c)"
  let ?E = "opt_handler (wants_error (ch_revents c)) (errorCallback c)"
  let ?R = "opt_handler (wants_read (ch_revents c)) (readCallback c)"
  let ?W = "opt_handler (wants_write (ch_revents c)) (writeCallback c)"
  have 3: "call_if getc disp wants_write writeCallback v = fold_r disp ?W v"
    if "fold_r disp (?C @ ?E @ ?R) w = Inr v" for v
    by (rule later [OF _ that]) (simp add: same_dispatch_def)
  have 2: "call_if getc disp wants_read readCallback v = fold_r disp ?R v"
    if "fold_r disp (?C @ ?E) w = Inr v" for v
    by (rule later [OF _ that]) (simp add: same_dispatch_def)
  have 1: "call_if getc disp wants_error errorCallback v = fold_r disp ?E v"
    if "fold_r disp ?C w = Inr v" for v
    by (rule later [OF _ that]) (simp add: same_dispatch_def)
  have "handleEventWithGuard getc disp w =
      bind_r (fold_r disp ?C w) (\<lambda>w1. bind_r (fold_r disp ?E w1) (\<lambda>w2.
      bind_r (fold_r disp ?R w2) (fold_r disp ?W)))"
    unfolding handleEventWithGuard_def
    by (intro bind_r_cong call_if_eq [of getc w c, OF c]; (rule 1 2 3)?) (simp_all add: fold_r_append)
  then show ?thesis by (simp add: event_handlers_alt fold_r_append_fun)
qed

section \<open>Properties\<close>

text \<open>
  Interest requests: enabling or disabling reading sets or clears read interest and leaves write
  interest alone, enabling writing sets write interest and leaves read interest alone, and
  \<^verbatim>\<open>disableAll\<close> leaves no event, whatever the events were.
\<close>

lemma interest_requests:
  "isReading (request EnableReading c) \<and> isWriting (request EnableReading c) = isWriting c \<and>
   \<not> isReading (request DisableReading c) \<and> isWriting (request DisableReading c) = isWriting c \<and>
   isWriting (request EnableWriting c) \<and> isReading (request EnableWriting c) = isReading c \<and>
   isNoneEvent (request DisableAll c) \<and> \<not> isReading (request DisableAll c) \<and>
   \<not> isWriting (request DisableAll c)"
proof -
  have "isNoneEvent (request DisableAll c)" by (simp add: isNoneEvent_def)
  then show ?thesis
    unfolding isReading_bits isWriting_bits request_fields request_bits by simp
qed

text \<open>
  \<^verbatim>\<open>disableWriting\<close> does not disable writing: write interest stays as it was, every other interest is
  dropped, so a channel that was reading and writing stops reading and keeps writing.
\<close>

lemma disableWriting_keeps_writing:
  "isWriting (request DisableWriting c) = isWriting c \<and> \<not> isReading (request DisableWriting c) \<and>
   (isNoneEvent (request DisableWriting c) \<longleftrightarrow> \<not> isWriting c)"
proof -
  have "isNoneEvent (request DisableWriting c) \<longleftrightarrow> \<not> isWriting c"
    by (simp add: isNoneEvent_def isWriting_def kNoneEvent_def)
  then show ?thesis
    unfolding isReading_bits isWriting_bits request_fields request_bits by simp
qed

text \<open>
  C23. Dispatch: when the callbacks leave the channel object in place, with its occurred events and its callbacks
  (\<open>keeps_dispatch\<close>), \<^verbatim>\<open>handleEvent\<close> of a tied channel whose object is gone
  does nothing, and in every other case it runs exactly the callbacks that are set among close for a hang-up without
  input, error for an error, read for input or priority input and write for output, in this order, the bits
  being those of epoll(7), stopping at the first that does not return.
\<close>

theorem handleEvent_dispatch:
  assumes "keeps_dispatch getc disp"
    and "getc w = Some c"
  shows "handleEvent getc alive disp w =
     (if ch_tied c \<and> \<not> (\<exists>obj. ch_tie c = Some obj \<and> alive obj w) then Inr w
      else fold_r disp (event_handlers c) w)"
  using handleEventWithGuard_eq [of getc disp w c] assms
  by (auto simp: handleEvent_def split: option.splits)

theorem handleEvent_dispatch_witness:
  "handleEvent (\<lambda>w. Some (fst w)) (\<lambda>obj w. True) (\<lambda>h w. Inr (fst w, snd w @ [h]))
     ((mk_Channel 0 5)\<lparr>ch_revents := 21, readCallback := Some (ConnHandleRead 1),
        writeCallback := Some (ConnHandleWrite 1), closeCallback := Some (ConnHandleClose 1)\<rparr>, []) =
   Inr ((mk_Channel 0 5)\<lparr>ch_revents := 21, readCallback := Some (ConnHandleRead 1),
        writeCallback := Some (ConnHandleWrite 1), closeCallback := Some (ConnHandleClose 1)\<rparr>,
        [ConnHandleRead 1, ConnHandleWrite 1])"
proof -
  have "keeps_dispatch (\<lambda>w. Some (fst w)) (\<lambda>h w. Inr (fst w, snd w @ [h]))"
    by (simp add: keeps_dispatch_def)
  note handleEvent_dispatch [OF this, of "((mk_Channel 0 5)\<lparr>ch_revents := 21,
        readCallback := Some (ConnHandleRead 1), writeCallback := Some (ConnHandleWrite 1),
        closeCallback := Some (ConnHandleClose 1)\<rparr>, [])" _ "\<lambda>obj w. True", OF refl]
  then show ?thesis
    by (simp add: mk_Channel_def event_handlers_def bit_simps Let_def)
qed

end
