(* ===== verification/SimKernel.thy ===== *)
theory SimKernel
  imports Kernel
begin

text \<open>
  A concrete kernel that satisfies the contracts of theory \<open>Kernel\<close>, for the concrete instances of
  the properties: one peer whose bytes wait in \<open>sim_in\<close>, a bounded number of bytes \<open>sim_room\<close> a
  write accepts, interest lists per epoll instance and the events that are ready.
\<close>

record sim =
  sim_in :: "byte list"
  sim_out :: "fd \<Rightarrow> stream_item list"
  sim_room :: nat
  sim_interest :: "fd \<Rightarrow> interest_list"
  sim_ready :: "epoll_event list"
  sim_counter :: nat
  sim_next :: nat
  sim_closed :: "fd list"

definition sim0 :: sim where
  "sim0 = \<lparr>sim_in = [], sim_out = (\<lambda>_. []), sim_room = 0, sim_interest = (\<lambda>_ _. None), sim_ready = [],
           sim_counter = 0, sim_next = 3, sim_closed = []\<rparr>"

definition sim_fresh :: "sim \<Rightarrow> (int \<times> errno) \<times> sim" where
  "sim_fresh k = ((int (sim_next k), 0), k\<lparr>sim_next := sim_next k + 1\<rparr>)"

definition sim_ctl :: "fd \<Rightarrow> ctl_op \<Rightarrow> fd \<Rightarrow> epoll_event \<Rightarrow> sim \<Rightarrow> (int \<times> errno) \<times> sim" where
  "sim_ctl ep op f ev k =
     (if ctl_applicable op f (sim_interest k ep)
      then ((0, 0), k\<lparr>sim_interest := (sim_interest k)(ep := ctl_apply op f ev (sim_interest k ep))\<rparr>)
      else ((- 1, ctl_errno op), k))"

definition sim_kernel :: "sim kernel" where
  "sim_kernel =
     \<lparr>sys_write = (\<lambda>f bs k. let n = min (sim_room k) (length bs) in
          ((int n, 0), k\<lparr>sim_out := (sim_out k)(f := sim_out k f @ map Byte (take n bs)), sim_room := sim_room k - n\<rparr>)),
      sys_read8 = (\<lambda>f k. ((8, 0), k\<lparr>sim_counter := 0\<rparr>)),
      sys_readv = (\<lambda>f lens k. let bs = take (sum_list lens) (sim_in k) in
          ((int (length bs), 0, bs), k\<lparr>sim_in := drop (sum_list lens) (sim_in k)\<rparr>)),
      sys_close = (\<lambda>f k. k\<lparr>sim_closed := sim_closed k @ [f]\<rparr>),
      sys_eventfd = sim_fresh,
      sys_epoll_create1 = (\<lambda>k. case sim_fresh k of ((r, e), k') \<Rightarrow>
          ((r, e), k'\<lparr>sim_interest := (sim_interest k')(r := (\<lambda>_. None))\<rparr>)),
      sys_epoll_ctl = sim_ctl,
      sys_epoll_wait = (\<lambda>ep m t k. let evs = take m (sim_ready k) in
          ((int (length evs), 0, evs), k\<lparr>sim_ready := drop m (sim_ready k)\<rparr>)),
      sys_socket = sim_fresh,
      sys_bind = (\<lambda>f a k. ((0, 0), k)),
      sys_listen = (\<lambda>f b k. ((0, 0), k)),
      sys_accept4 = (\<lambda>f k. case sim_fresh k of ((r, e), k') \<Rightarrow> ((r, e, zero_sockaddr), k')),
      sys_shutdown_wr = (\<lambda>f k. ((0, 0), k\<lparr>sim_out := (sim_out k)(f := sim_out k f @ [Fin])\<rparr>)),
      sys_setsockopt = (\<lambda>f opt v k. ((0, 0), k)),
      sys_getsockopt_error = (\<lambda>f k. ((0, 0, 0), k)),
      sys_getsockname = (\<lambda>f k. ((0, 0, zero_sockaddr), k)),
      sys_time = (\<lambda>k. 0), sigpipe_ignored = False\<rparr>"

lemma sim_readv_contract: "readv_contract sim_kernel"
  by (auto simp: readv_contract_def sim_kernel_def Let_def)

lemma sim_readv_all:
  "length (sim_in k) \<le> sum_list lens \<Longrightarrow>
     sys_readv sim_kernel f lens k = ((int (length (sim_in k)), 0, sim_in k), k\<lparr>sim_in := []\<rparr>)"
  by (simp add: sim_kernel_def Let_def)

lemma sim_write_contract: "write_contract sim_kernel"
  by (auto simp: write_contract_def sim_kernel_def Let_def)

lemma sim_epoll_wait_contract: "epoll_wait_contract sim_kernel"
  by (auto simp: epoll_wait_contract_def sim_kernel_def Let_def)

lemma sim_epoll_ctl_contract: "epoll_ctl_contract sim_kernel (\<lambda>ep k. sim_interest k ep)"
  by (auto simp: epoll_ctl_contract_def sim_kernel_def sim_ctl_def)

lemma sim_epoll_ctl_grants: "epoll_ctl_grants sim_kernel (\<lambda>ep k. sim_interest k ep)"
  by (auto simp: epoll_ctl_grants_def sim_kernel_def sim_ctl_def)

lemma sim_loop_grants: "loop_grants sim_kernel"
  by (simp add: loop_grants_def sim_kernel_def sim_fresh_def)

lemma sim_epoll_create: "epoll_create_contract sim_kernel (\<lambda>ep k. sim_interest k ep)"
  by (auto simp: epoll_create_contract_def sim_kernel_def sim_fresh_def)

lemma sim_no_broken_pipe: "fst (sys_write sim_kernel f bs k) = (n, e) \<Longrightarrow> \<not> broken_pipe K n e"
  by (auto simp: sim_kernel_def Let_def)

lemma sim_epoll_frame: "epoll_frame_contract sim_kernel (\<lambda>ep k. sim_interest k ep)"
  by (simp add: epoll_frame_contract_def sim_kernel_def Let_def)

lemma sim_stream: "stream_contract sim_kernel (\<lambda>f k. sim_out k f)"
  by (auto simp: stream_contract_def sim_kernel_def sim_ctl_def Let_def)

end
