(* ===== verification/EPollPoller.thy ===== *)
theory EPollPoller
  imports Channel SimKernel
begin

text \<open>
  \<^verbatim>\<open>src/Poller.{h,cc}\<close>, \<^verbatim>\<open>src/DefaultPoller.cc\<close> and \<^verbatim>\<open>src/EPollPoller.{h,cc}\<close>: the poller of one event
  loop. Its operations work on the channel objects (a store indexed by object identity), the poller
  and the system; \<^verbatim>\<open>kNew\<close>, \<^verbatim>\<open>kAdded\<close> and \<^verbatim>\<open>kDeleted\<close> are kept in the channel's \<^verbatim>\<open>index_\<close>. The file
  also states the poller interface as a locale and interprets it on these operations, and relates
  the channels to the kernel's interest list.
\<close>

section \<open>Data\<close>

definition kNew :: int where "kNew = - 1"
definition kAdded :: int where "kAdded = 1"
definition kDeleted :: int where "kDeleted = 2"

definition kInitEventListSize :: nat where "kInitEventListSize = 16"

record poller =
  ownerLoop :: loop_id
  po_channels :: "fd \<Rightarrow> chan_id option"

record epoll_poller = poller +
  epollfd :: fd
  po_events :: "epoll_event list"

definition zero_event :: epoll_event where
  "zero_event = \<lparr>ev_events = 0, ev_ptr = 0\<rparr>"

type_synonym channels = "chan_id \<Rightarrow> channel option"
type_synonym 'k pstate = "channels \<times> epoll_poller \<times> 'k sys"

section \<open>Operations\<close>

definition mk_Poller :: "loop_id \<Rightarrow> poller" where
  "mk_Poller l = \<lparr>ownerLoop = l, po_channels = (\<lambda>_. None)\<rparr>"

definition mk_EPollPoller :: "'k kernel \<Rightarrow> loop_id \<Rightarrow> 'k sys \<Rightarrow> (epoll_poller \<times> 'k sys) res" where
  "mk_EPollPoller K l \<sigma> =
     (case sys_epoll_create1 K (os \<sigma>) of ((r, e), k') \<Rightarrow>
        if r < 0 then Inl Exit_Fatal
        else Inr (poller.extend (mk_Poller l) \<lparr>epollfd = r, po_events = replicate kInitEventListSize zero_event\<rparr>,
                  \<sigma>\<lparr>os := k'\<rparr>))"

lemma extend_mk_Poller [simp]:
  "poller.extend (mk_Poller l) \<lparr>epollfd = f, po_events = evs\<rparr> =
     \<lparr>ownerLoop = l, po_channels = (\<lambda>_. None), epollfd = f, po_events = evs\<rparr>"
  by (simp add: mk_Poller_def poller.defs)

definition destroy_EPollPoller :: "'k kernel \<Rightarrow> epoll_poller \<Rightarrow> 'k sys \<Rightarrow> 'k sys" where
  "destroy_EPollPoller K p \<sigma> = \<sigma>\<lparr>os := sys_close K (epollfd p) (os \<sigma>)\<rparr>"

text \<open>\<open>use_poll\<close>: the environment variable \<^verbatim>\<open>MUDUO_USE_POLL\<close> is set; the result is then a null pointer.\<close>

definition newDefaultPoller ::
    "'k kernel \<Rightarrow> bool \<Rightarrow> loop_id \<Rightarrow> 'k sys \<Rightarrow> (epoll_poller option \<times> 'k sys) res" where
  "newDefaultPoller K use_poll l \<sigma> =
     (if use_poll then Inr (None, \<sigma>)
      else bind_r (mk_EPollPoller K l \<sigma>) (\<lambda>(p, \<sigma>'). Inr (Some p, \<sigma>')))"

definition ep_update ::
    "'k kernel \<Rightarrow> ctl_op \<Rightarrow> chan_id \<Rightarrow> channel \<Rightarrow> epoll_poller \<Rightarrow> 'k sys \<Rightarrow> 'k sys res" where
  "ep_update K operation cid c p \<sigma> =
     (let event = \<lparr>ev_events = ch_events c, ev_ptr = cid\<rparr>
      in case sys_epoll_ctl K (epollfd p) operation (ch_fd c) event (os \<sigma>) of ((r, e), k') \<Rightarrow>
           let \<sigma>' = \<sigma>\<lparr>os := k'\<rparr>
           in if r < 0
              then (if operation = EPOLL_CTL_DEL
                    then (if e = ENOENT
                          then Inr (log_error ''epoll_ctl del fd=%d: already removed or not added'' \<sigma>')
                          else Inr (log_error ''epoll_ctl del fd=%d error:%d (%s)'' \<sigma>'))
                    else Inl Exit_Fatal)
              else Inr \<sigma>')"

fun EPollPoller_updateChannel :: "'k kernel \<Rightarrow> chan_id \<Rightarrow> 'k pstate \<Rightarrow> 'k pstate res" where
  "EPollPoller_updateChannel K cid (cs, p, \<sigma>) =
     (case cs cid of
        None \<Rightarrow> Inl Null_Deref
      | Some c \<Rightarrow>
          if ch_index c = kNew \<or> ch_index c = kDeleted
          then
            (let p1 = (if ch_index c = kNew
                       then p\<lparr>po_channels := (po_channels p)(ch_fd c \<mapsto> cid)\<rparr> else p);
                 c1 = set_index kAdded c
             in bind_r (ep_update K EPOLL_CTL_ADD cid c1 p1 \<sigma>) (\<lambda>\<sigma>'. Inr (cs(cid \<mapsto> c1), p1, \<sigma>')))
          else if isNoneEvent c
          then bind_r (ep_update K EPOLL_CTL_DEL cid c p \<sigma>) (\<lambda>\<sigma>'. Inr (cs, p, \<sigma>'))
          else bind_r (ep_update K EPOLL_CTL_MOD cid c p \<sigma>) (\<lambda>\<sigma>'. Inr (cs, p, \<sigma>')))"

fun EPollPoller_removeChannel :: "'k kernel \<Rightarrow> chan_id \<Rightarrow> 'k pstate \<Rightarrow> 'k pstate res" where
  "EPollPoller_removeChannel K cid (cs, p, \<sigma>) =
     (case cs cid of
        None \<Rightarrow> Inl Null_Deref
      | Some c \<Rightarrow>
          if ch_index c = kAdded
          then bind_r (ep_update K EPOLL_CTL_DEL cid c p \<sigma>) (\<lambda>\<sigma>'.
                 Inr (cs(cid \<mapsto> set_index kNew c),
                      p\<lparr>po_channels := (po_channels p)(ch_fd c := None)\<rparr>, \<sigma>'))
          else Inr (cs(cid \<mapsto> set_index kNew c), p, \<sigma>))"

fun Poller_hasChannel :: "chan_id \<Rightarrow> 'k pstate \<Rightarrow> bool" where
  "Poller_hasChannel cid (cs, p, \<sigma>) =
     (case cs cid of None \<Rightarrow> False | Some c \<Rightarrow> po_channels p (ch_fd c) = Some cid)"

text \<open>The loop over \<^verbatim>\<open>events_[0..numEvents)\<close>.\<close>

fun fillActiveChannels ::
    "epoll_event list \<Rightarrow> channels \<Rightarrow> chan_id list \<Rightarrow> (channels \<times> chan_id list) res" where
  "fillActiveChannels [] cs active = Inr (cs, active)"
| "fillActiveChannels (ev # evs) cs active =
     (case cs (ev_ptr ev) of
        None \<Rightarrow> Inl Null_Deref
      | Some c \<Rightarrow> fillActiveChannels evs (cs(ev_ptr ev \<mapsto> set_revents (ev_events ev) c))
                    (active @ [ev_ptr ev]))"

fun EPollPoller_poll :: "'k kernel \<Rightarrow> int \<Rightarrow> chan_id list \<Rightarrow> 'k pstate \<Rightarrow>
    (Timestamp \<times> chan_id list \<times> 'k pstate) res" where
  "EPollPoller_poll K timeoutMs active (cs, p, \<sigma>) =
     (case sys_epoll_wait K (epollfd p) (length (po_events p)) timeoutMs (os \<sigma>) of
        ((numEvents, saveErrno, evs), k') \<Rightarrow>
          let now = Timestamp_now (sys_time K k');
              \<sigma>' = \<sigma>\<lparr>os := k'\<rparr>;
              p1 = p\<lparr>po_events := overwrite (po_events p) 0 evs\<rparr>
          in if numEvents > 0
             then bind_r (fillActiveChannels (take (nat numEvents) (po_events p1)) cs active)
                    (\<lambda>(cs', active').
                       let p2 = (if nat numEvents = length (po_events p1)
                                 then p1\<lparr>po_events := po_events p1 @
                                          replicate (length (po_events p1)) zero_event\<rparr>
                                 else p1)
                       in Inr (now, active', (cs', p2, \<sigma>')))
             else if numEvents = 0 then Inr (now, active, (cs, p, \<sigma>'))
             else if saveErrno \<noteq> EINTR then Inl Exit_Fatal
             else Inr (now, active, (cs, p, \<sigma>')))"

section \<open>The index and the channel map\<close>

text \<open>
  \<open>poller_wf\<close>: the channels of this poller's loop have different descriptors, their index is
  \<^verbatim>\<open>kNew\<close> or \<^verbatim>\<open>kAdded\<close> (never \<^verbatim>\<open>kDeleted\<close>), and \<^verbatim>\<open>channels_\<close> holds exactly the added ones.
\<close>

definition owned :: "channels \<Rightarrow> loop_id \<Rightarrow> chan_id \<Rightarrow> channel \<Rightarrow> bool" where
  "owned cs l i c \<longleftrightarrow> cs i = Some c \<and> ch_loop c = l"

definition fds_distinct :: "channels \<Rightarrow> loop_id \<Rightarrow> bool" where
  "fds_distinct cs l \<longleftrightarrow> (\<forall>i c j d. owned cs l i c \<and> owned cs l j d \<and> ch_fd c = ch_fd d \<longrightarrow> i = j)"

definition index_wf :: "channels \<Rightarrow> epoll_poller \<Rightarrow> bool" where
  "index_wf cs p \<longleftrightarrow> (\<forall>i c. owned cs (ownerLoop p) i c \<longrightarrow>
     (ch_index c = kNew \<and> po_channels p (ch_fd c) = None) \<or>
     (ch_index c = kAdded \<and> po_channels p (ch_fd c) = Some i))"

definition map_wf :: "channels \<Rightarrow> epoll_poller \<Rightarrow> bool" where
  "map_wf cs p \<longleftrightarrow> (\<forall>f i. po_channels p f = Some i \<longrightarrow> (\<exists>c. owned cs (ownerLoop p) i c \<and> ch_fd c = f))"

fun poller_wf :: "'k pstate \<Rightarrow> bool" where
  "poller_wf (cs, p, \<sigma>) \<longleftrightarrow> fds_distinct cs (ownerLoop p) \<and> index_wf cs p \<and> map_wf cs p"

fun poller_owns :: "chan_id \<Rightarrow> 'k pstate \<Rightarrow> bool" where
  "poller_owns i (cs, p, \<sigma>) \<longleftrightarrow> (\<exists>c. owned cs (ownerLoop p) i c)"

lemma index_consts [simp]: "kNew \<noteq> kAdded" "kAdded \<noteq> kNew" "kNew \<noteq> kDeleted" "kAdded \<noteq> kDeleted"
  "kDeleted \<noteq> kNew" "kDeleted \<noteq> kAdded"
  by (simp_all add: kNew_def kAdded_def kDeleted_def)

lemma owned_upd:
  "owned (cs(i \<mapsto> c)) l j d \<longleftrightarrow> (if j = i then d = c \<and> ch_loop c = l else owned cs l j d)"
  by (auto simp: owned_def)

text \<open>Changing the index of one channel keeps the descriptors distinct.\<close>

lemma fds_distinct_index:
  assumes "fds_distinct cs l" and "owned cs l i c"
  shows "fds_distinct (cs(i \<mapsto> set_index n c)) l"
proof -
  have "owned cs l j (if j = i then c else d)" if "owned (cs(i \<mapsto> set_index n c)) l j d" for j d
    using that assms(2) by (auto simp: owned_upd)
  moreover have "ch_fd (if j = i then c else d) = ch_fd d"
    if "owned (cs(i \<mapsto> set_index n c)) l j d" for j d
    using that by (auto simp: owned_upd)
  ultimately show ?thesis
    using assms(1) unfolding fds_distinct_def by metis
qed

lemma add_wf:
  assumes wf: "fds_distinct cs (ownerLoop p)" "index_wf cs p" "map_wf cs p"
    and c: "owned cs (ownerLoop p) i c" "po_channels p (ch_fd c) = None"
  shows "poller_wf (cs(i \<mapsto> set_index kAdded c), p\<lparr>po_channels := (po_channels p)(ch_fd c \<mapsto> i)\<rparr>, \<sigma>)"
proof -
  let ?cs = "cs(i \<mapsto> set_index kAdded c)" and ?p = "p\<lparr>po_channels := (po_channels p)(ch_fd c \<mapsto> i)\<rparr>"
  have loop: "ch_loop c = ownerLoop p" using c(1) by (simp add: owned_def)
  have other: "ch_fd d \<noteq> ch_fd c" if "owned cs (ownerLoop p) j d" "j \<noteq> i" for j d
    using wf(1) c(1) that unfolding fds_distinct_def by blast
  have "index_wf ?cs ?p"
    using wf(2) other by (auto simp: index_wf_def owned_upd loop)
  moreover have "map_wf ?cs ?p"
  proof -
    have "\<exists>d. owned ?cs (ownerLoop p) j d \<and> ch_fd d = f" if "((po_channels p)(ch_fd c \<mapsto> i)) f = Some j" for f j
    proof (cases "f = ch_fd c")
      case True
      with that loop show ?thesis by (auto simp: owned_upd)
    next
      case False
      with that wf(3) obtain d where d: "owned cs (ownerLoop p) j d" "ch_fd d = f"
        unfolding map_wf_def by auto
      with False c(1) have "j \<noteq> i" by (auto simp: owned_def)
      with d show ?thesis by (auto simp: owned_upd)
    qed
    then show ?thesis unfolding map_wf_def by simp
  qed
  ultimately show ?thesis using fds_distinct_index [OF wf(1) c(1)] by simp
qed

lemma del_wf:
  assumes wf: "fds_distinct cs (ownerLoop p)" "index_wf cs p" "map_wf cs p"
    and c: "owned cs (ownerLoop p) i c" "po_channels p (ch_fd c) = Some i"
  shows "poller_wf (cs(i \<mapsto> set_index kNew c), p\<lparr>po_channels := (po_channels p)(ch_fd c := None)\<rparr>, \<sigma>)"
proof -
  let ?cs = "cs(i \<mapsto> set_index kNew c)" and ?p = "p\<lparr>po_channels := (po_channels p)(ch_fd c := None)\<rparr>"
  have loop: "ch_loop c = ownerLoop p" using c(1) by (simp add: owned_def)
  have other: "ch_fd d \<noteq> ch_fd c" if "owned cs (ownerLoop p) j d" "j \<noteq> i" for j d
    using wf(1) c(1) that unfolding fds_distinct_def by blast
  have "index_wf ?cs ?p"
    using wf(2) other by (auto simp: index_wf_def owned_upd loop)
  moreover have "map_wf ?cs ?p"
  proof -
    have "\<exists>d. owned ?cs (ownerLoop p) j d \<and> ch_fd d = f"
      if "((po_channels p)(ch_fd c := None)) f = Some j" for f j
    proof -
      from that have f: "f \<noteq> ch_fd c" "po_channels p f = Some j" by (auto split: if_splits)
      with wf(3) obtain d where d: "owned cs (ownerLoop p) j d" "ch_fd d = f"
        unfolding map_wf_def by auto
      with f c(1) have "j \<noteq> i" by (auto simp: owned_def)
      with d show ?thesis by (auto simp: owned_upd)
    qed
    then show ?thesis unfolding map_wf_def by simp
  qed
  ultimately show ?thesis using fds_distinct_index [OF wf(1) c(1)] by simp
qed

text \<open>The two shapes of a successful update and of a remove of an owned channel.\<close>

lemma update_cases:
  assumes wf: "poller_wf (cs, p, \<sigma>)" and c: "owned cs (ownerLoop p) i c"
    and up: "EPollPoller_updateChannel K i (cs, p, \<sigma>) = Inr s'"
  obtains \<sigma>' where "ch_index c = kNew" "po_channels p (ch_fd c) = None"
      "ep_update K EPOLL_CTL_ADD i (set_index kAdded c) (p\<lparr>po_channels := (po_channels p)(ch_fd c \<mapsto> i)\<rparr>) \<sigma> = Inr \<sigma>'"
      "s' = (cs(i \<mapsto> set_index kAdded c), p\<lparr>po_channels := (po_channels p)(ch_fd c \<mapsto> i)\<rparr>, \<sigma>')"
  | \<sigma>' where "ch_index c = kAdded" "po_channels p (ch_fd c) = Some i"
      "ep_update K (if isNoneEvent c then EPOLL_CTL_DEL else EPOLL_CTL_MOD) i c p \<sigma> = Inr \<sigma>'"
      "s' = (cs, p, \<sigma>')"
proof -
  from c have ci: "cs i = Some c" by (simp add: owned_def)
  from wf c have "(ch_index c = kNew \<and> po_channels p (ch_fd c) = None) \<or>
     (ch_index c = kAdded \<and> po_channels p (ch_fd c) = Some i)"
    by (simp add: index_wf_def)
  then show thesis
  proof
    assume n: "ch_index c = kNew \<and> po_channels p (ch_fd c) = None"
    with up ci that(1) show thesis by (auto simp: Let_def bind_r_Inr_iff)
  next
    assume a: "ch_index c = kAdded \<and> po_channels p (ch_fd c) = Some i"
    with up ci that(2) show thesis by (auto simp: bind_r_Inr_iff split: if_splits)
  qed
qed

lemma remove_cases:
  assumes wf: "poller_wf (cs, p, \<sigma>)" and c: "owned cs (ownerLoop p) i c"
    and rm: "EPollPoller_removeChannel K i (cs, p, \<sigma>) = Inr s'"
  obtains \<sigma>' where "ch_index c = kAdded" "po_channels p (ch_fd c) = Some i"
      "ep_update K EPOLL_CTL_DEL i c p \<sigma> = Inr \<sigma>'"
      "s' = (cs(i \<mapsto> set_index kNew c), p\<lparr>po_channels := (po_channels p)(ch_fd c := None)\<rparr>, \<sigma>')"
  | "ch_index c = kNew" "po_channels p (ch_fd c) = None" "s' = (cs, p, \<sigma>)"
proof -
  from c have ci: "cs i = Some c" by (simp add: owned_def)
  from wf c have "(ch_index c = kNew \<and> po_channels p (ch_fd c) = None) \<or>
     (ch_index c = kAdded \<and> po_channels p (ch_fd c) = Some i)"
    by (simp add: index_wf_def)
  then show thesis
  proof
    assume n: "ch_index c = kNew \<and> po_channels p (ch_fd c) = None"
    then have "set_index kNew c = c" by (simp add: set_index_def)
    with n rm ci that(2) show thesis by (auto simp: fun_upd_idem)
  next
    assume a: "ch_index c = kAdded \<and> po_channels p (ch_fd c) = Some i"
    with rm ci that(1) show thesis by (auto simp: bind_r_Inr_iff)
  qed
qed

lemma update_wf:
  assumes wf: "poller_wf s" and own: "poller_owns i s" and up: "EPollPoller_updateChannel K i s = Inr s'"
  shows "poller_wf s'"
proof -
  obtain cs p \<sigma> where s: "s = (cs, p, \<sigma>)" by (cases s)
  from own s obtain c where c: "owned cs (ownerLoop p) i c" by auto
  from update_cases [OF wf [unfolded s] c up [unfolded s]] show ?thesis
  proof cases
    case (1 \<sigma>')
    with wf s c show ?thesis using add_wf by simp
  next
    case (2 \<sigma>')
    with wf s show ?thesis by simp
  qed
qed

lemma remove_wf:
  assumes wf: "poller_wf s" and own: "poller_owns i s" and rm: "EPollPoller_removeChannel K i s = Inr s'"
  shows "poller_wf s'"
proof -
  obtain cs p \<sigma> where s: "s = (cs, p, \<sigma>)" by (cases s)
  from own s obtain c where c: "owned cs (ownerLoop p) i c" by auto
  from remove_cases [OF wf [unfolded s] c rm [unfolded s]] show ?thesis
  proof cases
    case (1 \<sigma>')
    with wf s c show ?thesis using del_wf by simp
  next
    case 2
    with wf s show ?thesis by simp
  qed
qed

section \<open>The poller interface\<close>

text \<open>
  What \<^verbatim>\<open>EventLoop\<close> and \<^verbatim>\<open>Channel\<close> rely on of a \<^verbatim>\<open>Poller\<close>: an updated channel is registered, a removed
  one is not, and the registration of every other channel is untouched. A client's run is a list of
  updates and removes; \<open>registered_after\<close> says what the last of them makes of a channel.
\<close>

datatype chan_op = Update chan_id | Remove chan_id

fun op_target :: "chan_op \<Rightarrow> chan_id" where
  "op_target (Update i) = i"
| "op_target (Remove i) = i"

fun registered_after :: "chan_op list \<Rightarrow> chan_id \<Rightarrow> bool \<Rightarrow> bool" where
  "registered_after [] j b = b"
| "registered_after (Update i # ops) j b = registered_after ops j (if i = j then True else b)"
| "registered_after (Remove i # ops) j b = registered_after ops j (if i = j then False else b)"

fun chan_step :: "(chan_id \<Rightarrow> 's \<Rightarrow> 's res) \<Rightarrow> (chan_id \<Rightarrow> 's \<Rightarrow> 's res) \<Rightarrow> chan_op \<Rightarrow> 's \<Rightarrow> 's res" where
  "chan_step upd rem (Update i) s = upd i s"
| "chan_step upd rem (Remove i) s = rem i s"

locale poller_interface =
  fixes upd :: "chan_id \<Rightarrow> 's \<Rightarrow> 's res"
    and rem :: "chan_id \<Rightarrow> 's \<Rightarrow> 's res"
    and has :: "chan_id \<Rightarrow> 's \<Rightarrow> bool"
    and owns :: "chan_id \<Rightarrow> 's \<Rightarrow> bool"
    and inv :: "'s \<Rightarrow> bool"
  assumes upd_inv: "inv s \<Longrightarrow> owns i s \<Longrightarrow> upd i s = Inr s' \<Longrightarrow> inv s'"
    and rem_inv: "inv s \<Longrightarrow> owns i s \<Longrightarrow> rem i s = Inr s' \<Longrightarrow> inv s'"
    and upd_owns: "inv s \<Longrightarrow> owns i s \<Longrightarrow> upd i s = Inr s' \<Longrightarrow> owns j s' = owns j s"
    and rem_owns: "inv s \<Longrightarrow> owns i s \<Longrightarrow> rem i s = Inr s' \<Longrightarrow> owns j s' = owns j s"
    and upd_has: "inv s \<Longrightarrow> owns i s \<Longrightarrow> owns j s \<Longrightarrow> upd i s = Inr s' \<Longrightarrow>
        has j s' = (if i = j then True else has j s)"
    and rem_has: "inv s \<Longrightarrow> owns i s \<Longrightarrow> owns j s \<Longrightarrow> rem i s = Inr s' \<Longrightarrow>
        has j s' = (if i = j then False else has j s)"
begin

lemma run_registered:
  assumes "inv s" and "owns j s" and "\<forall>op \<in> set ops. owns (op_target op) s"
    and "fold_r (chan_step upd rem) ops s = Inr s'"
  shows "inv s' \<and> has j s' = registered_after ops j (has j s)"
  using assms
proof (induction ops arbitrary: s)
  case Nil
  then show ?case by simp
next
  case (Cons op ops)
  from Cons.prems(4) obtain t where t: "chan_step upd rem op s = Inr t"
    and rest: "fold_r (chan_step upd rem) ops t = Inr s'"
    by (auto simp: bind_r_Inr_iff)
  have own: "owns (op_target op) s" using Cons.prems(3) by simp
  have "inv t \<and> owns j t \<and> (\<forall>op \<in> set ops. owns (op_target op) t) \<and>
      registered_after ops j (has j t) = registered_after (op # ops) j (has j s)"
  proof (cases op)
    case (Update i)
    with t own have u: "upd i s = Inr t" "owns i s" by simp_all
    note u' = upd_inv [OF Cons.prems(1) u(2,1)] upd_owns [OF Cons.prems(1) u(2,1)]
      upd_has [OF Cons.prems(1) u(2) Cons.prems(2) u(1)]
    show ?thesis using u' Cons.prems(2,3) Update by simp
  next
    case (Remove i)
    with t own have u: "rem i s = Inr t" "owns i s" by simp_all
    note u' = rem_inv [OF Cons.prems(1) u(2,1)] rem_owns [OF Cons.prems(1) u(2,1)]
      rem_has [OF Cons.prems(1) u(2) Cons.prems(2) u(1)]
    show ?thesis using u' Cons.prems(2,3) Remove by simp
  qed
  then show ?case using Cons.IH [of t] rest by simp
qed

end

lemma ex_owned_index:
  "owned cs l i c \<Longrightarrow> (\<exists>d. owned (cs(i \<mapsto> set_index n c)) l j d) \<longleftrightarrow> (\<exists>d. owned cs l j d)"
  by (cases "j = i") (auto simp: owned_def)

lemma update_owns:
  assumes "poller_wf s" and "poller_owns i s" and "EPollPoller_updateChannel K i s = Inr s'"
  shows "poller_owns j s' = poller_owns j s"
proof -
  obtain cs p \<sigma> where s: "s = (cs, p, \<sigma>)" by (cases s)
  from assms(2) s obtain c where c: "owned cs (ownerLoop p) i c" by auto
  from update_cases [OF assms(1) [unfolded s] c assms(3) [unfolded s]] c s show ?thesis
    by cases (simp_all add: ex_owned_index)
qed

lemma remove_owns:
  assumes "poller_wf s" and "poller_owns i s" and "EPollPoller_removeChannel K i s = Inr s'"
  shows "poller_owns j s' = poller_owns j s"
proof -
  obtain cs p \<sigma> where s: "s = (cs, p, \<sigma>)" by (cases s)
  from assms(2) s obtain c where c: "owned cs (ownerLoop p) i c" by auto
  from remove_cases [OF assms(1) [unfolded s] c assms(3) [unfolded s]] c s show ?thesis
    by cases (simp_all add: ex_owned_index)
qed

lemma update_has:
  assumes "poller_wf s" and "poller_owns i s" and "poller_owns j s"
    and "EPollPoller_updateChannel K i s = Inr s'"
  shows "Poller_hasChannel j s' = (if i = j then True else Poller_hasChannel j s)"
proof -
  obtain cs p \<sigma> where s: "s = (cs, p, \<sigma>)" by (cases s)
  from assms(2,3) s obtain c d where c: "owned cs (ownerLoop p) i c" and d: "owned cs (ownerLoop p) j d" by auto
  have other: "i \<noteq> j \<Longrightarrow> ch_fd d \<noteq> ch_fd c"
    using assms(1) s c d by (auto simp: fds_distinct_def)
  from update_cases [OF assms(1) [unfolded s] c assms(4) [unfolded s]] c d s other show ?thesis
    by cases (auto simp: owned_def)
qed

lemma remove_has:
  assumes "poller_wf s" and "poller_owns i s" and "poller_owns j s"
    and "EPollPoller_removeChannel K i s = Inr s'"
  shows "Poller_hasChannel j s' = (if i = j then False else Poller_hasChannel j s)"
proof -
  obtain cs p \<sigma> where s: "s = (cs, p, \<sigma>)" by (cases s)
  from assms(2,3) s obtain c d where c: "owned cs (ownerLoop p) i c" and d: "owned cs (ownerLoop p) j d" by auto
  have other: "i \<noteq> j \<Longrightarrow> ch_fd d \<noteq> ch_fd c"
    using assms(1) s c d by (auto simp: fds_distinct_def)
  from remove_cases [OF assms(1) [unfolded s] c assms(4) [unfolded s]] c d s other show ?thesis
    by cases (auto simp: owned_def)
qed

interpretation ep: poller_interface "EPollPoller_updateChannel K" "EPollPoller_removeChannel K"
    Poller_hasChannel poller_owns poller_wf for K
  by unfold_locales (fact update_wf remove_wf update_owns remove_owns update_has remove_has)+

section \<open>Agreement with the kernel's interest list\<close>

text \<open>
  The kernel watches an added channel for exactly the events the channel wants; a channel whose
  events were all disabled is either watched for none or no longer in the interest list, while its
  index still says \<^verbatim>\<open>kAdded\<close>.
\<close>

definition chan_synced :: "interest_list \<Rightarrow> chan_id \<Rightarrow> channel \<Rightarrow> bool" where
  "chan_synced il i c \<longleftrightarrow>
     (if ch_index c = kNew then il (ch_fd c) = None
      else il (ch_fd c) = Some \<lparr>ev_events = ch_events c, ev_ptr = i\<rparr> \<or>
           (il (ch_fd c) = None \<and> isNoneEvent c))"

fun interest_wf :: "(fd \<Rightarrow> 'k \<Rightarrow> interest_list) \<Rightarrow> 'k pstate \<Rightarrow> bool" where
  "interest_wf interest (cs, p, \<sigma>) \<longleftrightarrow>
     (\<forall>i c. owned cs (ownerLoop p) i c \<longrightarrow> chan_synced (interest (epollfd p) (os \<sigma>)) i c)"

text \<open>A request for interest followed by the \<^verbatim>\<open>update()\<close> of the channel, on the state of the poller.\<close>

fun poller_request :: "'k kernel \<Rightarrow> interest_req \<Rightarrow> chan_id \<Rightarrow> 'k pstate \<Rightarrow> 'k pstate res" where
  "poller_request K r i (cs, p, \<sigma>) =
     (case cs i of
        None \<Rightarrow> Inl Null_Deref
      | Some c \<Rightarrow> EPollPoller_updateChannel K i (cs(i \<mapsto> request r c), p, \<sigma>))"

lemma owned_request:
  "owned cs l i c \<Longrightarrow> owned (cs(i \<mapsto> request r c)) l i (request r c)"
  by (simp add: owned_def)

lemma poller_wf_request:
  assumes "poller_wf (cs, p, \<sigma>)" and "owned cs (ownerLoop p) i c"
  shows "poller_wf (cs(i \<mapsto> request r c), p, \<sigma>)"
proof -
  let ?cs = "cs(i \<mapsto> request r c)"
  have old: "\<exists>d0. owned cs l j d0 \<and> ch_fd d0 = ch_fd d \<and> ch_index d0 = ch_index d"
    if "owned ?cs l j d" for l j d
    using that assms(2) by (cases "j = i") (auto simp: owned_upd owned_def)
  have new: "\<exists>d. owned ?cs (ownerLoop p) j d \<and> ch_fd d = ch_fd d0" if "owned cs (ownerLoop p) j d0" for j d0
    using that assms(2) by (cases "j = i") (auto simp: owned_upd owned_def)
  have "fds_distinct ?cs (ownerLoop p)"
    using assms(1) old unfolding fds_distinct_def by (metis fds_distinct_def poller_wf.simps)
  moreover have "index_wf ?cs p"
    using assms(1) old unfolding index_wf_def by (metis index_wf_def poller_wf.simps)
  moreover have "map_wf ?cs p"
    using assms(1) new unfolding map_wf_def by (metis map_wf_def poller_wf.simps)
  ultimately show ?thesis by simp
qed

lemma ep_update_os:
  assumes K: "epoll_ctl_contract K interest"
    and up: "ep_update K op i c p \<sigma> = Inr \<sigma>'"
  shows "interest (epollfd p) (os \<sigma>') =
     (if ctl_applicable op (ch_fd c) (interest (epollfd p) (os \<sigma>))
      then ctl_apply op (ch_fd c) \<lparr>ev_events = ch_events c, ev_ptr = i\<rparr> (interest (epollfd p) (os \<sigma>))
      else interest (epollfd p) (os \<sigma>))"
proof -
  let ?ev = "\<lparr>ev_events = ch_events c, ev_ptr = i\<rparr>"
  obtain r e k' where call: "sys_epoll_ctl K (epollfd p) op (ch_fd c) ?ev (os \<sigma>) = ((r, e), k')"
    by (metis prod.exhaust)
  have os: "os \<sigma>' = k'" and nonneg: "op \<noteq> EPOLL_CTL_DEL \<Longrightarrow> 0 \<le> r"
    using up call by (auto simp: ep_update_def Let_def split: if_splits)
  have spec: "if ctl_applicable op (ch_fd c) (interest (epollfd p) (os \<sigma>))
         then (r = 0 \<and> interest (epollfd p) k' = ctl_apply op (ch_fd c) ?ev (interest (epollfd p) (os \<sigma>))) \<or>
              (op \<noteq> EPOLL_CTL_DEL \<and> r = - 1 \<and> interest (epollfd p) k' = interest (epollfd p) (os \<sigma>))
         else r = - 1 \<and> e = ctl_errno op \<and> interest (epollfd p) k' = interest (epollfd p) (os \<sigma>)"
    using K call unfolding epoll_ctl_contract_def by blast
  then show ?thesis using os nonneg by (auto split: if_splits)
qed

lemma ep_update_inapplicable:
  assumes K: "epoll_ctl_contract K interest" and na: "\<not> ctl_applicable op (ch_fd c) (interest (epollfd p) (os \<sigma>))"
    and op: "op \<noteq> EPOLL_CTL_DEL"
  shows "ep_update K op i c p \<sigma> = Inl Exit_Fatal"
proof -
  let ?ev = "\<lparr>ev_events = ch_events c, ev_ptr = i\<rparr>"
  obtain r e k' where call: "sys_epoll_ctl K (epollfd p) op (ch_fd c) ?ev (os \<sigma>) = ((r, e), k')"
    by (metis prod.exhaust)
  from epoll_ctl_contract_fail [OF K call na] have "r = - 1" by simp
  then show ?thesis using call op by (simp add: ep_update_def)
qed

text \<open>A failing \<^verbatim>\<open>EPOLL_CTL_DEL\<close> is only logged.\<close>

lemma ep_update_del: "\<exists>\<sigma>'. ep_update K EPOLL_CTL_DEL i c p \<sigma> = Inr \<sigma>'"
proof -
  obtain r e k' where "sys_epoll_ctl K (epollfd p) EPOLL_CTL_DEL (ch_fd c)
      \<lparr>ev_events = ch_events c, ev_ptr = i\<rparr> (os \<sigma>) = ((r, e), k')"
    by (metis prod.exhaust)
  then show ?thesis by (simp add: ep_update_def Let_def)
qed

text \<open>The interest list after an update of one descriptor leaves the other channels in agreement.\<close>

lemma synced_other:
  assumes "chan_synced il j d" and "ch_fd d \<noteq> ch_fd c"
    and "il' = il \<or> il' = ctl_apply op (ch_fd c) ev il"
  shows "chan_synced il' j d"
  using assms by (auto simp: chan_synced_def ctl_apply_def split: ctl_op.splits)

lemma other_fd:
  assumes "poller_wf (cs, p, \<sigma>)" and "owned cs (ownerLoop p) i c" and "owned cs (ownerLoop p) j d" and "j \<noteq> i"
  shows "ch_fd d \<noteq> ch_fd c"
  using assms by (auto simp: fds_distinct_def)

text \<open>
  Agreement is kept when the interest list changes at one channel's descriptor only, to a value that
  agrees with that channel.
\<close>

lemma interest_wf_step:
  assumes wf: "poller_wf (cs, p, \<sigma>)" and iw: "interest_wf interest (cs, p, \<sigma>)"
    and c: "owned cs (ownerLoop p) i c"
    and fields: "ch_fd c' = ch_fd c" "ch_loop c' = ch_loop c"
    and q: "ownerLoop q = ownerLoop p" "epollfd q = epollfd p"
    and il: "il' = interest (epollfd p) (os \<sigma>')"
      "il' = interest (epollfd p) (os \<sigma>) \<or> il' = ctl_apply op (ch_fd c) ev (interest (epollfd p) (os \<sigma>))"
    and sync: "chan_synced il' i c'"
  shows "interest_wf interest (cs(i \<mapsto> c'), q, \<sigma>')"
proof -
  have "chan_synced il' j d" if d: "owned (cs(i \<mapsto> c')) (ownerLoop p) j d" for j d
  proof (cases "j = i")
    case True
    with d sync show ?thesis by (simp add: owned_upd)
  next
    case False
    with d have od: "owned cs (ownerLoop p) j d" by (simp add: owned_upd)
    with iw have "chan_synced (interest (epollfd p) (os \<sigma>)) j d" by simp
    then show ?thesis using other_fd [OF wf c od False] il(2) by (rule synced_other)
  qed
  then show ?thesis using il(1) q by simp
qed

lemma request_interest_wf:
  assumes K: "epoll_ctl_contract K interest" and wf: "poller_wf (cs, p, \<sigma>)"
    and iw: "interest_wf interest (cs, p, \<sigma>)" and c: "owned cs (ownerLoop p) i c"
    and req: "poller_request K r i (cs, p, \<sigma>) = Inr s'"
  shows "poller_wf s' \<and> interest_wf interest s'"
proof -
  let ?c = "request r c" and ?il = "interest (epollfd p) (os \<sigma>)"
  let ?cs = "cs(i \<mapsto> ?c)"
  have ci: "cs i = Some c" and loop: "ch_loop c = ownerLoop p" using c by (simp_all add: owned_def)
  have up: "EPollPoller_updateChannel K i (?cs, p, \<sigma>) = Inr s'" using req ci by simp
  note wf1 = poller_wf_request [OF wf c, of r]
  note c1 = owned_request [OF c, of r]
  have "poller_owns i (?cs, p, \<sigma>)" using c1 unfolding poller_owns.simps by blast
  note wf' = update_wf [OF wf1 this up]
  have sc: "chan_synced ?il i c" using iw c by simp
  from wf1 c1 up show ?thesis
  proof (cases rule: update_cases)
    case (1 \<sigma>')
    let ?p = "p\<lparr>po_channels := (po_channels p)(ch_fd ?c \<mapsto> i)\<rparr>"
    have "?il (ch_fd c) = None" using 1(1) sc by (simp add: chan_synced_def)
    then have il: "interest (epollfd p) (os \<sigma>') =
        ctl_apply EPOLL_CTL_ADD (ch_fd c) \<lparr>ev_events = ch_events ?c, ev_ptr = i\<rparr> ?il"
      using ep_update_os [OF K 1(3)] by (simp add: ctl_applicable_def)
    have "interest_wf interest (cs(i \<mapsto> set_index kAdded ?c), ?p, \<sigma>')"
      by (rule interest_wf_step [OF wf iw c _ _ _ _ refl, where op = EPOLL_CTL_ADD
            and ev = "\<lparr>ev_events = ch_events ?c, ev_ptr = i\<rparr>"])
        (simp_all add: il chan_synced_def ctl_apply_def fun_upd_def)
    then show ?thesis using wf' 1(4) by simp
  next
    case (2 \<sigma>')
    let ?op = "if isNoneEvent ?c then EPOLL_CTL_DEL else EPOLL_CTL_MOD"
    let ?ev = "\<lparr>ev_events = ch_events ?c, ev_ptr = i\<rparr>"
    note os = ep_update_os [OF K 2(3)]
    have appl: "isNoneEvent ?c \<or> ctl_applicable ?op (ch_fd c) ?il"
    proof (rule ccontr)
      assume neg: "\<not> (isNoneEvent ?c \<or> ctl_applicable ?op (ch_fd c) ?il)"
      have "ep_update K ?op i ?c p \<sigma> = Inl Exit_Fatal"
        by (rule ep_update_inapplicable [OF K]) (use neg in auto)
      with 2(3) show False by simp
    qed
    have "interest_wf interest (?cs, p, \<sigma>')"
      by (rule interest_wf_step [OF wf iw c _ _ _ _ refl, where op = ?op and ev = ?ev])
        (use os appl 2(1) sc in \<open>auto simp: chan_synced_def ctl_apply_def ctl_applicable_def\<close>)
    then show ?thesis using wf' 2(4) by simp
  qed
qed

lemma remove_interest_wf:
  assumes K: "epoll_ctl_contract K interest" and wf: "poller_wf (cs, p, \<sigma>)"
    and iw: "interest_wf interest (cs, p, \<sigma>)" and c: "owned cs (ownerLoop p) i c"
    and rm: "EPollPoller_removeChannel K i (cs, p, \<sigma>) = Inr s'"
  shows "poller_wf s' \<and> interest_wf interest s'"
proof -
  let ?il = "interest (epollfd p) (os \<sigma>)"
  have "poller_owns i (cs, p, \<sigma>)" using c unfolding poller_owns.simps by blast
  note wf' = remove_wf [OF wf this rm]
  from wf c rm show ?thesis
  proof (cases rule: remove_cases)
    case (1 \<sigma>')
    note os = ep_update_os [OF K 1(3)]
    have "interest_wf interest (cs(i \<mapsto> set_index kNew c),
        p\<lparr>po_channels := (po_channels p)(ch_fd c := None)\<rparr>, \<sigma>')"
      by (rule interest_wf_step [OF wf iw c _ _ _ _ refl, where op = EPOLL_CTL_DEL
            and ev = "\<lparr>ev_events = ch_events c, ev_ptr = i\<rparr>"])
        (use os in \<open>auto simp: chan_synced_def ctl_apply_def ctl_applicable_def\<close>)
    then show ?thesis using wf' 1(4) by simp
  next
    case 2
    then show ?thesis using wf iw by simp
  qed
qed

section \<open>Polling\<close>

lemma fillActiveChannels_ok:
  assumes "\<forall>ev \<in> set evs. cs (ev_ptr ev) \<noteq> None"
  shows "\<exists>cs'. fillActiveChannels evs cs active = Inr (cs', active @ map ev_ptr evs) \<and>
     (\<forall>i. i \<notin> ev_ptr ` set evs \<longrightarrow> cs' i = cs i) \<and>
     (distinct (map ev_ptr evs) \<longrightarrow>
        (\<forall>ev \<in> set evs. cs' (ev_ptr ev) = map_option (set_revents (ev_events ev)) (cs (ev_ptr ev))))"
  using assms
proof (induction evs arbitrary: cs active)
  case Nil
  then show ?case by simp
next
  case (Cons ev evs)
  from Cons.prems obtain c where c: "cs (ev_ptr ev) = Some c" by auto
  let ?cs = "cs(ev_ptr ev \<mapsto> set_revents (ev_events ev) c)"
  have "\<forall>ev' \<in> set evs. ?cs (ev_ptr ev') \<noteq> None" using Cons.prems by auto
  from Cons.IH [OF this, of "active @ [ev_ptr ev]"] obtain cs' where
    cs': "fillActiveChannels evs ?cs (active @ [ev_ptr ev]) = Inr (cs', (active @ [ev_ptr ev]) @ map ev_ptr evs)"
      "\<forall>i. i \<notin> ev_ptr ` set evs \<longrightarrow> cs' i = ?cs i"
      "distinct (map ev_ptr evs) \<longrightarrow>
        (\<forall>ev \<in> set evs. cs' (ev_ptr ev) = map_option (set_revents (ev_events ev)) (?cs (ev_ptr ev)))"
    by blast
  have "cs' (ev_ptr ev) = Some (set_revents (ev_events ev) c)" if "ev_ptr ev \<notin> ev_ptr ` set evs"
    using cs'(2) that by simp
  moreover have "?cs (ev_ptr ev') = cs (ev_ptr ev')" if "ev' \<in> set evs" "ev_ptr ev \<notin> ev_ptr ` set evs" for ev'
    using that by (auto simp: image_iff)
  ultimately show ?case using cs' c by (intro exI [of _ cs']) auto
qed

text \<open>The size of \<^verbatim>\<open>events_\<close> after a poll that reported \<open>n\<close> events.\<close>

definition grown :: "nat \<Rightarrow> nat \<Rightarrow> nat" where
  "grown n m = (if n = m then 2 * m else m)"

lemma poll_events:
  assumes K: "epoll_wait_contract K"
    and call: "sys_epoll_wait K (epollfd p) (length (po_events p)) t (os \<sigma>) = ((n, e, evs), k')"
    and n: "0 < n" and ptrs: "\<forall>ev \<in> set evs. cs (ev_ptr ev) \<noteq> None"
  shows "\<exists>cs' p'. EPollPoller_poll K t active (cs, p, \<sigma>) =
       Inr (Timestamp_now (sys_time K k'), active @ map ev_ptr evs, (cs', p', \<sigma>\<lparr>os := k'\<rparr>)) \<and>
     fillActiveChannels evs cs active = Inr (cs', active @ map ev_ptr evs) \<and>
     length (po_events p') = grown (length evs) (length (po_events p)) \<and>
     po_channels p' = po_channels p \<and> ownerLoop p' = ownerLoop p \<and> epollfd p' = epollfd p"
proof -
  from epoll_wait_contractD [OF K call] n have nn: "n = int (length evs)" "length evs \<le> length (po_events p)"
    by simp_all
  obtain cs' where cs': "fillActiveChannels evs cs active = Inr (cs', active @ map ev_ptr evs)"
    using fillActiveChannels_ok [OF ptrs, of active] by blast
  have tk: "take (length evs) (overwrite (po_events p) 0 evs) = evs"
    by (simp add: overwrite_def)
  have len: "length (overwrite (po_events p) 0 evs) = length (po_events p)"
    using nn(2) by simp
  show ?thesis
    using call n nn cs' tk len by (simp add: grown_def Let_def)
qed

text \<open>
  A concrete poller with one channel, new (\<open>demo_new\<close>) or added for reading (\<open>demo_added\<close>), on the
  kernel of theory \<open>SimKernel\<close>.
\<close>

definition demo_poller :: epoll_poller where
  "demo_poller = \<lparr>ownerLoop = 0, po_channels = (\<lambda>_. None), epollfd = 3, po_events = replicate 1 zero_event\<rparr>"

definition demo_poller_added :: epoll_poller where
  "demo_poller_added = demo_poller\<lparr>po_channels := (\<lambda>_. None)(5 \<mapsto> 1)\<rparr>"

definition demo_chan_added :: channel where
  "demo_chan_added = set_index kAdded (request EnableReading (mk_Channel 0 5))"

definition demo_new :: "sim pstate" where
  "demo_new = ((\<lambda>_. None)(1 \<mapsto> mk_Channel 0 5), demo_poller, \<lparr>os = sim0, logs = []\<rparr>)"

definition demo_added :: "sim pstate" where
  "demo_added = ((\<lambda>_. None)(1 \<mapsto> demo_chan_added), demo_poller_added,
     \<lparr>os = sim0\<lparr>sim_interest := (\<lambda>_ _. None)(3 := (\<lambda>_. None)(5 \<mapsto> \<lparr>ev_events = 3, ev_ptr = 1\<rparr>)),
                 sim_ready := [\<lparr>ev_events = 1, ev_ptr = 1\<rparr>]\<rparr>, logs = []\<rparr>)"

lemmas demo_defs = demo_new_def demo_added_def demo_poller_def demo_poller_added_def demo_chan_added_def
  mk_Channel_def sim0_def

lemma demo_new_ok:
  "poller_wf demo_new" "poller_owns 1 demo_new" "interest_wf (\<lambda>ep k. sim_interest k ep) demo_new"
  by (auto simp: demo_defs fds_distinct_def index_wf_def map_wf_def owned_def [abs_def] chan_synced_def kNew_def)

lemma demo_added_ok:
  "poller_wf demo_added" "poller_owns 1 demo_added" "interest_wf (\<lambda>ep k. sim_interest k ep) demo_added"
  by (auto simp: demo_defs fds_distinct_def index_wf_def map_wf_def owned_def [abs_def] chan_synced_def
      event_defs request_def set_index_def kAdded_def kNew_def)

section \<open>Properties\<close>

text \<open>
  C27. Registration: from a well-formed poller, after any sequence of updates and removes of its
  channels that all return, the poller is well formed (so no channel's index is ever \<^verbatim>\<open>kDeleted\<close>) and
  \<^verbatim>\<open>hasChannel\<close> holds of a channel exactly when the last operation on it was an update, or when there
  was none and it held before.
\<close>

theorem poller_registration:
  assumes "poller_wf s" and "poller_owns j s" and "\<forall>op \<in> set ops. poller_owns (op_target op) s"
    and "fold_r (chan_step (EPollPoller_updateChannel K) (EPollPoller_removeChannel K)) ops s = Inr s'"
  shows "poller_wf s' \<and> Poller_hasChannel j s' = registered_after ops j (Poller_hasChannel j s)"
  using assms by (rule ep.run_registered)

theorem poller_registration_witness:
  "\<exists>s'. fold_r (chan_step (EPollPoller_updateChannel sim_kernel) (EPollPoller_removeChannel sim_kernel))
        [Update 1, Remove 1, Update 1] demo_new = Inr s' \<and> poller_wf s' \<and> Poller_hasChannel 1 s'"
proof -
  obtain s' where s': "fold_r (chan_step (EPollPoller_updateChannel sim_kernel)
      (EPollPoller_removeChannel sim_kernel)) [Update 1, Remove 1, Update 1] demo_new = Inr s'"
    by (simp add: demo_defs kNew_def kAdded_def kDeleted_def ep_update_def sim_kernel_def sim_ctl_def
        ctl_applicable_def ctl_apply_def set_index_def)
  then show ?thesis
    using poller_registration [OF demo_new_ok(1,2) _ s'] demo_new_ok(2) by auto
qed

text \<open>
  C11. The kernel agrees with the channels: on a kernel that follows epoll_ctl(2), a request for
  interest on a channel of the poller that returns keeps the poller well formed, and afterwards the
  kernel watches every channel of the loop for exactly the events that channel wants.
\<close>

theorem request_keeps_interest:
  assumes "epoll_ctl_contract K interest" and "poller_wf (cs, p, \<sigma>)"
    and "interest_wf interest (cs, p, \<sigma>)" and "owned cs (ownerLoop p) i c"
    and "poller_request K r i (cs, p, \<sigma>) = Inr s'"
  shows "poller_wf s' \<and> interest_wf interest s'"
  using assms by (rule request_interest_wf)

theorem request_keeps_interest_witness:
  "\<exists>s'. poller_request sim_kernel EnableReading 1 demo_new = Inr s' \<and> poller_wf s' \<and>
     interest_wf (\<lambda>ep k. sim_interest k ep) s'"
proof -
  obtain s' where s': "poller_request sim_kernel EnableReading 1 demo_new = Inr s'"
    by (simp add: demo_defs kNew_def kAdded_def kDeleted_def ep_update_def sim_kernel_def sim_ctl_def
        ctl_applicable_def ctl_apply_def set_index_def request_def)
  moreover have "owned (fst demo_new) (ownerLoop demo_poller) 1 (mk_Channel 0 5)"
    by (simp add: demo_defs owned_def)
  ultimately show ?thesis
    using request_keeps_interest [OF sim_epoll_ctl_contract, of "fst demo_new" demo_poller
        "snd (snd demo_new)" 1 "mk_Channel 0 5" EnableReading s'] demo_new_ok(1,3)
    by (simp add: demo_new_def)
qed

text \<open>
  Removing a channel keeps that agreement too, never fails on such a kernel, and afterwards the
  kernel no longer watches the channel's descriptor and the poller does not have the channel.
\<close>

lemma remove_unwatches:
  assumes "epoll_ctl_contract K interest" and "poller_wf (cs, p, \<sigma>)"
    and "interest_wf interest (cs, p, \<sigma>)" and "owned cs (ownerLoop p) i c"
  shows "\<exists>cs' p' \<sigma>'. EPollPoller_removeChannel K i (cs, p, \<sigma>) = Inr (cs', p', \<sigma>') \<and>
     poller_wf (cs', p', \<sigma>') \<and> interest_wf interest (cs', p', \<sigma>') \<and>
     interest (epollfd p') (os \<sigma>') (ch_fd c) = None \<and> \<not> Poller_hasChannel i (cs', p', \<sigma>')"
proof -
  have ci: "cs i = Some c" using assms(4) by (simp add: owned_def)
  obtain \<sigma>0 where del: "ep_update K EPOLL_CTL_DEL i c p \<sigma> = Inr \<sigma>0"
    using ep_update_del by blast
  then obtain s' where rm: "EPollPoller_removeChannel K i (cs, p, \<sigma>) = Inr s'"
    using ci by (cases "ch_index c = kAdded") auto
  obtain cs' p' \<sigma>' where s': "s' = (cs', p', \<sigma>')" by (cases s')
  note wf = remove_interest_wf [OF assms rm, unfolded s']
  have own: "poller_owns i (cs, p, \<sigma>)" using assms(4) unfolding poller_owns.simps by blast
  have "\<not> Poller_hasChannel i s'" using remove_has [OF assms(2) own own rm] by simp
  moreover have "owned cs' (ownerLoop p') i (set_index kNew c)"
    using assms(2,4) rm s' by (cases rule: remove_cases) (use assms(4) in \<open>auto simp: owned_def set_index_def\<close>)
  then have "chan_synced (interest (epollfd p') (os \<sigma>')) i (set_index kNew c)" using wf by simp
  then have "interest (epollfd p') (os \<sigma>') (ch_fd c) = None" by (simp add: chan_synced_def)
  ultimately show ?thesis using rm s' wf by auto
qed

lemma remove_unwatches_witness:
  "\<exists>cs' p' \<sigma>'. EPollPoller_removeChannel sim_kernel 1 demo_added = Inr (cs', p', \<sigma>') \<and>
     sim_interest (os \<sigma>') (epollfd p') 5 = None \<and> \<not> Poller_hasChannel 1 (cs', p', \<sigma>')"
proof -
  have "owned (fst demo_added) (ownerLoop demo_poller_added) 1 demo_chan_added"
    by (simp add: demo_defs owned_def request_def set_index_def)
  moreover have "ch_fd demo_chan_added = 5" by (simp add: demo_defs)
  ultimately show ?thesis
    using remove_unwatches [OF sim_epoll_ctl_contract, of "fst demo_added" demo_poller_added
        "snd (snd demo_added)" 1 demo_chan_added] demo_added_ok(1,3)
    unfolding demo_added_def fst_conv snd_conv by metis
qed

text \<open>
  C36. A channel that is added, has all its events disabled and then enables reading again ends the
  program: \<^verbatim>\<open>updateChannel\<close> leaves the index at \<^verbatim>\<open>kAdded\<close> after \<^verbatim>\<open>EPOLL_CTL_DEL\<close>, so the second request is an
  \<^verbatim>\<open>EPOLL_CTL_MOD\<close> of a descriptor the kernel does not know, and \<^verbatim>\<open>LOG_FATAL\<close> exits.
\<close>

theorem reenable_after_disableAll_exits:
  assumes K: "epoll_ctl_contract K interest" and wf: "poller_wf (cs, p, \<sigma>)"
    and iw: "interest_wf interest (cs, p, \<sigma>)" and c: "owned cs (ownerLoop p) i c" "ch_index c = kAdded"
  shows "bind_r (poller_request K DisableAll i (cs, p, \<sigma>)) (poller_request K EnableReading i) =
     Inl Exit_Fatal"
proof -
  let ?c = "request DisableAll c"
  have ci: "cs i = Some c" using c(1) by (simp add: owned_def)
  have none: "isNoneEvent ?c" by (simp add: isNoneEvent_def)
  obtain \<sigma>' where del: "ep_update K EPOLL_CTL_DEL i ?c p \<sigma> = Inr \<sigma>'"
    using ep_update_del by blast
  then have 1: "poller_request K DisableAll i (cs, p, \<sigma>) = Inr (cs(i \<mapsto> ?c), p, \<sigma>')"
    using ci c(2) none by simp
  have il: "interest (epollfd p) (os \<sigma>') (ch_fd c) = None"
    using ep_update_os [OF K del] by (auto simp: ctl_apply_def ctl_applicable_def)
  have some: "\<not> isNoneEvent (request EnableReading ?c)"
    by (simp add: isNoneEvent_def event_defs)
  have "ep_update K EPOLL_CTL_MOD i (request EnableReading ?c) p \<sigma>' = Inl Exit_Fatal"
    by (rule ep_update_inapplicable [OF K]) (simp_all add: il ctl_applicable_def)
  then have "poller_request K EnableReading i (cs(i \<mapsto> ?c), p, \<sigma>') = Inl Exit_Fatal"
    using c(2) some by simp
  with 1 show ?thesis by simp
qed

theorem reenable_after_disableAll_exits_witness:
  "bind_r (poller_request sim_kernel DisableAll 1 demo_added) (poller_request sim_kernel EnableReading 1) =
     Inl Exit_Fatal"
proof -
  have "owned (fst demo_added) (ownerLoop demo_poller_added) 1 demo_chan_added"
    by (simp add: demo_defs owned_def request_def set_index_def)
  moreover have "ch_index demo_chan_added = kAdded" by (simp add: demo_chan_added_def)
  ultimately show ?thesis
    using reenable_after_disableAll_exits [OF sim_epoll_ctl_contract, of "fst demo_added" demo_poller_added
        "snd (snd demo_added)" 1 demo_chan_added] demo_added_ok(1,3)
    unfolding demo_added_def fst_conv snd_conv by metis
qed

text \<open>
  \<^verbatim>\<open>poll\<close>: when \<^verbatim>\<open>epoll_wait\<close> reports events for existing channels, the channels become active in
  the order of the report, each channel reported once carries the reported events, every other
  channel is untouched, and the event array doubles exactly when it was full.
\<close>

lemma poll_reports:
  assumes "epoll_wait_contract K"
    and "sys_epoll_wait K (epollfd p) (length (po_events p)) t (os \<sigma>) = ((n, e, evs), k')"
    and "0 < n" and "\<forall>ev \<in> set evs. cs (ev_ptr ev) \<noteq> None" and "distinct (map ev_ptr evs)"
  shows "\<exists>cs' p'. EPollPoller_poll K t active (cs, p, \<sigma>) =
       Inr (Timestamp_now (sys_time K k'), active @ map ev_ptr evs, (cs', p', \<sigma>\<lparr>os := k'\<rparr>)) \<and>
     (\<forall>ev \<in> set evs. cs' (ev_ptr ev) = map_option (set_revents (ev_events ev)) (cs (ev_ptr ev))) \<and>
     (\<forall>i. i \<notin> ev_ptr ` set evs \<longrightarrow> cs' i = cs i) \<and>
     length (po_events p') = (if length evs = length (po_events p) then 2 * length (po_events p)
                              else length (po_events p))"
  using poll_events [OF assms(1-4), of active] fillActiveChannels_ok [OF assms(4), of active] assms(5)
  by (auto simp: grown_def)

lemma poll_reports_witness:
  "\<exists>cs' p' \<sigma>'. EPollPoller_poll sim_kernel 10000 [] demo_added = Inr (Timestamp_now 0, [1], (cs', p', \<sigma>')) \<and>
     map_option ch_revents (cs' 1) = Some 1 \<and> length (po_events p') = 2"
proof -
  let ?k = "os (snd (snd demo_added))"
  have call: "sys_epoll_wait sim_kernel (epollfd demo_poller_added) (length (po_events demo_poller_added))
      10000 ?k = ((1, 0, [\<lparr>ev_events = 1, ev_ptr = 1\<rparr>]), ?k\<lparr>sim_ready := []\<rparr>)"
    by (simp add: demo_defs sim_kernel_def)
  have "fst demo_added 1 = Some demo_chan_added" by (simp add: demo_added_def)
  moreover have "length (po_events demo_poller_added) = 1" "sys_time sim_kernel k = 0" for k
    by (simp_all add: demo_defs sim_kernel_def)
  ultimately show ?thesis
    using poll_reports [OF sim_epoll_wait_contract call, of "fst demo_added" "[]"]
    by (auto simp: demo_added_def set_revents_def)
qed

end
