(* ===== verification/EventLoop.thy ===== *)
theory EventLoop
  imports EPollPoller
begin

text \<open>
  \<^verbatim>\<open>src/EventLoop.{h,cc}\<close>, \<^verbatim>\<open>src/CurrentThread.{h,cc}\<close> and the parts of \<^verbatim>\<open>src/Channel.{h,cc}\<close> that reach the
  loop. The program state (\<open>world\<close>) holds the system, the channel objects, the event loops and the
  identity of the running thread; later theories extend the record. A functor given to a loop is the
  name (\<open>task\<close>) of the bound member function and its arguments; \<open>run\<close> gives names their meaning.
\<close>

section \<open>Data\<close>

type_synonym cb_ref = nat
type_synonym str_id = nat

datatype task =
    ConnectionEstablished conn_id
  | ConnectionDestroyed conn_id
  | SendInLoop conn_id str_id size_t
  | ShutdownInLoop conn_id
  | WriteComplete cb_ref conn_id
  | HighWaterMark cb_ref conn_id size_t
  | RemoveConnectionInLoop conn_id
  | AcceptorListen
  | UserTask nat

record event_loop =
  looping :: bool
  loop_quit :: bool
  threadId :: tid
  wakeupFd :: fd
  wakeupChannel :: chan_id
  pollReturnTime :: Timestamp
  loop_poller :: "epoll_poller option"
  activeChannels :: "chan_id list"
  callingPendingFunctors :: bool
  pendingFunctors :: "task list"

record 'k world =
  wsys :: "'k sys"
  chans :: channels
  loops :: "loop_id \<Rightarrow> event_loop option"
  cachedTid :: "tid \<Rightarrow> tid"
  cur_thread :: tid
  loopInThread :: "tid \<Rightarrow> loop_id option"
  numCreated :: c_int

definition kPollTimeoutMs :: int where "kPollTimeoutMs = 10000"

section \<open>The current thread\<close>

text \<open>
  \<^verbatim>\<open>t_cachedTid\<close> is one variable per thread (0 when not yet cached); \<open>cur_thread\<close> is what \<^verbatim>\<open>gettid\<close>
  returns in the running thread.
\<close>

definition cacheTid :: "('k, 'm) world_scheme \<Rightarrow> ('k, 'm) world_scheme" where
  "cacheTid w =
     (if cachedTid w (cur_thread w) = 0
      then w\<lparr>cachedTid := (cachedTid w)(cur_thread w := cur_thread w)\<rparr> else w)"

definition tid_of :: "('k, 'm) world_scheme \<Rightarrow> tid" where
  "tid_of w = (let w' = (if cachedTid w (cur_thread w) = 0 then cacheTid w else w)
               in cachedTid w' (cur_thread w'))"

section \<open>Access to the objects\<close>

definition with_loop ::
    "loop_id \<Rightarrow> ('k, 'm) world_scheme \<Rightarrow> (event_loop \<Rightarrow> ('k, 'm) world_scheme res) \<Rightarrow> ('k, 'm) world_scheme res" where
  "with_loop l w f = (case loops w l of None \<Rightarrow> Inl Null_Deref | Some el \<Rightarrow> f el)"

definition put_loop :: "loop_id \<Rightarrow> event_loop \<Rightarrow> ('k, 'm) world_scheme \<Rightarrow> ('k, 'm) world_scheme" where
  "put_loop l el w = w\<lparr>loops := (loops w)(l \<mapsto> el)\<rparr>"

definition put_chan :: "chan_id \<Rightarrow> channel \<Rightarrow> ('k, 'm) world_scheme \<Rightarrow> ('k, 'm) world_scheme" where
  "put_chan i c w = w\<lparr>chans := (chans w)(i \<mapsto> c)\<rparr>"

definition put_sys :: "'k sys \<Rightarrow> ('k, 'm) world_scheme \<Rightarrow> ('k, 'm) world_scheme" where
  "put_sys \<sigma> w = w\<lparr>wsys := \<sigma>\<rparr>"

definition log_err :: "string \<Rightarrow> ('k, 'm) world_scheme \<Rightarrow> ('k, 'm) world_scheme" where
  "log_err msg w = w\<lparr>wsys := log_error msg (wsys w)\<rparr>"

definition isInLoopThread :: "event_loop \<Rightarrow> ('k, 'm) world_scheme \<Rightarrow> bool" where
  "isInLoopThread el w \<longleftrightarrow> threadId el = tid_of w"

section \<open>Waking up and queueing\<close>

text \<open>The eight bytes of \<^verbatim>\<open>uint64_t one = 1\<close>.\<close>

definition one_bytes :: "byte list" where "one_bytes = [1, 0, 0, 0, 0, 0, 0, 0]"

definition wakeup :: "'k kernel \<Rightarrow> loop_id \<Rightarrow> ('k, 'm) world_scheme \<Rightarrow> ('k, 'm) world_scheme res" where
  "wakeup K l w = with_loop l w (\<lambda>el.
     case sys_write K (wakeupFd el) one_bytes (os (wsys w)) of ((n, e), k') \<Rightarrow>
       let w1 = put_sys ((wsys w)\<lparr>os := k'\<rparr>) w
       in Inr (if n \<noteq> 8 then log_err ''EventLoop::wakeup() writes %lu bytes instead of 8'' w1 else w1))"

definition loop_handleRead :: "'k kernel \<Rightarrow> loop_id \<Rightarrow> ('k, 'm) world_scheme \<Rightarrow> ('k, 'm) world_scheme res" where
  "loop_handleRead K l w = with_loop l w (\<lambda>el.
     case sys_read8 K (wakeupFd el) (os (wsys w)) of ((n, e), k') \<Rightarrow>
       let w1 = put_sys ((wsys w)\<lparr>os := k'\<rparr>) w
       in Inr (if n \<noteq> 8 then log_err ''EventLoop::handleRead() reads %d bytes instead of 8'' w1 else w1))"

definition queueInLoop ::
    "'k kernel \<Rightarrow> loop_id \<Rightarrow> task \<Rightarrow> ('k, 'm) world_scheme \<Rightarrow> ('k, 'm) world_scheme res" where
  "queueInLoop K l t w = with_loop l w (\<lambda>el.
     let el1 = el\<lparr>pendingFunctors := pendingFunctors el @ [t]\<rparr>;
         w1 = put_loop l el1 w
     in if \<not> isInLoopThread el1 w1 \<or> callingPendingFunctors el1 then wakeup K l w1 else Inr w1)"

text \<open>\<open>cb\<close> is the functor and \<open>t\<close> its name.\<close>

definition runInLoop :: "'k kernel \<Rightarrow> loop_id \<Rightarrow> (('k, 'm) world_scheme \<Rightarrow> ('k, 'm) world_scheme res) \<Rightarrow>
    task \<Rightarrow> ('k, 'm) world_scheme \<Rightarrow> ('k, 'm) world_scheme res" where
  "runInLoop K l cb t w = with_loop l w (\<lambda>el.
     if isInLoopThread el w then cb w else queueInLoop K l t w)"

definition loop_quit_op :: "'k kernel \<Rightarrow> loop_id \<Rightarrow> ('k, 'm) world_scheme \<Rightarrow> ('k, 'm) world_scheme res" where
  "loop_quit_op K l w = with_loop l w (\<lambda>el.
     let el1 = el\<lparr>loop_quit := True\<rparr>; w1 = put_loop l el1 w
     in if \<not> isInLoopThread el1 w1 then wakeup K l w1 else Inr w1)"

section \<open>Channels of a loop\<close>

definition lift_poller :: "loop_id \<Rightarrow> ('k pstate \<Rightarrow> 'k pstate res) \<Rightarrow>
    ('k, 'm) world_scheme \<Rightarrow> ('k, 'm) world_scheme res" where
  "lift_poller l f w = with_loop l w (\<lambda>el.
     case loop_poller el of
       None \<Rightarrow> Inl Null_Deref
     | Some p \<Rightarrow> bind_r (f (chans w, p, wsys w)) (\<lambda>(cs, p', \<sigma>').
         Inr (put_loop l (el\<lparr>loop_poller := Some p'\<rparr>) (w\<lparr>chans := cs, wsys := \<sigma>'\<rparr>))))"

definition loop_updateChannel ::
    "'k kernel \<Rightarrow> loop_id \<Rightarrow> chan_id \<Rightarrow> ('k, 'm) world_scheme \<Rightarrow> ('k, 'm) world_scheme res" where
  "loop_updateChannel K l i w = lift_poller l (EPollPoller_updateChannel K i) w"

definition loop_removeChannel ::
    "'k kernel \<Rightarrow> loop_id \<Rightarrow> chan_id \<Rightarrow> ('k, 'm) world_scheme \<Rightarrow> ('k, 'm) world_scheme res" where
  "loop_removeChannel K l i w = lift_poller l (EPollPoller_removeChannel K i) w"

definition loop_hasChannel :: "loop_id \<Rightarrow> chan_id \<Rightarrow> ('k, 'm) world_scheme \<Rightarrow> bool res" where
  "loop_hasChannel l i w =
     (case loops w l of
        None \<Rightarrow> Inl Null_Deref
      | Some el \<Rightarrow> (case loop_poller el of
          None \<Rightarrow> Inl Null_Deref
        | Some p \<Rightarrow> Inr (Poller_hasChannel i (chans w, p, wsys w))))"

definition with_chan ::
    "chan_id \<Rightarrow> ('k, 'm) world_scheme \<Rightarrow> (channel \<Rightarrow> ('k, 'm) world_scheme res) \<Rightarrow> ('k, 'm) world_scheme res" where
  "with_chan i w f = (case chans w i of None \<Rightarrow> Inl Null_Deref | Some c \<Rightarrow> f c)"

definition Channel_update :: "'k kernel \<Rightarrow> chan_id \<Rightarrow> ('k, 'm) world_scheme \<Rightarrow> ('k, 'm) world_scheme res" where
  "Channel_update K i w = with_chan i w (\<lambda>c. loop_updateChannel K (ch_loop c) i w)"

definition Channel_remove :: "'k kernel \<Rightarrow> chan_id \<Rightarrow> ('k, 'm) world_scheme \<Rightarrow> ('k, 'm) world_scheme res" where
  "Channel_remove K i w = with_chan i w (\<lambda>c. loop_removeChannel K (ch_loop c) i w)"

text \<open>\<^verbatim>\<open>enableReading\<close>, \<^verbatim>\<open>disableReading\<close>, \<^verbatim>\<open>enableWriting\<close>, \<^verbatim>\<open>disableWriting\<close>, \<^verbatim>\<open>disableAll\<close>: change, then \<^verbatim>\<open>update()\<close>.\<close>

definition Channel_request ::
    "'k kernel \<Rightarrow> interest_req \<Rightarrow> chan_id \<Rightarrow> ('k, 'm) world_scheme \<Rightarrow> ('k, 'm) world_scheme res" where
  "Channel_request K r i w = with_chan i w (\<lambda>c. Channel_update K i (put_chan i (request r c) w))"

section \<open>Construction and destruction\<close>

definition createEventfd :: "'k kernel \<Rightarrow> 'k sys \<Rightarrow> (fd \<times> 'k sys) res" where
  "createEventfd K \<sigma> =
     (case sys_eventfd K (os \<sigma>) of ((r, e), k') \<Rightarrow> if r < 0 then Inl Exit_Fatal else Inr (r, \<sigma>\<lparr>os := k'\<rparr>))"

text \<open>
  The members are initialised in the order of their declaration: the eventfd, its channel, the
  poller. \<open>l\<close> and \<open>ch\<close> are the identities of the new loop and of its wakeup channel.
\<close>

definition mk_EventLoop ::
    "'k kernel \<Rightarrow> bool \<Rightarrow> loop_id \<Rightarrow> chan_id \<Rightarrow> ('k, 'm) world_scheme \<Rightarrow> ('k, 'm) world_scheme res" where
  "mk_EventLoop K use_poll l ch w =
     bind_r (createEventfd K (wsys w)) (\<lambda>(wfd, \<sigma>1).
     bind_r (newDefaultPoller K use_poll l \<sigma>1) (\<lambda>(po, \<sigma>2).
       let el = \<lparr>looping = False, loop_quit = False, threadId = tid_of w, wakeupFd = wfd,
                 wakeupChannel = ch, pollReturnTime = Timestamp_zero, loop_poller = po,
                 activeChannels = [], callingPendingFunctors = False, pendingFunctors = []\<rparr>;
           w1 = put_loop l el (put_chan ch (mk_Channel l wfd) (put_sys \<sigma>2 w))
       in if loopInThread w1 (cur_thread w1) \<noteq> None then Inl Exit_Fatal
          else
            (let w2 = w1\<lparr>loopInThread := (loopInThread w1)(cur_thread w1 \<mapsto> l)\<rparr>;
                 w3 = put_chan ch (setReadCallback (LoopHandleRead l) (mk_Channel l wfd)) w2
             in Channel_request K EnableReading ch w3)))"

definition destroy_EventLoop ::
    "'k kernel \<Rightarrow> loop_id \<Rightarrow> ('k, 'm) world_scheme \<Rightarrow> ('k, 'm) world_scheme res" where
  "destroy_EventLoop K l w = with_loop l w (\<lambda>el.
     bind_r (Channel_request K DisableAll (wakeupChannel el) w) (\<lambda>w1.
     bind_r (Channel_remove K (wakeupChannel el) w1) (\<lambda>w2.
       let w3 = put_sys ((wsys w2)\<lparr>os := sys_close K (wakeupFd el) (os (wsys w2))\<rparr>) w2;
           w4 = w3\<lparr>loopInThread := (loopInThread w3)(cur_thread w3 := None)\<rparr>;
           w5 = (case loops w4 l of
                   Some el' \<Rightarrow> (case loop_poller el' of
                      Some p \<Rightarrow> put_sys (destroy_EPollPoller K p (wsys w4)) w4 | None \<Rightarrow> w4)
                 | None \<Rightarrow> w4)
       in Inr (w5\<lparr>loops := (loops w5)(l := None), chans := (chans w5)(wakeupChannel el := None)\<rparr>))))"

section \<open>The loop\<close>

definition doPendingFunctors :: "(task \<Rightarrow> ('k, 'm) world_scheme \<Rightarrow> ('k, 'm) world_scheme res) \<Rightarrow>
    loop_id \<Rightarrow> ('k, 'm) world_scheme \<Rightarrow> ('k, 'm) world_scheme res" where
  "doPendingFunctors run l w = with_loop l w (\<lambda>el.
     let functors = pendingFunctors el;
         w1 = put_loop l (el\<lparr>callingPendingFunctors := True, pendingFunctors := []\<rparr>) w
     in bind_r (fold_r run functors w1) (\<lambda>w2.
          with_loop l w2 (\<lambda>el2. Inr (put_loop l (el2\<lparr>callingPendingFunctors := False\<rparr>) w2))))"

text \<open>One pass of the \<^verbatim>\<open>while\<close> body: poll, handle the active channels in order, run the functors.\<close>

definition loop_poll :: "'k kernel \<Rightarrow> loop_id \<Rightarrow> ('k, 'm) world_scheme \<Rightarrow> ('k, 'm) world_scheme res" where
  "loop_poll K l w = with_loop l w (\<lambda>el.
     case loop_poller el of
       None \<Rightarrow> Inl Null_Deref
     | Some p \<Rightarrow> bind_r (EPollPoller_poll K kPollTimeoutMs [] (chans w, p, wsys w))
         (\<lambda>(now, active, (cs, p', \<sigma>')).
            Inr (put_loop l (el\<lparr>loop_poller := Some p', activeChannels := active, pollReturnTime := now\<rparr>)
                   (w\<lparr>chans := cs, wsys := \<sigma>'\<rparr>))))"

definition loop_iter :: "'k kernel \<Rightarrow> (Timestamp \<Rightarrow> handler \<Rightarrow> ('k, 'm) world_scheme \<Rightarrow> ('k, 'm) world_scheme res) \<Rightarrow>
    (conn_id \<Rightarrow> ('k, 'm) world_scheme \<Rightarrow> bool) \<Rightarrow>
    (task \<Rightarrow> ('k, 'm) world_scheme \<Rightarrow> ('k, 'm) world_scheme res) \<Rightarrow>
    loop_id \<Rightarrow> ('k, 'm) world_scheme \<Rightarrow> ('k, 'm) world_scheme res" where
  "loop_iter K disp alive run l w =
     bind_r (loop_poll K l w) (\<lambda>w1. with_loop l w1 (\<lambda>el1.
     bind_r (fold_r (\<lambda>i. handleEvent (\<lambda>v. chans v i) alive (disp (pollReturnTime el1)))
               (activeChannels el1) w1) (\<lambda>w2.
       doPendingFunctors run l w2)))"

text \<open>The \<^verbatim>\<open>while (!quit_)\<close> loop; \<open>None\<close> is a loop that never ends.\<close>

partial_function (option) loop_while ::
    "'k kernel \<Rightarrow> (Timestamp \<Rightarrow> handler \<Rightarrow> ('k, 'm) world_scheme \<Rightarrow> ('k, 'm) world_scheme res) \<Rightarrow>
     (conn_id \<Rightarrow> ('k, 'm) world_scheme \<Rightarrow> bool) \<Rightarrow>
     (task \<Rightarrow> ('k, 'm) world_scheme \<Rightarrow> ('k, 'm) world_scheme res) \<Rightarrow>
     loop_id \<Rightarrow> ('k, 'm) world_scheme \<Rightarrow> ('k, 'm) world_scheme res option" where
  "loop_while K disp alive run l w =
     (case loops w l of
        None \<Rightarrow> Some (Inl Null_Deref)
      | Some el \<Rightarrow>
          if loop_quit el then Some (Inr w)
          else (case loop_iter K disp alive run l w of
                  Inl e \<Rightarrow> Some (Inl e)
                | Inr w' \<Rightarrow> loop_while K disp alive run l w'))"

definition EventLoop_loop ::
    "'k kernel \<Rightarrow> (Timestamp \<Rightarrow> handler \<Rightarrow> ('k, 'm) world_scheme \<Rightarrow> ('k, 'm) world_scheme res) \<Rightarrow>
     (conn_id \<Rightarrow> ('k, 'm) world_scheme \<Rightarrow> bool) \<Rightarrow>
     (task \<Rightarrow> ('k, 'm) world_scheme \<Rightarrow> ('k, 'm) world_scheme res) \<Rightarrow>
     loop_id \<Rightarrow> ('k, 'm) world_scheme \<Rightarrow> ('k, 'm) world_scheme res option" where
  "EventLoop_loop K disp alive run l w =
     (case loops w l of
        None \<Rightarrow> Some (Inl Null_Deref)
      | Some el \<Rightarrow>
          Option.bind (loop_while K disp alive run l
                (put_loop l (el\<lparr>looping := True, loop_quit := False\<rparr>) w))
            (\<lambda>r. Some (bind_r r (\<lambda>w'. with_loop l w' (\<lambda>el'.
                   Inr (put_loop l (el'\<lparr>looping := False\<rparr>) w'))))))"

section \<open>Lemmas\<close>

lemma loops_put_loop [simp]: "loops (put_loop l el w) = (loops w)(l \<mapsto> el)"
  by (simp add: put_loop_def)

lemma put_loop_frame [simp]:
  "wsys (put_loop l el w) = wsys w" "chans (put_loop l el w) = chans w"
  "cachedTid (put_loop l el w) = cachedTid w" "cur_thread (put_loop l el w) = cur_thread w"
  "loopInThread (put_loop l el w) = loopInThread w" "world.more (put_loop l el w) = world.more w"
  by (simp_all add: put_loop_def)

lemma put_chan_frame [simp]:
  "wsys (put_chan i c w) = wsys w" "chans (put_chan i c w) = (chans w)(i \<mapsto> c)"
  "loops (put_chan i c w) = loops w" "cachedTid (put_chan i c w) = cachedTid w"
  "cur_thread (put_chan i c w) = cur_thread w" "loopInThread (put_chan i c w) = loopInThread w"
  "world.more (put_chan i c w) = world.more w"
  by (simp_all add: put_chan_def)

lemma put_sys_frame [simp]:
  "wsys (put_sys \<sigma> w) = \<sigma>" "chans (put_sys \<sigma> w) = chans w" "loops (put_sys \<sigma> w) = loops w"
  "cachedTid (put_sys \<sigma> w) = cachedTid w" "cur_thread (put_sys \<sigma> w) = cur_thread w"
  "loopInThread (put_sys \<sigma> w) = loopInThread w" "world.more (put_sys \<sigma> w) = world.more w"
  by (simp_all add: put_sys_def)

lemma log_err_frame [simp]:
  "wsys (log_err msg w) = log_error msg (wsys w)" "chans (log_err msg w) = chans w"
  "loops (log_err msg w) = loops w" "cachedTid (log_err msg w) = cachedTid w"
  "cur_thread (log_err msg w) = cur_thread w" "loopInThread (log_err msg w) = loopInThread w"
  "world.more (log_err msg w) = world.more w"
  by (simp_all add: log_err_def)

lemma with_loop_Some [simp]: "loops w l = Some el \<Longrightarrow> with_loop l w f = f el"
  by (simp add: with_loop_def)

lemma with_chan_Some [simp]: "chans w i = Some c \<Longrightarrow> with_chan i w f = f c"
  by (simp add: with_chan_def)

text \<open>The cached thread id is the thread id, once the cache holds 0 or the id itself.\<close>

definition cache_ok :: "('k, 'm) world_scheme \<Rightarrow> bool" where
  "cache_ok w \<longleftrightarrow> (\<forall>t. cachedTid w t = 0 \<or> cachedTid w t = t)"

lemma tid_of_eq: "cache_ok w \<Longrightarrow> tid_of w = cur_thread w"
  by (auto simp: cache_ok_def tid_of_def cacheTid_def Let_def)

lemma tid_of_frame [simp]:
  "tid_of (put_loop l el w) = tid_of w" "tid_of (put_chan i c w) = tid_of w" "tid_of (put_sys \<sigma> w) = tid_of w"
  by (simp_all add: tid_of_def cacheTid_def Let_def put_loop_def put_chan_def put_sys_def)

lemma isInLoopThread_frame [simp]:
  "isInLoopThread el (put_loop l e w) = isInLoopThread el w"
  "isInLoopThread (el\<lparr>pendingFunctors := ts\<rparr>) w = isInLoopThread el w"
  "isInLoopThread (el\<lparr>loop_quit := b\<rparr>) w = isInLoopThread el w"
  by (simp_all add: isInLoopThread_def)

lemma wakeup_ok:
  assumes "loops w l = Some el"
  shows "\<exists>w'. wakeup K l w = Inr w' \<and> loops w' = loops w \<and> chans w' = chans w \<and>
     world.more w' = world.more w \<and> cur_thread w' = cur_thread w \<and> cachedTid w' = cachedTid w \<and>
     os (wsys w') = snd (sys_write K (wakeupFd el) one_bytes (os (wsys w)))"
proof -
  obtain n e k' where "sys_write K (wakeupFd el) one_bytes (os (wsys w)) = ((n, e), k')"
    by (metis prod.exhaust)
  then show ?thesis using assms by (simp add: wakeup_def Let_def)
qed

lemma queueInLoop_ok:
  assumes el: "loops w l = Some el"
  shows "\<exists>w'. queueInLoop K l t w = Inr w' \<and>
     loops w' = (loops w)(l \<mapsto> el\<lparr>pendingFunctors := pendingFunctors el @ [t]\<rparr>) \<and>
     chans w' = chans w \<and> world.more w' = world.more w \<and> cur_thread w' = cur_thread w \<and>
     cachedTid w' = cachedTid w \<and>
     os (wsys w') = (if \<not> isInLoopThread el w \<or> callingPendingFunctors el
                     then snd (sys_write K (wakeupFd el) one_bytes (os (wsys w))) else os (wsys w))"
proof (cases "\<not> isInLoopThread el w \<or> callingPendingFunctors el")
  case True
  let ?el = "el\<lparr>pendingFunctors := pendingFunctors el @ [t]\<rparr>"
  have "loops (put_loop l ?el w) l = Some ?el" by simp
  from wakeup_ok [OF this, of K] True el show ?thesis
    by (auto simp: queueInLoop_def Let_def)
next
  case False
  with el show ?thesis by (simp add: queueInLoop_def Let_def)
qed

text \<open>A request on a channel of a loop with a poller is the poller's request, put back.\<close>

lemma Channel_request_eq:
  assumes "chans w i = Some c" and "loops w (ch_loop c) = Some el" and "loop_poller el = Some p"
  shows "Channel_request K r i w =
     bind_r (poller_request K r i (chans w, p, wsys w)) (\<lambda>(cs, p', \<sigma>').
       Inr (put_loop (ch_loop c) (el\<lparr>loop_poller := Some p'\<rparr>) (w\<lparr>chans := cs, wsys := \<sigma>'\<rparr>)))"
  using assms
  by (simp add: Channel_request_def Channel_update_def loop_updateChannel_def lift_poller_def put_chan_def
      del: EPollPoller_updateChannel.simps)

lemma Channel_remove_eq:
  assumes "chans w i = Some c" and "loops w (ch_loop c) = Some el" and "loop_poller el = Some p"
  shows "Channel_remove K i w =
     bind_r (EPollPoller_removeChannel K i (chans w, p, wsys w)) (\<lambda>(cs, p', \<sigma>').
       Inr (put_loop (ch_loop c) (el\<lparr>loop_poller := Some p'\<rparr>) (w\<lparr>chans := cs, wsys := \<sigma>'\<rparr>)))"
  using assms
  by (simp add: Channel_remove_def loop_removeChannel_def lift_poller_def del: EPollPoller_removeChannel.simps)

fun iters :: "('w \<Rightarrow> 'w res) \<Rightarrow> nat \<Rightarrow> 'w \<Rightarrow> 'w res" where
  "iters f 0 w = Inr w"
| "iters f (Suc n) w = bind_r (f w) (iters f n)"

lemma loop_while_returns:
  assumes "\<forall>m < n. \<exists>v e. iters (loop_iter K disp alive run l) m w = Inr v \<and> loops v l = Some e \<and> \<not> loop_quit e"
    and "iters (loop_iter K disp alive run l) n w = Inr v" and "loops v l = Some e" and "loop_quit e"
  shows "loop_while K disp alive run l w = Some (Inr v)"
  using assms
proof (induction n arbitrary: w)
  case 0
  then show ?case by (simp add: loop_while.simps)
next
  case (Suc n)
  from Suc.prems(2) obtain w1 where w1: "loop_iter K disp alive run l w = Inr w1"
    and rest: "iters (loop_iter K disp alive run l) n w1 = Inr v"
    by (auto simp: bind_r_Inr_iff)
  from Suc.prems(1) obtain el where el: "loops w l = Some el" "\<not> loop_quit el"
    by (metis iters.simps(1) sum.inject(2) zero_less_Suc)
  have "\<forall>m < n. \<exists>v e. iters (loop_iter K disp alive run l) m w1 = Inr v \<and> loops v l = Some e \<and> \<not> loop_quit e"
  proof (intro allI impI)
    fix m assume "m < n"
    then have "Suc m < Suc n" by simp
    from Suc.prems(1) [rule_format, OF this] w1
    show "\<exists>v e. iters (loop_iter K disp alive run l) m w1 = Inr v \<and> loops v l = Some e \<and> \<not> loop_quit e"
      by simp
  qed
  from Suc.IH [OF this rest Suc.prems(3,4)] el w1 show ?case
    by (simp add: loop_while.simps)
qed

text \<open>A loop whose passes keep an invariant that says \<^verbatim>\<open>quit_\<close> is not set ends only with a pass that does not return.\<close>

lemma loop_while_ends:
  assumes "loop_while K disp alive run l w = Some r"
    "\<And>w. P w \<Longrightarrow> (\<exists>e. E e \<and> loop_iter K disp alive run l w = Inl e) \<or> (\<exists>w'. P w' \<and> loop_iter K disp alive run l w = Inr w')"
    "\<And>w. P w \<Longrightarrow> \<exists>el. loops w l = Some el \<and> \<not> loop_quit el" "P w"
  shows "\<exists>e. r = Inl e \<and> E e"
proof -
  let ?G = "\<lambda>K disp alive run l w r. (\<forall>w. P w \<longrightarrow>
       (\<exists>e. E e \<and> loop_iter K disp alive run l w = Inl e) \<or> (\<exists>w'. P w' \<and> loop_iter K disp alive run l w = Inr w')) \<longrightarrow>
     (\<forall>w. P w \<longrightarrow> (\<exists>el. loops w l = Some el \<and> \<not> loop_quit el)) \<longrightarrow> P w \<longrightarrow> (\<exists>e. r = Inl e \<and> E e)"
  have "?G K disp alive run l w r"
  proof (rule loop_while.raw_induct [where P = ?G, OF _ assms(1)], intro impI)
    fix lw K disp alive run l w r
    assume IH: "\<And>K disp alive run l w r. lw K disp alive run l w = Some r \<Longrightarrow> ?G K disp alive run l w r"
      and r: "(case loops w l of None \<Rightarrow> Some (Inl Null_Deref)
        | Some el \<Rightarrow> if loop_quit el then Some (Inr w)
            else (case loop_iter K disp alive run l w of Inl e \<Rightarrow> Some (Inl e) | Inr w' \<Rightarrow> lw K disp alive run l w')) = Some r"
      and A: "\<forall>w. P w \<longrightarrow> (\<exists>e. E e \<and> loop_iter K disp alive run l w = Inl e) \<or>
          (\<exists>w'. P w' \<and> loop_iter K disp alive run l w = Inr w')"
        "\<forall>w. P w \<longrightarrow> (\<exists>el. loops w l = Some el \<and> \<not> loop_quit el)" "P w"
    obtain el where el: "loops w l = Some el" "\<not> loop_quit el" using A by blast
    from A(1) A(3) consider e where "E e" "loop_iter K disp alive run l w = Inl e"
      | w' where "P w'" "loop_iter K disp alive run l w = Inr w'" by blast
    then show "\<exists>e. r = Inl e \<and> E e"
    proof cases
      case (1 e)
      then have "Inl e = r" using r el by simp
      then show ?thesis using 1(1) by blast
    next
      case (2 w')
      then have "lw K disp alive run l w' = Some r" using r el by simp
      then show ?thesis using IH A(1,2) 2(1) by blast
    qed
  qed
  then show ?thesis using assms(2-4) by blast
qed

section \<open>Well-formed loops\<close>

text \<open>
  A loop with a poller that is well formed and agrees with the kernel. \<open>interest\<close> reads the interest
  list of an epoll instance from the kernel state.
\<close>

definition loop_ok :: "(fd \<Rightarrow> 'k \<Rightarrow> interest_list) \<Rightarrow> loop_id \<Rightarrow> ('k, 'm) world_scheme \<Rightarrow> bool" where
  "loop_ok interest l w \<longleftrightarrow>
     (\<exists>el p. loops w l = Some el \<and> loop_poller el = Some p \<and> ownerLoop p = l \<and>
        poller_wf (chans w, p, wsys w) \<and> interest_wf interest (chans w, p, wsys w))"

lemma loop_okE:
  assumes "loop_ok interest l w"
  obtains el p where "loops w l = Some el" "loop_poller el = Some p" "ownerLoop p = l"
    "poller_wf (chans w, p, wsys w)" "interest_wf interest (chans w, p, wsys w)"
  using assms unfolding loop_ok_def by blast

lemma loop_ok_cong:
  assumes "loop_ok interest l w" and "chans w' = chans w"
    and "\<And>ep. interest ep (os (wsys w')) = interest ep (os (wsys w))"
    and "map_option loop_poller (loops w' l) = map_option loop_poller (loops w l)"
  shows "loop_ok interest l w'"
proof -
  from assms(1) obtain el p where el: "loops w l = Some el" "loop_poller el = Some p" "ownerLoop p = l"
    "poller_wf (chans w, p, wsys w)" "interest_wf interest (chans w, p, wsys w)"
    by (rule loop_okE)
  from assms(4) el(1,2) obtain el' where "loops w' l = Some el'" "loop_poller el' = Some p"
    by (cases "loops w' l") auto
  with el assms(2,3) show ?thesis by (auto simp: loop_ok_def)
qed

lemma poller_request_owner:
  "poller_request K r i (cs, p, \<sigma>) = Inr (cs', p', \<sigma>') \<Longrightarrow> ownerLoop p' = ownerLoop p"
  by (auto simp: bind_r_Inr_iff Let_def split: option.splits if_splits)

lemma removeChannel_owner:
  "EPollPoller_removeChannel K i (cs, p, \<sigma>) = Inr (cs', p', \<sigma>') \<Longrightarrow> ownerLoop p' = ownerLoop p"
  by (auto simp: bind_r_Inr_iff split: option.splits if_splits)

lemma poller_request_chan:
  assumes "poller_request K r i (cs, p, \<sigma>) = Inr (cs', p', \<sigma>')" and "cs i = Some c"
  shows "\<exists>n. cs' = cs(i \<mapsto> set_index n (request r c))"
proof -
  have "set_index (ch_index c) (request r c) = request r c" by (simp add: set_index_def request_def)
  moreover have "cs' = cs(i \<mapsto> set_index kAdded (request r c)) \<or> cs' = cs(i \<mapsto> request r c)"
    using assms by (auto simp: bind_r_Inr_iff Let_def split: if_splits)
  ultimately show ?thesis by metis
qed

text \<open>What a request changes: the channel's events and index, the poller, the system.\<close>

lemma Channel_request_step:
  assumes K: "epoll_ctl_contract K interest" and ok: "loop_ok interest (ch_loop c) w"
    and c: "chans w i = Some c" and req: "Channel_request K r i w = Inr w'"
  shows "loop_ok interest (ch_loop c) w' \<and>
     (\<exists>n. chans w' = (chans w)(i \<mapsto> set_index n (request r c))) \<and>
     (\<exists>el p. loops w (ch_loop c) = Some el \<and>
        loops w' = (loops w)(ch_loop c \<mapsto> el\<lparr>loop_poller := Some p\<rparr>)) \<and>
     world.more w' = world.more w \<and> cur_thread w' = cur_thread w \<and> cachedTid w' = cachedTid w"
proof -
  from ok obtain el p where el: "loops w (ch_loop c) = Some el" "loop_poller el = Some p"
    and own: "ownerLoop p = ch_loop c" and wf: "poller_wf (chans w, p, wsys w)"
    and iw: "interest_wf interest (chans w, p, wsys w)"
    by (rule loop_okE)
  have oc: "owned (chans w) (ownerLoop p) i c" using c own by (simp add: owned_def)
  from req obtain cs' p' \<sigma>' where pr: "poller_request K r i (chans w, p, wsys w) = Inr (cs', p', \<sigma>')"
    and w': "w' = put_loop (ch_loop c) (el\<lparr>loop_poller := Some p'\<rparr>) (w\<lparr>chans := cs', wsys := \<sigma>'\<rparr>)"
    unfolding Channel_request_eq [OF c el] by (auto simp: bind_r_Inr_iff)
  have "loop_ok interest (ch_loop c) w'"
    using request_interest_wf [OF K wf iw oc pr] poller_request_owner [OF pr] own
    unfolding loop_ok_def w' by simp
  moreover obtain n where "cs' = (chans w)(i \<mapsto> set_index n (request r c))"
    using poller_request_chan [OF pr c] by blast
  ultimately show ?thesis using el unfolding w' by auto
qed

lemma Channel_remove_step:
  assumes K: "epoll_ctl_contract K interest" and ok: "loop_ok interest (ch_loop c) w"
    and c: "chans w i = Some c"
  shows "\<exists>w'. Channel_remove K i w = Inr w' \<and> loop_ok interest (ch_loop c) w' \<and>
     loop_hasChannel (ch_loop c) i w' = Inr False \<and>
     (\<exists>el p. loops w (ch_loop c) = Some el \<and>
        loops w' = (loops w)(ch_loop c \<mapsto> el\<lparr>loop_poller := Some p\<rparr>)) \<and>
     world.more w' = world.more w \<and> cur_thread w' = cur_thread w \<and> cachedTid w' = cachedTid w"
proof -
  from ok obtain el p where el: "loops w (ch_loop c) = Some el" "loop_poller el = Some p"
    and own: "ownerLoop p = ch_loop c" and wf: "poller_wf (chans w, p, wsys w)"
    and iw: "interest_wf interest (chans w, p, wsys w)"
    by (rule loop_okE)
  have oc: "owned (chans w) (ownerLoop p) i c" using c own by (simp add: owned_def)
  obtain \<sigma>1 where "ep_update K EPOLL_CTL_DEL i c p (wsys w) = Inr \<sigma>1" using ep_update_del by blast
  then obtain cs' p' \<sigma>' where rm: "EPollPoller_removeChannel K i (chans w, p, wsys w) = Inr (cs', p', \<sigma>')"
    using c by (cases "ch_index c = kAdded") auto
  have po: "poller_owns i (chans w, p, wsys w)" using oc unfolding poller_owns.simps by blast
  note has = remove_has [OF wf po po rm]
  note wf' = remove_interest_wf [OF K wf iw oc rm]
  show ?thesis
    unfolding Channel_remove_eq [OF c el] rm
    using wf' removeChannel_owner [OF rm] own has el
    by (auto simp: loop_ok_def loop_hasChannel_def simp del: Poller_hasChannel.simps)
qed

lemma loop_ok_put_chan:
  assumes ok: "loop_ok interest l w" and c: "chans w i = Some c"
    and same: "ch_loop d = ch_loop c" "ch_fd d = ch_fd c" "ch_index d = ch_index c" "ch_events d = ch_events c"
  shows "loop_ok interest l (put_chan i d w)"
proof -
  from ok obtain el p where el: "loops w l = Some el" "loop_poller el = Some p" "ownerLoop p = l"
    and wf: "poller_wf (chans w, p, wsys w)" and iw: "interest_wf interest (chans w, p, wsys w)"
    by (rule loop_okE)
  have own: "owned ((chans w)(i \<mapsto> d)) l' j e \<longleftrightarrow>
      (if j = i then e = d \<and> owned (chans w) l' i c else owned (chans w) l' j e)" for l' j e
    using c same(1) by (auto simp: owned_def)
  have "fds_distinct ((chans w)(i \<mapsto> d)) l" "index_wf ((chans w)(i \<mapsto> d)) p"
    using wf el(3) same(2,3) unfolding poller_wf.simps fds_distinct_def index_wf_def own by (metis, metis)
  moreover have "map_wf ((chans w)(i \<mapsto> d)) p"
    unfolding map_wf_def own
  proof (intro allI impI)
    fix f j assume "po_channels p f = Some j"
    with wf obtain e where e: "owned (chans w) (ownerLoop p) j e" "ch_fd e = f"
      unfolding poller_wf.simps map_wf_def by blast
    then have "j = i \<Longrightarrow> e = c" using c by (simp add: owned_def)
    with e same(2) show "\<exists>e. (if j = i then e = d \<and> owned (chans w) (ownerLoop p) i c
        else owned (chans w) (ownerLoop p) j e) \<and> ch_fd e = f" by auto
  qed
  moreover have "chan_synced il i d = chan_synced il i c" for il
    using same by (simp add: chan_synced_def isNoneEvent_def)
  then have "interest_wf interest ((chans w)(i \<mapsto> d), p, wsys w)"
    using iw unfolding interest_wf.simps own by auto
  ultimately show ?thesis using el unfolding loop_ok_def by simp
qed

text \<open>A new channel on a descriptor the loop and the kernel do not know yet.\<close>

lemma loop_ok_new_chan:
  assumes ok: "loop_ok interest l w" and new: "chans w i = None" and d: "ch_loop d = l" "ch_index d = kNew"
    and fd: "\<forall>j e. owned (chans w) l j e \<longrightarrow> ch_fd e \<noteq> ch_fd d"
    and il: "\<forall>el p. loops w l = Some el \<and> loop_poller el = Some p \<longrightarrow>
      interest (epollfd p) (os (wsys w)) (ch_fd d) = None"
  shows "loop_ok interest l (put_chan i d w)"
proof -
  from ok obtain el p where el: "loops w l = Some el" "loop_poller el = Some p" "ownerLoop p = l"
    and wf: "poller_wf (chans w, p, wsys w)" and iw: "interest_wf interest (chans w, p, wsys w)"
    by (rule loop_okE)
  have own: "owned ((chans w)(i \<mapsto> d)) l j e \<longleftrightarrow> (if j = i then e = d else owned (chans w) l j e)" for j e
    using d(1) by (auto simp: owned_def)
  have old: "owned (chans w) l j e \<Longrightarrow> j \<noteq> i" for j e using new by (auto simp: owned_def)
  have none: "po_channels p (ch_fd d) = None"
    using wf el(3) fd unfolding poller_wf.simps map_wf_def by (metis not_Some_eq)
  have "fds_distinct ((chans w)(i \<mapsto> d)) l"
    using wf el(3) fd unfolding poller_wf.simps fds_distinct_def own by metis
  moreover have "index_wf ((chans w)(i \<mapsto> d)) p"
    using wf el(3) d(2) none unfolding poller_wf.simps index_wf_def el(3) own by metis
  moreover have "map_wf ((chans w)(i \<mapsto> d)) p"
    using wf el(3) old unfolding poller_wf.simps map_wf_def el(3) own by metis
  moreover have "chan_synced (interest (epollfd p) (os (wsys w))) i d"
    using il el d(2) by (simp add: chan_synced_def)
  then have "interest_wf interest ((chans w)(i \<mapsto> d), p, wsys w)"
    using iw el(3) unfolding interest_wf.simps el(3) own by auto
  ultimately show ?thesis using el unfolding loop_ok_def by simp
qed

text \<open>The events the kernel watches a channel's descriptor for, in the epoll instance of its loop.\<close>

definition watched :: "(fd \<Rightarrow> 'k \<Rightarrow> interest_list) \<Rightarrow> chan_id \<Rightarrow> ('k, 'm) world_scheme \<Rightarrow> c_int option" where
  "watched interest i w =
     Option.bind (chans w i) (\<lambda>c. Option.bind (loops w (ch_loop c)) (\<lambda>el.
       Option.bind (loop_poller el) (\<lambda>p.
         map_option ev_events (interest (epollfd p) (os (wsys w)) (ch_fd c)))))"

lemma watched_put_loop:
  "loops w l = Some el \<Longrightarrow> loop_poller el' = loop_poller el \<Longrightarrow>
     watched interest i (put_loop l el' w) = watched interest i w"
  by (cases "chans w i") (auto simp: watched_def put_loop_def)

lemma watched_eq:
  assumes "loop_ok interest (ch_loop c) w" and "chans w i = Some c"
  shows "ch_index c \<noteq> kNew \<Longrightarrow> ch_events c \<noteq> 0 \<Longrightarrow> watched interest i w = Some (ch_events c)"
    and "ch_index c = kNew \<Longrightarrow> watched interest i w = None"
    and "ch_events c = 0 \<Longrightarrow> watched interest i w \<in> {None, Some 0}"
proof -
  from assms(1) obtain el p where el: "loops w (ch_loop c) = Some el" "loop_poller el = Some p"
    and own: "ownerLoop p = ch_loop c" and iw: "interest_wf interest (chans w, p, wsys w)"
    by (rule loop_okE)
  have "chan_synced (interest (epollfd p) (os (wsys w))) i c"
    using iw assms(2) own by (simp add: owned_def)
  then show "ch_index c \<noteq> kNew \<Longrightarrow> ch_events c \<noteq> 0 \<Longrightarrow> watched interest i w = Some (ch_events c)"
    and "ch_index c = kNew \<Longrightarrow> watched interest i w = None"
    and "ch_events c = 0 \<Longrightarrow> watched interest i w \<in> {None, Some 0}"
    using el assms(2)
    by (auto simp: watched_def chan_synced_def isNoneEvent_def kNoneEvent_def split: if_splits)
qed

lemma poller_request_index:
  assumes "poller_request K r i (cs, p, \<sigma>) = Inr (cs', p', \<sigma>')" and "cs i = Some c"
  shows "\<exists>n. n \<noteq> kNew \<and> cs' = cs(i \<mapsto> set_index n (request r c))"
proof -
  have "set_index (ch_index c) (request r c) = request r c" by (simp add: set_index_def request_def)
  moreover have "cs' = cs(i \<mapsto> set_index kAdded (request r c)) \<or>
      (ch_index c \<noteq> kNew \<and> cs' = cs(i \<mapsto> request r c))"
    using assms by (auto simp: bind_r_Inr_iff Let_def split: if_splits)
  ultimately show ?thesis by (metis index_consts(1))
qed

lemma poller_request_sent:
  assumes S: "stream_contract K sent" and pr: "poller_request K r i (cs, p, \<sigma>) = Inr (cs', p', \<sigma>')"
  shows "sent g (os \<sigma>') = sent g (os \<sigma>)"
proof -
  have ep: "sent g (os \<sigma>2) = sent g (os \<sigma>1)" if "ep_update K op i c q \<sigma>1 = Inr \<sigma>2" for op c q \<sigma>1 \<sigma>2
    using that stream_otherD(1) [OF S, of g "epollfd q" op "ch_fd c" "\<lparr>ev_events = ch_events c, ev_ptr = i\<rparr>" "os \<sigma>1"]
    by (auto simp: ep_update_def Let_def split: prod.splits if_splits)
  from pr show ?thesis
    by (auto simp: bind_r_Inr_iff Let_def split: option.splits if_splits dest: ep)
qed

text \<open>
  A request on a channel that is not registered yet, or that is watched, or that disables everything,
  returns on a kernel with the resources.
\<close>

lemma Channel_request_returns:
  assumes K: "epoll_ctl_contract K interest" and G: "epoll_ctl_grants K interest"
    and ok: "loop_ok interest (ch_loop c) w" and c: "chans w i = Some c"
    and pre: "ch_index c = kNew \<or> ch_events c \<noteq> 0 \<or> request_events r (ch_events c) = 0"
  shows "\<exists>w'. Channel_request K r i w = Inr w'"
proof -
  from ok obtain el p where el: "loops w (ch_loop c) = Some el" "loop_poller el = Some p"
    and own: "ownerLoop p = ch_loop c" and wf: "poller_wf (chans w, p, wsys w)"
    and iw: "interest_wf interest (chans w, p, wsys w)"
    by (rule loop_okE)
  have sync: "chan_synced (interest (epollfd p) (os (wsys w))) i c"
    using iw c own by (simp add: owned_def)
  have idx: "ch_index c = kNew \<or> ch_index c = kAdded"
    using wf c own by (auto simp: index_wf_def owned_def)
  have upd: "\<exists>\<sigma>'. ep_update K op i d q (wsys w) = Inr \<sigma>'"
    if "ctl_applicable op (ch_fd d) (interest (epollfd q) (os (wsys w)))" for op d q
    using epoll_ctl_grantsD [OF G that, of "\<lparr>ev_events = ch_events d, ev_ptr = i\<rparr>"]
    by (auto simp: ep_update_def Let_def split: prod.splits)
  have "\<exists>q. poller_request K r i (chans w, p, wsys w) = Inr q"
  proof (cases "ch_index c = kNew")
    case True
    then have "ctl_applicable EPOLL_CTL_ADD (ch_fd c) (interest (epollfd p) (os (wsys w)))"
      using sync by (simp add: chan_synced_def ctl_applicable_def)
    with upd [of EPOLL_CTL_ADD "set_index kAdded (request r c)" "p\<lparr>po_channels := (po_channels p)(ch_fd c \<mapsto> i)\<rparr>"]
      True c show ?thesis by (auto simp: Let_def)
  next
    case False
    with idx have added: "ch_index c = kAdded" by blast
    show ?thesis
    proof (cases "request_events r (ch_events c) = 0")
      case True
      then show ?thesis using ep_update_del [of K i "request r c" p "wsys w"] added c
        by (auto simp: isNoneEvent_def kNoneEvent_def)
    next
      case nz: False
      with pre False have "ch_events c \<noteq> 0" by blast
      then have "ctl_applicable EPOLL_CTL_MOD (ch_fd c) (interest (epollfd p) (os (wsys w)))"
        using sync False by (auto simp: chan_synced_def ctl_applicable_def isNoneEvent_def kNoneEvent_def)
      with upd [of EPOLL_CTL_MOD "request r c" p] added c nz show ?thesis
        by (auto simp: isNoneEvent_def kNoneEvent_def)
    qed
  qed
  then show ?thesis unfolding Channel_request_eq [OF c el] by auto
qed

text \<open>
  On any kernel, such a request returns or ends in the \<^verbatim>\<open>LOG_FATAL\<close> of a refused epoll_ctl, and one that disables
  everything on a registered channel returns.
\<close>

lemma ep_update_Inl: "ep_update K op i c p \<sigma> = Inl e \<Longrightarrow> e = Exit_Fatal \<and> op \<noteq> EPOLL_CTL_DEL"
  by (auto simp: ep_update_def Let_def split: prod.splits if_splits)

lemma Channel_request_result:
  assumes K: "epoll_ctl_contract K interest" and ok: "loop_ok interest (ch_loop c) w" and c: "chans w i = Some c"
    and pre: "ch_index c = kNew \<or> ch_events c \<noteq> 0 \<or> request_events r (ch_events c) = 0"
  obtains w' where "Channel_request K r i w = Inr w'"
  | "Channel_request K r i w = Inl Exit_Fatal" "\<not> epoll_ctl_grants K interest"
      "\<not> (ch_index c \<noteq> kNew \<and> request_events r (ch_events c) = 0)"
proof (cases "Channel_request K r i w")
  case (Inr w')
  then show thesis by (rule that(1))
next
  case (Inl e)
  from ok obtain el p where el: "loops w (ch_loop c) = Some el" "loop_poller el = Some p"
    and own: "ownerLoop p = ch_loop c" and wf: "poller_wf (chans w, p, wsys w)" by (rule loop_okE)
  from Inl have pr: "poller_request K r i (chans w, p, wsys w) = Inl e"
    unfolding Channel_request_eq [OF c el] by (auto simp: bind_r_Inl_iff)
  have "ch_index c = kNew \<or> ch_index c = kAdded" using wf c own by (auto simp: index_wf_def owned_def)
  with pr c have "e = Exit_Fatal \<and> \<not> (ch_index c \<noteq> kNew \<and> request_events r (ch_events c) = 0)"
    by (auto simp: Let_def bind_r_Inl_iff isNoneEvent_def kNoneEvent_def dest: ep_update_Inl split: if_splits)
  moreover have "\<not> epoll_ctl_grants K interest" using Channel_request_returns [OF K _ ok c pre] Inl by auto
  ultimately show thesis using that(2) Inl by blast
qed

text \<open>All a request that returns does, in the terms the components above the loop use.\<close>

lemma Channel_request_effect:
  assumes K: "epoll_ctl_contract K interest" and ok: "loop_ok interest (ch_loop c) w"
    and c: "chans w i = Some c" and req: "Channel_request K r i w = Inr w'"
  shows "loop_ok interest (ch_loop c) w'"
    and "\<exists>n. n \<noteq> kNew \<and> chans w' = (chans w)(i \<mapsto> set_index n (request r c))"
    and "\<exists>el p. loops w (ch_loop c) = Some el \<and> loops w' = (loops w)(ch_loop c \<mapsto> el\<lparr>loop_poller := Some p\<rparr>)"
    and "world.more w' = world.more w" "cur_thread w' = cur_thread w" "cachedTid w' = cachedTid w"
    and "stream_contract K sent \<Longrightarrow> sent g (os (wsys w')) = sent g (os (wsys w))"
proof -
  note step = Channel_request_step [OF K ok c req]
  then show "loop_ok interest (ch_loop c) w'"
    and "\<exists>el p. loops w (ch_loop c) = Some el \<and> loops w' = (loops w)(ch_loop c \<mapsto> el\<lparr>loop_poller := Some p\<rparr>)"
    and "world.more w' = world.more w" "cur_thread w' = cur_thread w" "cachedTid w' = cachedTid w"
    by blast+
  from ok obtain el p where el: "loops w (ch_loop c) = Some el" "loop_poller el = Some p"
    by (rule loop_okE)
  from req obtain cs' p' \<sigma>' where pr: "poller_request K r i (chans w, p, wsys w) = Inr (cs', p', \<sigma>')"
    and w': "w' = put_loop (ch_loop c) (el\<lparr>loop_poller := Some p'\<rparr>) (w\<lparr>chans := cs', wsys := \<sigma>'\<rparr>)"
    unfolding Channel_request_eq [OF c el] by (auto simp: bind_r_Inr_iff)
  show "\<exists>n. n \<noteq> kNew \<and> chans w' = (chans w)(i \<mapsto> set_index n (request r c))"
    using poller_request_index [OF pr c] w' by simp
  show "stream_contract K sent \<Longrightarrow> sent g (os (wsys w')) = sent g (os (wsys w))"
    using poller_request_sent [OF _ pr, of sent g] w' by simp
qed

lemma mk_EventLoop_eq:
  assumes "sys_eventfd K (os (wsys w)) = ((f, e1), k1)" and "0 \<le> f"
    and "sys_epoll_create1 K k1 = ((ep, e2), k2)" and "0 \<le> ep"
    and "loopInThread w (cur_thread w) = None"
  shows "\<exists>el p w3. mk_EventLoop K False l ch w = Channel_request K EnableReading ch w3 \<and>
     loops w3 = (loops w)(l \<mapsto> el) \<and> loop_poller el = Some p \<and> ownerLoop p = l \<and> epollfd p = ep \<and>
     po_channels p = (\<lambda>_. None) \<and>
     chans w3 = (chans w)(ch \<mapsto> setReadCallback (LoopHandleRead l) (mk_Channel l f)) \<and>
     os (wsys w3) = k2 \<and> loopInThread w3 = (loopInThread w)(cur_thread w \<mapsto> l) \<and>
     pendingFunctors el = [] \<and> \<not> callingPendingFunctors el \<and> threadId el = tid_of w \<and>
     cur_thread w3 = cur_thread w"
proof -
  let ?p = "\<lparr>ownerLoop = l, po_channels = (\<lambda>_. None), epollfd = ep,
      po_events = replicate kInitEventListSize zero_event\<rparr>"
  let ?el = "\<lparr>looping = False, loop_quit = False, threadId = tid_of w, wakeupFd = f, wakeupChannel = ch,
      pollReturnTime = Timestamp_zero, loop_poller = Some ?p, activeChannels = [],
      callingPendingFunctors = False, pendingFunctors = []\<rparr>"
  let ?w1 = "put_loop l ?el (put_chan ch (mk_Channel l f) (put_sys ((wsys w)\<lparr>os := k2\<rparr>) w))"
  let ?w3 = "put_chan ch (setReadCallback (LoopHandleRead l) (mk_Channel l f))
      (?w1\<lparr>loopInThread := (loopInThread w)(cur_thread w \<mapsto> l)\<rparr>)"
  have "mk_EventLoop K False l ch w = Channel_request K EnableReading ch ?w3"
    using assms by (simp add: mk_EventLoop_def createEventfd_def newDefaultPoller_def mk_EPollPoller_def Let_def)
  then show ?thesis by (intro exI [of _ ?el] exI [of _ ?p] exI [of _ ?w3]) simp
qed

lemma mk_EventLoop_returns:
  assumes G: "epoll_ctl_grants K interest" "loop_grants K" "epoll_create_contract K interest"
    and thr: "loopInThread w (cur_thread w) = None"
  shows "\<exists>w' el. mk_EventLoop K False l ch w = Inr w' \<and> cur_thread w' = cur_thread w \<and>
     loopInThread w' = (loopInThread w)(cur_thread w \<mapsto> l) \<and> loops w' = (loops w)(l \<mapsto> el)"
proof -
  obtain f e1 k1 where f: "sys_eventfd K (os (wsys w)) = ((f, e1), k1)" by (metis prod.exhaust)
  obtain ep e2 k2 where ep: "sys_epoll_create1 K k1 = ((ep, e2), k2)" by (metis prod.exhaust)
  have "0 \<le> f" "0 \<le> ep" "interest ep k2 = (\<lambda>_. None)"
    using loop_grantsD [OF G(2)] epoll_createD [OF G(3) ep] f ep by blast+
  note pos = this
  let ?c = "setReadCallback (LoopHandleRead l) (mk_Channel l f)"
  obtain el p w3 where mk: "mk_EventLoop K False l ch w = Channel_request K EnableReading ch w3"
    and w3: "loops w3 = (loops w)(l \<mapsto> el)" "loop_poller el = Some p" "epollfd p = ep"
      "chans w3 = (chans w)(ch \<mapsto> ?c)" "os (wsys w3) = k2" "cur_thread w3 = cur_thread w"
      "loopInThread w3 = (loopInThread w)(cur_thread w \<mapsto> l)"
    using mk_EventLoop_eq [OF f pos(1) ep pos(2) thr, of l ch] by blast
  have cf: "ch_loop ?c = l" "ch_fd ?c = f" "ch_index ?c = kNew" "ch_events ?c = 0"
    by (simp_all add: setReadCallback_def mk_Channel_def kNew_def)
  have chw3: "chans w3 ch = Some ?c" and el3: "loops w3 (ch_loop ?c) = Some el" using w3 cf by simp_all
  have "ctl_applicable EPOLL_CTL_ADD f (interest ep k2)" using pos(3) by (simp add: ctl_applicable_def)
  note ctl = epoll_ctl_grantsD [OF G(1) this, of "\<lparr>ev_events = kReadEvent, ev_ptr = ch\<rparr>"]
  obtain r e k3 where call: "sys_epoll_ctl K ep EPOLL_CTL_ADD f \<lparr>ev_events = kReadEvent, ev_ptr = ch\<rparr> k2 = ((r, e), k3)"
    by (metis prod.exhaust)
  have "\<exists>cs' p' \<sigma>'. poller_request K EnableReading ch (chans w3, p, wsys w3) = Inr (cs', p', \<sigma>')"
    using chw3 cf call ctl w3(3,5) by (simp add: Let_def ep_update_def)
  then show ?thesis using mk w3(1,6,7) cf(1) unfolding Channel_request_eq [OF chw3 el3 w3(2)] by auto
qed

definition demo_loop :: event_loop where
  "demo_loop = \<lparr>looping = True, loop_quit = False, threadId = 7, wakeupFd = 4, wakeupChannel = 0,
     pollReturnTime = Timestamp_zero, loop_poller = Some demo_poller, activeChannels = [],
     callingPendingFunctors = False, pendingFunctors = [UserTask 1]\<rparr>"

definition demo_world :: "sim world" where
  "demo_world = \<lparr>wsys = \<lparr>os = sim0, logs = []\<rparr>, chans = (\<lambda>_. None), loops = (\<lambda>_. None)(0 \<mapsto> demo_loop),
     cachedTid = (\<lambda>_. 0), cur_thread = 7, loopInThread = (\<lambda>_. None), numCreated = 0\<rparr>"

section \<open>Properties\<close>

text \<open>
  C24. \<^verbatim>\<open>queueInLoop\<close> always returns; it puts the functor behind those already pending, changes nothing
  else of any loop, and writes to the loop's eventfd exactly when the caller is another thread or the
  loop is running its pending functors.
\<close>

theorem queueInLoop_spec:
  assumes "loops w l = Some el"
  shows "\<exists>w'. queueInLoop K l t w = Inr w' \<and>
     loops w' = (loops w)(l \<mapsto> el\<lparr>pendingFunctors := pendingFunctors el @ [t]\<rparr>) \<and> chans w' = chans w \<and>
     os (wsys w') = (if threadId el \<noteq> tid_of w \<or> callingPendingFunctors el
                     then snd (sys_write K (wakeupFd el) one_bytes (os (wsys w))) else os (wsys w))"
  using queueInLoop_ok [OF assms, of K t] by (auto simp: isInLoopThread_def)

theorem queueInLoop_spec_witness:
  "\<exists>w'. queueInLoop sim_kernel 0 (UserTask 2) (demo_world\<lparr>cur_thread := 8\<rparr>) = Inr w' \<and>
     map_option pendingFunctors (loops w' 0) = Some [UserTask 1, UserTask 2] \<and>
     os (wsys w') = snd (sys_write sim_kernel 4 one_bytes sim0)"
proof -
  have "loops (demo_world\<lparr>cur_thread := 8\<rparr>) 0 = Some demo_loop" by (simp add: demo_world_def)
  from queueInLoop_spec [OF this, of sim_kernel "UserTask 2"] show ?thesis
    by (auto simp: demo_world_def demo_loop_def tid_of_def cacheTid_def Let_def)
qed

text \<open>
  C29. \<^verbatim>\<open>loop()\<close> ends: if every pass returns and \<^verbatim>\<open>quit_\<close> is first seen set after \<open>n\<close> passes, \<^verbatim>\<open>loop()\<close>
  returns after exactly these passes, with \<^verbatim>\<open>looping_\<close> cleared; a \<^verbatim>\<open>quit_\<close> set before the call does not
  count, since the first thing \<^verbatim>\<open>loop()\<close> does is to clear it.
\<close>

theorem EventLoop_loop_returns:
  assumes "loops w l = Some el"
    and "\<forall>m < n. \<exists>v e. iters (loop_iter K disp alive run l) m
            (put_loop l (el\<lparr>looping := True, loop_quit := False\<rparr>) w) = Inr v \<and>
          loops v l = Some e \<and> \<not> loop_quit e"
    and "iters (loop_iter K disp alive run l) n
            (put_loop l (el\<lparr>looping := True, loop_quit := False\<rparr>) w) = Inr v"
    and "loops v l = Some e" and "loop_quit e"
  shows "EventLoop_loop K disp alive run l w = Some (Inr (put_loop l (e\<lparr>looping := False\<rparr>) v))"
proof -
  have "loop_while K disp alive run l (put_loop l (el\<lparr>looping := True, loop_quit := False\<rparr>) w) = Some (Inr v)"
    by (rule loop_while_returns [OF assms(2-5)])
  then show ?thesis using assms(1,4) by (simp add: EventLoop_loop_def)
qed

theorem EventLoop_loop_returns_witness:
  "\<exists>w'. EventLoop_loop sim_kernel (\<lambda>_ _. Inr) (\<lambda>_ _. True) (\<lambda>t. loop_quit_op sim_kernel 0) 0 demo_world =
     Some (Inr w') \<and> map_option looping (loops w' 0) = Some False"
proof -
  let ?disp = "\<lambda>_ _. Inr :: sim world \<Rightarrow> sim world res"
  let ?run = "\<lambda>t :: task. loop_quit_op sim_kernel 0 :: sim world \<Rightarrow> sim world res"
  let ?w = "put_loop 0 (demo_loop\<lparr>looping := True, loop_quit := False\<rparr>) demo_world"
  have l0: "loops demo_world 0 = Some demo_loop" by (simp add: demo_world_def)
  obtain v e where v: "loop_iter sim_kernel ?disp (\<lambda>_ _. True) ?run 0 ?w = Inr v"
      "loops v 0 = Some e" "loop_quit e"
    by (simp add: loop_iter_def loop_poll_def demo_world_def demo_loop_def demo_poller_def sim_kernel_def
        sim0_def doPendingFunctors_def loop_quit_op_def Let_def isInLoopThread_def tid_of_def cacheTid_def
        with_loop_def put_loop_def)
  have "iters (loop_iter sim_kernel ?disp (\<lambda>_ _. True) ?run 0) 1 ?w = Inr v" using v(1) by simp
  moreover have "\<forall>m < 1. \<exists>v e. iters (loop_iter sim_kernel ?disp (\<lambda>_ _. True) ?run 0) m ?w = Inr v \<and>
      loops v 0 = Some e \<and> \<not> loop_quit e"
    by simp
  ultimately have "EventLoop_loop sim_kernel ?disp (\<lambda>_ _. True) ?run 0 demo_world =
      Some (Inr (put_loop 0 (e\<lparr>looping := False\<rparr>) v))"
    using EventLoop_loop_returns [OF l0 _ _ v(2,3), of 1] by blast
  then show ?thesis by auto
qed

text \<open>
  Construction: on a kernel that follows epoll_ctl(2) and grants the three calls, in a thread
  without a loop, the constructor returns with an empty queue, the loop recorded for the thread, the
  wakeup channel registered, and poller, channels and kernel in agreement.
\<close>

lemma mk_EventLoop_ok:
  assumes K: "epoll_ctl_contract K interest"
    and f: "sys_eventfd K (os (wsys w)) = ((f, e1), k1)" "0 \<le> f"
    and ep: "sys_epoll_create1 K k1 = ((ep, e2), k2)" "0 \<le> ep" "interest ep k2 = (\<lambda>_. None)"
    and ctl: "0 \<le> fst (fst (sys_epoll_ctl K ep EPOLL_CTL_ADD f \<lparr>ev_events = kReadEvent, ev_ptr = ch\<rparr> k2))"
    and thr: "loopInThread w (cur_thread w) = None"
    and new: "\<forall>i c. chans w i = Some c \<longrightarrow> ch_loop c \<noteq> l"
  shows "\<exists>w' el. mk_EventLoop K False l ch w = Inr w' \<and> loop_ok interest l w' \<and>
     loop_hasChannel l ch w' = Inr True \<and> loops w' l = Some el \<and> pendingFunctors el = [] \<and>
     loopInThread w' (cur_thread w) = Some l"
proof -
  let ?c = "setReadCallback (LoopHandleRead l) (mk_Channel l f)"
  obtain el p w3 where mk: "mk_EventLoop K False l ch w = Channel_request K EnableReading ch w3"
    and w3: "loops w3 = (loops w)(l \<mapsto> el)" "loop_poller el = Some p" "ownerLoop p = l" "epollfd p = ep"
      "po_channels p = (\<lambda>_. None)" "chans w3 = (chans w)(ch \<mapsto> ?c)" "os (wsys w3) = k2"
      "loopInThread w3 = (loopInThread w)(cur_thread w \<mapsto> l)" "pendingFunctors el = []"
    using mk_EventLoop_eq [OF f ep(1,2) thr, of l ch] by blast
  have cf: "ch_loop ?c = l" "ch_fd ?c = f" "ch_index ?c = kNew" "ch_events ?c = 0"
    by (simp_all add: setReadCallback_def mk_Channel_def kNew_def)
  have own: "owned (chans w3) l j d \<longleftrightarrow> j = ch \<and> d = ?c" for j d
    using new cf(1) unfolding w3(6) owned_upd by (auto simp: owned_def)
  have wf: "poller_wf (chans w3, p, wsys w3)"
    using w3(3,5) own cf by (simp add: fds_distinct_def index_wf_def map_wf_def)
  have iw: "interest_wf interest (chans w3, p, wsys w3)"
    using w3(3,4,7) own cf ep(3) by (simp add: chan_synced_def)
  have chw3: "chans w3 ch = Some ?c" and el3: "loops w3 (ch_loop ?c) = Some el" using w3 cf by simp_all
  have ok3: "loop_ok interest (ch_loop ?c) w3" unfolding loop_ok_def using el3 w3 wf iw cf by auto
  obtain r e k3 where call: "sys_epoll_ctl K ep EPOLL_CTL_ADD f \<lparr>ev_events = kReadEvent, ev_ptr = ch\<rparr> k2 = ((r, e), k3)"
    by (metis prod.exhaust)
  with ctl have r: "0 \<le> r" by simp
  have pr: "\<exists>cs' p' \<sigma>'. poller_request K EnableReading ch (chans w3, p, wsys w3) = Inr (cs', p', \<sigma>')"
    using chw3 cf call r w3(4,7) by (simp add: Let_def ep_update_def)
  then obtain w' where w': "Channel_request K EnableReading ch w3 = Inr w'"
    unfolding Channel_request_eq [OF chw3 el3 w3(2)] by auto
  have thr': "loopInThread w' = loopInThread w3"
    using w' unfolding Channel_request_eq [OF chw3 el3 w3(2)] by (auto simp: bind_r_Inr_iff)
  note step = Channel_request_step [OF K ok3 chw3 w']
  from step obtain p' where el': "loops w' l = Some (el\<lparr>loop_poller := Some p'\<rparr>)" using el3 cf by auto
  have "loop_hasChannel l ch w' = Inr True"
  proof -
    from pr obtain cs' p1 \<sigma>' where pr: "poller_request K EnableReading ch (chans w3, p, wsys w3) = Inr (cs', p1, \<sigma>')"
      by blast
    have "po_channels p1 f = Some ch" "\<exists>d. cs' ch = Some d \<and> ch_fd d = f"
      using pr chw3 cf by (auto simp: Let_def bind_r_Inr_iff)
    then show ?thesis
      using w' cf unfolding Channel_request_eq [OF chw3 el3 w3(2)] pr
      by (auto simp: loop_hasChannel_def)
  qed
  then show ?thesis using mk w' step el' thr' w3(8,9) cf by auto
qed

lemma mk_EventLoop_ok_witness:
  "\<exists>w' el. mk_EventLoop sim_kernel False 1 9 demo_world = Inr w' \<and>
     loop_ok (\<lambda>ep k. sim_interest k ep) 1 w' \<and> loop_hasChannel 1 9 w' = Inr True \<and>
     loops w' 1 = Some el \<and> pendingFunctors el = [] \<and> loopInThread w' 7 = Some 1"
proof -
  have f: "sys_eventfd sim_kernel (os (wsys demo_world)) = ((3, 0), sim0\<lparr>sim_next := 4\<rparr>)"
    by (simp add: demo_world_def sim_kernel_def sim_fresh_def sim0_def)
  have ep: "sys_epoll_create1 sim_kernel (sim0\<lparr>sim_next := 4\<rparr>) = ((4, 0), sim0\<lparr>sim_next := 5\<rparr>)"
    by (simp add: sim_kernel_def sim_fresh_def sim0_def fun_upd_idem_iff)
  have "sim_interest (sim0\<lparr>sim_next := 5\<rparr>) 4 = (\<lambda>_. None)" by (simp add: sim0_def)
  moreover have "0 \<le> fst (fst (sys_epoll_ctl sim_kernel 4 EPOLL_CTL_ADD 3
      \<lparr>ev_events = kReadEvent, ev_ptr = 9\<rparr> (sim0\<lparr>sim_next := 5\<rparr>)))"
    by (simp add: sim_kernel_def sim_ctl_def ctl_applicable_def sim0_def)
  moreover have "cur_thread demo_world = 7" "loopInThread demo_world (cur_thread demo_world) = None"
      "\<forall>i c. chans demo_world i = Some c \<longrightarrow> ch_loop c \<noteq> 1"
    by (simp_all add: demo_world_def)
  ultimately show ?thesis
    using mk_EventLoop_ok [OF sim_epoll_ctl_contract f _ ep, of 9 1] by simp
qed

text \<open>
  With \<^verbatim>\<open>MUDUO_USE_POLL\<close> set \<^verbatim>\<open>newDefaultPoller\<close> gives a null pointer and the constructor calls
  \<^verbatim>\<open>updateChannel\<close> through it; a second loop in one thread exits.
\<close>

lemma mk_EventLoop_failures:
  assumes "sys_eventfd K (os (wsys w)) = ((f, e1), k1)" and "0 \<le> f"
  shows "mk_EventLoop K True l ch w =
     Inl (if loopInThread w (cur_thread w) = None then Null_Deref else Exit_Fatal)"
  using assms
  by (simp add: mk_EventLoop_def createEventfd_def newDefaultPoller_def Let_def Channel_request_def
      Channel_update_def loop_updateChannel_def lift_poller_def mk_Channel_def setReadCallback_def
      put_chan_def put_loop_def put_sys_def with_chan_def with_loop_def)

lemma mk_EventLoop_failures_witness: "mk_EventLoop sim_kernel True 1 9 demo_world = Inl Null_Deref"
proof -
  have "sys_eventfd sim_kernel (os (wsys demo_world)) = ((3, 0), sim0\<lparr>sim_next := 4\<rparr>)"
    by (simp add: demo_world_def sim_kernel_def sim_fresh_def sim0_def)
  from mk_EventLoop_failures [OF this] show ?thesis by (simp add: demo_world_def)
qed

end
