(* ===== verification/Transition.thy ===== *)
theory Transition
  imports Base
begin

text \<open>
  Transition systems for the parts of the program where threads interleave: the states reachable
  from an initial state, and the rule that an inductive invariant holds in all of them. For the
  sequential parts: the simulation of a sequence of operations by an abstract specification.
\<close>

inductive reachable :: "'s \<Rightarrow> ('s \<Rightarrow> 's \<Rightarrow> bool) \<Rightarrow> 's \<Rightarrow> bool" for s0 step where
  reach_init: "reachable s0 step s0"
| reach_step: "reachable s0 step s \<Longrightarrow> step s t \<Longrightarrow> reachable s0 step t"

lemma reachable_steps: "step\<^sup>*\<^sup>* s t \<Longrightarrow> reachable s0 step s \<Longrightarrow> reachable s0 step t"
  by (induction rule: rtranclp_induct) (auto intro: reach_step)

locale step_invariant =
  fixes s0 :: 's and step :: "'s \<Rightarrow> 's \<Rightarrow> bool" and I :: "'s \<Rightarrow> bool"
  assumes initial: "I s0"
    and preserved: "I s \<Longrightarrow> step s t \<Longrightarrow> I t"
begin

lemma holds: "reachable s0 step s \<Longrightarrow> I s"
  by (induction rule: reachable.induct) (auto intro: initial preserved)

lemma holds_after: "I s \<Longrightarrow> step\<^sup>*\<^sup>* s t \<Longrightarrow> I t"
  by (rotate_tac, induction rule: rtranclp_induct) (auto intro: preserved)

end

text \<open>
  Operations \<open>step\<close> that may fail, and an abstract state on which the same operations always act by
  \<open>astep\<close>. \<open>run_fits\<close>: along the run, each operation is called where its precondition holds.
\<close>

fun run_fits :: "('e \<Rightarrow> 's \<Rightarrow> bool) \<Rightarrow> ('e \<Rightarrow> 's \<Rightarrow> 's res) \<Rightarrow> 'e list \<Rightarrow> 's \<Rightarrow> bool" where
  "run_fits pre step [] s \<longleftrightarrow> True"
| "run_fits pre step (e # es) s \<longleftrightarrow>
     pre e s \<and> (case step e s of Inl _ \<Rightarrow> True | Inr s' \<Rightarrow> run_fits pre step es s')"

locale op_simulation =
  fixes pre :: "'e \<Rightarrow> 's \<Rightarrow> bool" and step :: "'e \<Rightarrow> 's \<Rightarrow> 's res"
    and astep :: "'e \<Rightarrow> 'a \<Rightarrow> 'a" and R :: "'a \<Rightarrow> 's \<Rightarrow> bool"
  assumes sim_step: "R a s \<Longrightarrow> pre e s \<Longrightarrow> \<exists>s'. step e s = Inr s' \<and> R (astep e a) s'"
begin

lemma sim_run:
  "R a s \<Longrightarrow> run_fits pre step es s \<Longrightarrow> \<exists>s'. fold_r step es s = Inr s' \<and> R (fold astep es a) s'"
proof (induction es arbitrary: a s)
  case Nil
  then show ?case by simp
next
  case (Cons e es)
  then obtain s1 where "step e s = Inr s1" "R (astep e a) s1" using sim_step by fastforce
  with Cons show ?case by simp
qed

end

end
