(* ===== verification/LoopProtocol.thy ===== *)
theory LoopProtocol
  imports EventLoop Transition
begin

text \<open>
  The loop thread and the threads that use its loop, interleaved at the granularity of the accesses
  to the shared members of \<^verbatim>\<open>EventLoop\<close>: \<^verbatim>\<open>loop()\<close>, \<^verbatim>\<open>doPendingFunctors()\<close>, \<^verbatim>\<open>queueInLoop()\<close>, \<^verbatim>\<open>quit()\<close>,
  \<^verbatim>\<open>wakeup()\<close> and \<^verbatim>\<open>handleRead()\<close> of \<^verbatim>\<open>src/EventLoop.cc\<close>. The mutex makes \<^verbatim>\<open>push_back\<close> and \<^verbatim>\<open>swap\<close> single
  steps; \<^verbatim>\<open>lp_counter\<close> is the eventfd counter, to which \<^verbatim>\<open>wakeup()\<close> adds one and which \<^verbatim>\<open>handleRead()\<close>
  reads back to zero (eventfd(2)). \<open>submitted\<close> and \<open>executed\<close> record the history, \<open>quits\<close> the calls
  of \<^verbatim>\<open>quit()\<close> that other threads completed, \<open>lp_early\<close> how many of the pending functors the loop's own thread
  queued before it called \<^verbatim>\<open>loop()\<close> (in an init callback, say): \<^verbatim>\<open>queueInLoop()\<close> does not write to the eventfd then.
\<close>

text \<open>
  Where the loop thread is: before the first statement of \<^verbatim>\<open>loop()\<close>, at the test of \<^verbatim>\<open>quit_\<close>, in
  \<^verbatim>\<open>epoll_wait\<close>, handling the active channels (with the wakeup channel among them or not), at the two
  statements before the batch runs, between two functors, inside a functor, inside a functor that
  has pushed and not yet called \<^verbatim>\<open>wakeup()\<close>, or out of the loop.
\<close>

datatype loop_pc =
    LStart | LTest | LPoll | LHandle bool | LPend | LSwap | LRun | LIn | LInPushed | LEnd

text \<open>Another thread: outside, between \<^verbatim>\<open>push_back\<close> and \<^verbatim>\<open>wakeup()\<close>, or between \<^verbatim>\<open>quit_ = true\<close> and \<^verbatim>\<open>wakeup()\<close>.\<close>

datatype other_pc = OIdle | OPushed | OQuit

record lstate =
  lp_pc :: loop_pc
  lp_quit :: bool
  lp_calling :: bool
  lp_pending :: "task list"
  lp_batch :: "task list"
  lp_counter :: nat
  others :: "tid \<Rightarrow> other_pc"
  submitted :: "task list"
  executed :: "task list"
  quits :: nat
  lp_early :: nat

definition lp_init :: lstate where
  "lp_init = \<lparr>lp_pc = LStart, lp_quit = False, lp_calling = False, lp_pending = [], lp_batch = [],
     lp_counter = 0, others = (\<lambda>_. OIdle), submitted = [], executed = [], quits = 0, lp_early = 0\<rparr>"

definition lp_push :: "task \<Rightarrow> lstate \<Rightarrow> lstate" where
  "lp_push t s = s\<lparr>lp_pending := lp_pending s @ [t], submitted := submitted s @ [t]\<rparr>"

inductive lp_step :: "lstate \<Rightarrow> lstate \<Rightarrow> bool" where
  start: "lp_pc s = LStart \<Longrightarrow> lp_step s (s\<lparr>lp_quit := False, lp_pc := LTest\<rparr>)"
| early_queue: "lp_pc s = LStart \<Longrightarrow> lp_step s ((lp_push t s)\<lparr>lp_early := Suc (lp_early s)\<rparr>)"
| early_quit: "lp_pc s = LStart \<Longrightarrow> lp_step s (s\<lparr>lp_quit := True\<rparr>)"
| test_end: "lp_pc s = LTest \<Longrightarrow> lp_quit s \<Longrightarrow> lp_step s (s\<lparr>lp_pc := LEnd\<rparr>)"
| test_go: "lp_pc s = LTest \<Longrightarrow> \<not> lp_quit s \<Longrightarrow> lp_step s (s\<lparr>lp_pc := LPoll\<rparr>)"
| poll_wakeup: "lp_pc s = LPoll \<Longrightarrow> 0 < lp_counter s \<Longrightarrow> lp_step s (s\<lparr>lp_pc := LHandle True\<rparr>)"
| poll_other: "lp_pc s = LPoll \<Longrightarrow> lp_step s (s\<lparr>lp_pc := LHandle False\<rparr>)"
| handle_read: "lp_pc s = LHandle True \<Longrightarrow> lp_step s (s\<lparr>lp_counter := 0, lp_pc := LHandle False\<rparr>)"
| handle_queue: "lp_pc s = LHandle b \<Longrightarrow> lp_step s (lp_push t s)"
| handle_quit: "lp_pc s = LHandle b \<Longrightarrow> lp_step s (s\<lparr>lp_quit := True\<rparr>)"
| handle_done: "lp_pc s = LHandle False \<Longrightarrow> lp_step s (s\<lparr>lp_pc := LPend\<rparr>)"
| set_calling: "lp_pc s = LPend \<Longrightarrow> lp_step s (s\<lparr>lp_calling := True, lp_pc := LSwap\<rparr>)"
| swap: "lp_pc s = LSwap \<Longrightarrow> lp_step s (s\<lparr>lp_batch := lp_pending s, lp_pending := [], lp_early := 0, lp_pc := LRun\<rparr>)"
| run: "lp_pc s = LRun \<Longrightarrow> lp_batch s = t # ts \<Longrightarrow>
     lp_step s (s\<lparr>lp_batch := ts, executed := executed s @ [t], lp_pc := LIn\<rparr>)"
| in_queue: "lp_pc s = LIn \<Longrightarrow> lp_step s ((lp_push t s)\<lparr>lp_pc := LInPushed\<rparr>)"
| in_wakeup: "lp_pc s = LInPushed \<Longrightarrow> lp_calling s \<Longrightarrow>
     lp_step s (s\<lparr>lp_counter := Suc (lp_counter s), lp_pc := LIn\<rparr>)"
| in_no_wakeup: "lp_pc s = LInPushed \<Longrightarrow> \<not> lp_calling s \<Longrightarrow> lp_step s (s\<lparr>lp_pc := LIn\<rparr>)"
| in_quit: "lp_pc s = LIn \<Longrightarrow> lp_step s (s\<lparr>lp_quit := True\<rparr>)"
| in_return: "lp_pc s = LIn \<Longrightarrow> lp_step s (s\<lparr>lp_pc := LRun\<rparr>)"
| batch_done: "lp_pc s = LRun \<Longrightarrow> lp_batch s = [] \<Longrightarrow> lp_step s (s\<lparr>lp_calling := False, lp_pc := LTest\<rparr>)"
| other_push: "others s i = OIdle \<Longrightarrow> lp_step s ((lp_push t s)\<lparr>others := (others s)(i := OPushed)\<rparr>)"
| other_wakeup: "others s i = OPushed \<Longrightarrow>
     lp_step s (s\<lparr>lp_counter := Suc (lp_counter s), others := (others s)(i := OIdle)\<rparr>)"
| other_quit: "others s i = OIdle \<Longrightarrow> lp_step s (s\<lparr>lp_quit := True, others := (others s)(i := OQuit)\<rparr>)"
| other_quit_wakeup: "others s i = OQuit \<Longrightarrow>
     lp_step s (s\<lparr>lp_counter := Suc (lp_counter s), quits := Suc (quits s), others := (others s)(i := OIdle)\<rparr>)"

section \<open>Invariants\<close>

definition lp_history :: "lstate \<Rightarrow> bool" where
  "lp_history s \<longleftrightarrow> submitted s = executed s @ lp_batch s @ lp_pending s \<and>
     (lp_batch s \<noteq> [] \<longrightarrow> lp_pc s \<in> {LRun, LIn, LInPushed})"

lemma push_fields [simp]:
  "lp_pc (lp_push t s) = lp_pc s" "lp_quit (lp_push t s) = lp_quit s" "lp_calling (lp_push t s) = lp_calling s"
  "lp_pending (lp_push t s) = lp_pending s @ [t]" "lp_batch (lp_push t s) = lp_batch s"
  "lp_counter (lp_push t s) = lp_counter s" "others (lp_push t s) = others s"
  "submitted (lp_push t s) = submitted s @ [t]" "executed (lp_push t s) = executed s" "quits (lp_push t s) = quits s"
  "lp_early (lp_push t s) = lp_early s"
  by (simp_all add: lp_push_def)

interpretation hist: step_invariant lp_init lp_step lp_history
proof
  show "lp_history lp_init" by (simp add: lp_history_def lp_init_def)
  fix s t assume I: "lp_history s" and st: "lp_step s t"
  from st I show "lp_history t" by cases (auto simp: lp_history_def)
qed

text \<open>
  \<open>woken\<close>: the loop's next \<^verbatim>\<open>epoll_wait\<close> will return at once, or a thread is about to make it so.
\<close>

definition woken :: "lstate \<Rightarrow> bool" where
  "woken s \<longleftrightarrow> 0 < lp_counter s \<or> (\<exists>i. others s i = OPushed)"

definition lp_wake :: "lstate \<Rightarrow> bool" where
  "lp_wake s \<longleftrightarrow>
     (lp_pc s \<in> {LSwap, LRun, LIn, LInPushed} \<longrightarrow> lp_calling s) \<and>
     (lp_pc s \<in> {LStart, LTest, LPoll, LRun, LIn} \<and> lp_early s < length (lp_pending s) \<longrightarrow> woken s)"

lemma woken_simps [simp]:
  "woken (s\<lparr>lp_pc := p\<rparr>) = woken s" "woken (s\<lparr>lp_quit := q\<rparr>) = woken s"
  "woken (s\<lparr>lp_calling := q\<rparr>) = woken s" "woken (s\<lparr>lp_batch := b\<rparr>) = woken s"
  "woken (s\<lparr>lp_pending := b\<rparr>) = woken s" "woken (s\<lparr>executed := b\<rparr>) = woken s"
  "woken (lp_push t s) = woken s" "woken (s\<lparr>quits := n\<rparr>) = woken s"
  "woken (s\<lparr>lp_early := n\<rparr>) = woken s"
  "woken (s\<lparr>lp_counter := Suc n\<rparr>)"
  by (simp_all add: woken_def)

lemma woken_others:
  "woken (s\<lparr>others := (others s)(i := OPushed)\<rparr>)"
  "others s i \<noteq> OPushed \<Longrightarrow> woken s \<Longrightarrow> woken (s\<lparr>others := (others s)(i := o')\<rparr>)"
  by (auto simp: woken_def)

interpretation wake: step_invariant lp_init lp_step lp_wake
proof
  show "lp_wake lp_init" by (simp add: lp_wake_def lp_init_def)
  fix s t assume I: "lp_wake s" and st: "lp_step s t"
  from st I show "lp_wake t"
  proof cases
    case (other_push i t)
    with woken_others(1) [of "lp_push t s" i] I show ?thesis by (simp add: lp_wake_def)
  next
    case (other_wakeup i)
    then show ?thesis using I by (simp add: lp_wake_def woken_def)
  next
    case (other_quit i)
    with woken_others(2) [of "s\<lparr>lp_quit := True\<rparr>" i OQuit] I show ?thesis by (auto simp: lp_wake_def)
  next
    case (other_quit_wakeup i)
    then show ?thesis using I by (simp add: lp_wake_def woken_def)
  qed (auto simp: lp_wake_def)
qed

definition lp_quit_seen :: "lstate \<Rightarrow> bool" where
  "lp_quit_seen s \<longleftrightarrow> lp_pc s = LPoll \<and> lp_quit s \<longrightarrow> 0 < lp_counter s \<or> (\<exists>i. others s i = OQuit)"

interpretation qseen: step_invariant lp_init lp_step lp_quit_seen
proof
  show "lp_quit_seen lp_init" by (simp add: lp_quit_seen_def lp_init_def)
  fix s t assume I: "lp_quit_seen s" and st: "lp_step s t"
  from st I show "lp_quit_seen t"
  proof cases
    case (other_push i t)
    have "j \<noteq> i" if "others s j = OQuit" for j using that other_push by auto
    with other_push I show ?thesis by (auto simp: lp_quit_seen_def)
  next
    case (other_wakeup i)
    then show ?thesis by (simp add: lp_quit_seen_def)
  next
    case (other_quit i)
    then show ?thesis by (auto simp: lp_quit_seen_def)
  qed (auto simp: lp_quit_seen_def)
qed

section \<open>The loop thread alone\<close>

text \<open>
  A step of the loop thread while the others stand still, with nothing to end \<^verbatim>\<open>epoll_wait\<close> but the eventfd: no
  timeout and no event on another descriptor. By such steps, from \<^verbatim>\<open>epoll_wait\<close> with a readable eventfd, the
  loop thread can run everything that is pending.
\<close>

definition lp_alone :: "lstate \<Rightarrow> lstate \<Rightarrow> bool" where
  "lp_alone s t \<longleftrightarrow> lp_step s t \<and> others t = others s \<and>
     (lp_pc s = LPoll \<longrightarrow> 0 < lp_counter s \<and> lp_pc t = LHandle True)"

lemma lp_alone_step: "lp_alone s t \<Longrightarrow> lp_step s t"
  by (simp add: lp_alone_def)

lemma lp_alone_steps: "lp_alone\<^sup>*\<^sup>* s t \<Longrightarrow> lp_step\<^sup>*\<^sup>* s t"
  by (rule rtranclp_mono [THEN predicate2D]) (auto intro: lp_alone_step)

lemma run_batch:
  assumes "lp_pc s = LRun"
  shows "\<exists>s'. lp_alone\<^sup>*\<^sup>* s s' \<and> lp_pc s' = LTest \<and> lp_batch s' = [] \<and>
     executed s' = executed s @ lp_batch s \<and> lp_pending s' = lp_pending s \<and>
     lp_quit s' = lp_quit s \<and> lp_counter s' = lp_counter s \<and> others s' = others s \<and> quits s' = quits s"
  using assms
proof (induction "lp_batch s" arbitrary: s)
  case Nil
  then have "lp_step s (s\<lparr>lp_calling := False, lp_pc := LTest\<rparr>)" by (intro batch_done) simp_all
  with Nil have "lp_alone s (s\<lparr>lp_calling := False, lp_pc := LTest\<rparr>)" by (simp add: lp_alone_def)
  then have "lp_alone\<^sup>*\<^sup>* s (s\<lparr>lp_calling := False, lp_pc := LTest\<rparr>)" by blast
  with Nil show ?case by (intro exI [of _ "s\<lparr>lp_calling := False, lp_pc := LTest\<rparr>"]) simp
next
  case (Cons t ts)
  let ?s1 = "s\<lparr>lp_batch := ts, executed := executed s @ [t], lp_pc := LIn\<rparr>"
  let ?s2 = "?s1\<lparr>lp_pc := LRun\<rparr>"
  have "lp_step s ?s1" using Cons.prems Cons.hyps(2) by (intro run) simp_all
  then have 1: "lp_alone s ?s1" using Cons.prems by (simp add: lp_alone_def)
  have "lp_step ?s1 ?s2" by (rule in_return) simp
  then have 2: "lp_alone ?s1 ?s2" by (simp add: lp_alone_def)
  from Cons.hyps(1) [of ?s2] obtain s' where s': "lp_alone\<^sup>*\<^sup>* ?s2 s'" "lp_pc s' = LTest" "lp_batch s' = []"
      "executed s' = executed s @ t # ts" "lp_pending s' = lp_pending s" "lp_quit s' = lp_quit s"
      "lp_counter s' = lp_counter s" "others s' = others s" "quits s' = quits s"
    by auto
  have "lp_alone\<^sup>*\<^sup>* s s'" using 1 2 s'(1) by (meson converse_rtranclp_into_rtranclp)
  with s' Cons.hyps(2) show ?case by (intro exI [of _ s']) simp
qed

lemma loop_pass:
  assumes "lp_pc s = LPoll" and "0 < lp_counter s" and "lp_batch s = []"
  shows "\<exists>s'. lp_alone\<^sup>*\<^sup>* s s' \<and> lp_pc s' = LTest \<and> executed s' = executed s @ lp_pending s \<and>
     lp_pending s' = [] \<and> lp_batch s' = [] \<and> lp_quit s' = lp_quit s \<and> lp_counter s' = 0 \<and>
     others s' = others s \<and> quits s' = quits s"
proof -
  let ?a = "s\<lparr>lp_pc := LHandle True\<rparr>"
  let ?b = "?a\<lparr>lp_counter := 0, lp_pc := LHandle False\<rparr>"
  let ?c = "?b\<lparr>lp_pc := LPend\<rparr>"
  let ?d = "?c\<lparr>lp_calling := True, lp_pc := LSwap\<rparr>"
  let ?e = "?d\<lparr>lp_batch := lp_pending ?d, lp_pending := [], lp_early := 0, lp_pc := LRun\<rparr>"
  have "lp_step s ?a" using assms by (intro poll_wakeup) simp_all
  then have "lp_alone s ?a" using assms by (simp add: lp_alone_def)
  moreover have "lp_step ?a ?b" by (rule handle_read) simp
  then have "lp_alone ?a ?b" by (simp add: lp_alone_def)
  moreover have "lp_step ?b ?c" by (rule handle_done) simp
  then have "lp_alone ?b ?c" by (simp add: lp_alone_def)
  moreover have "lp_step ?c ?d" by (rule set_calling) simp
  then have "lp_alone ?c ?d" by (simp add: lp_alone_def)
  moreover have "lp_step ?d ?e" by (rule swap) simp
  then have "lp_alone ?d ?e" by (simp add: lp_alone_def)
  ultimately have st: "lp_alone\<^sup>*\<^sup>* s ?e" by (meson converse_rtranclp_into_rtranclp rtranclp.rtrancl_refl)
  obtain s' where s': "lp_alone\<^sup>*\<^sup>* ?e s'" "lp_pc s' = LTest" "lp_batch s' = []"
      "executed s' = executed s @ lp_pending s" "lp_pending s' = []" "lp_quit s' = lp_quit s"
      "lp_counter s' = 0" "others s' = others s" "quits s' = quits s"
    using run_batch [of ?e] by auto
  have "lp_alone\<^sup>*\<^sup>* s s'" using st s'(1) by (rule rtranclp_trans)
  with s' show ?thesis by blast
qed

text \<open>
  Whatever the interleaving, a pass of \<^verbatim>\<open>loop()\<close> runs the functors that were pending when it entered
  \<^verbatim>\<open>epoll_wait\<close>: where those \<open>new\<close> are while the pass goes on from \<open>old\<close> functors executed.
\<close>

definition lp_carried :: "task list \<Rightarrow> task list \<Rightarrow> lstate \<Rightarrow> bool" where
  "lp_carried old new s \<longleftrightarrow>
     (\<exists>ys. executed s = old @ new @ ys) \<or>
     (case lp_pc s of
        LRun \<Rightarrow> \<exists>ys. executed s @ lp_batch s = old @ new @ ys
      | LIn \<Rightarrow> \<exists>ys. executed s @ lp_batch s = old @ new @ ys
      | LInPushed \<Rightarrow> \<exists>ys. executed s @ lp_batch s = old @ new @ ys
      | LStart \<Rightarrow> False | LTest \<Rightarrow> False | LEnd \<Rightarrow> False
      | _ \<Rightarrow> executed s = old \<and> (\<exists>ys. lp_pending s = new @ ys))"

lemma lp_carried_step:
  assumes "lp_carried old new s" and "lp_history s" and "lp_step s t"
  shows "lp_carried old new t"
  using assms(3,1,2) by cases (auto simp: lp_carried_def lp_history_def split: loop_pc.splits)

lemma lp_carried_steps:
  assumes "lp_step\<^sup>*\<^sup>* s t" and "lp_carried old new s" and "lp_history s"
  shows "lp_carried old new t"
proof -
  have "lp_carried old new t \<and> lp_history t" using assms
    by (induction rule: rtranclp_induct) (auto intro: lp_carried_step hist.preserved)
  then show ?thesis ..
qed

text \<open>Concrete runs: a thread queues a functor, or quits, while the loop waits in \<^verbatim>\<open>epoll_wait\<close>.\<close>

definition lp_polling :: lstate where
  "lp_polling = lp_init\<lparr>lp_pc := LPoll\<rparr>"

definition lp_queued :: lstate where
  "lp_queued = lp_polling\<lparr>lp_pending := [UserTask 0], submitted := [UserTask 0], lp_counter := 1\<rparr>"

definition lp_waiting :: lstate where
  "lp_waiting = lp_polling\<lparr>lp_pending := [UserTask 0], submitted := [UserTask 0], lp_early := 1\<rparr>"

definition lp_quitting :: lstate where
  "lp_quitting = lp_polling\<lparr>lp_quit := True, others := (\<lambda>_. OIdle)(1 := OQuit)\<rparr>"

lemmas lp_demo_defs = lp_polling_def lp_queued_def lp_waiting_def lp_quitting_def lp_init_def

lemma reachable_polling: "reachable lp_init lp_step lp_polling"
proof -
  let ?a = "lp_init\<lparr>lp_quit := False, lp_pc := LTest\<rparr>"
  have "lp_step lp_init ?a" by (rule start) (simp add: lp_init_def)
  moreover have "lp_step ?a (?a\<lparr>lp_pc := LPoll\<rparr>)" by (rule test_go) simp_all
  moreover have "?a\<lparr>lp_pc := LPoll\<rparr> = lp_polling" by (simp add: lp_demo_defs)
  ultimately show ?thesis using reach_init [of lp_init lp_step] by (metis reach_step)
qed

lemma reachable_queued: "reachable lp_init lp_step lp_queued"
proof -
  let ?a = "(lp_push (UserTask 0) lp_polling)\<lparr>others := (others lp_polling)(1 := OPushed)\<rparr>"
  let ?b = "?a\<lparr>lp_counter := Suc (lp_counter ?a), others := (others ?a)(1 := OIdle)\<rparr>"
  have "lp_step lp_polling ?a" by (rule other_push) (simp add: lp_demo_defs)
  moreover have "lp_step ?a ?b" by (rule other_wakeup) simp
  moreover have "?b = lp_queued" by (auto simp: lp_demo_defs lp_push_def)
  ultimately show ?thesis using reachable_polling by (metis reach_step)
qed

lemma reachable_quitting: "reachable lp_init lp_step lp_quitting"
proof -
  have "lp_step lp_polling (lp_polling\<lparr>lp_quit := True, others := (others lp_polling)(1 := OQuit)\<rparr>)"
    by (rule other_quit) (simp add: lp_demo_defs)
  moreover have "lp_polling\<lparr>lp_quit := True, others := (others lp_polling)(1 := OQuit)\<rparr> = lp_quitting"
    by (simp add: lp_demo_defs)
  ultimately show ?thesis using reachable_polling by (metis reach_step)
qed

section \<open>Properties\<close>

text \<open>
  C10. Functors run exactly once and in the order in which they were queued: in every reachable state,
  whatever the interleaving of the loop thread and the threads that call \<^verbatim>\<open>queueInLoop\<close>, the functors
  executed, followed by the rest of the batch and by those pending, are the functors submitted.
\<close>

theorem functors_fifo_exactly_once:
  assumes "reachable lp_init lp_step s"
  shows "submitted s = executed s @ lp_batch s @ lp_pending s"
  using hist.holds [OF assms] by (simp add: lp_history_def)

theorem functors_fifo_exactly_once_witness:
  "submitted lp_queued = executed lp_queued @ lp_batch lp_queued @ lp_pending lp_queued \<and>
     lp_pending lp_queued = [UserTask 0]"
  using functors_fifo_exactly_once [OF reachable_queued] by (simp add: lp_demo_defs)

text \<open>
  C16. No wakeup is lost: whenever the loop thread is in \<^verbatim>\<open>epoll_wait\<close> while a functor is pending that the thread
  did not itself queue before it called \<^verbatim>\<open>loop()\<close>, the eventfd is readable or a thread that pushed is about to
  write to it.
\<close>

theorem no_lost_wakeup:
  assumes "reachable lp_init lp_step s" and "lp_pc s = LPoll" and "lp_early s < length (lp_pending s)"
  shows "0 < lp_counter s \<or> (\<exists>i. others s i = OPushed)"
  using wake.holds [OF assms(1)] assms(2,3) by (simp add: lp_wake_def woken_def)

theorem no_lost_wakeup_witness:
  "lp_pc lp_queued = LPoll \<and> (0 < lp_counter lp_queued \<or> (\<exists>i. others lp_queued i = OPushed))"
proof -
  have "lp_pc lp_queued = LPoll" "lp_early lp_queued < length (lp_pending lp_queued)" by (simp_all add: lp_demo_defs)
  with no_lost_wakeup [OF reachable_queued] show ?thesis by blast
qed

text \<open>
  The exception is real: a functor that the loop's own thread queues before \<^verbatim>\<open>loop()\<close> is pending while the thread
  waits with the eventfd drained and nobody about to write to it, so it runs when the wait times out or another
  descriptor becomes ready.
\<close>

lemma early_functor_waits:
  "reachable lp_init lp_step lp_waiting \<and> lp_pc lp_waiting = LPoll \<and> lp_pending lp_waiting = [UserTask 0] \<and>
     lp_counter lp_waiting = 0 \<and> (\<forall>i. others lp_waiting i = OIdle) \<and> \<not> (\<exists>t. lp_alone lp_waiting t)"
proof -
  let ?a = "(lp_push (UserTask 0) lp_init)\<lparr>lp_early := Suc (lp_early lp_init)\<rparr>"
  let ?b = "?a\<lparr>lp_quit := False, lp_pc := LTest\<rparr>"
  have "lp_step lp_init ?a" by (rule early_queue) (simp add: lp_init_def)
  moreover have "lp_step ?a ?b" by (rule start) (simp add: lp_init_def)
  moreover have "lp_step ?b (?b\<lparr>lp_pc := LPoll\<rparr>)" by (rule test_go) simp_all
  moreover have "?b\<lparr>lp_pc := LPoll\<rparr> = lp_waiting" by (simp add: lp_demo_defs lp_push_def)
  ultimately have "reachable lp_init lp_step lp_waiting"
    using reach_init [of lp_init lp_step] by (metis reach_step)
  then show ?thesis by (simp add: lp_demo_defs lp_alone_def)
qed

text \<open>
  C28. Pending functors run, and without delay: in every reachable state in which the loop thread is in
  \<^verbatim>\<open>epoll_wait\<close>, a functor is pending that the thread did not itself queue before \<^verbatim>\<open>loop()\<close>, and no other thread is in
  the middle of a call, the eventfd is readable; by itself and woken by nothing else (no timeout, no other
  descriptor) the loop thread can execute all pending functors, in order; and whatever the threads do from there,
  when the loop thread is back at the test of \<^verbatim>\<open>loop()\<close> it has executed them all, in order and right behind those
  executed before.
\<close>

theorem pending_functors_run:
  assumes "reachable lp_init lp_step s" and "lp_pc s = LPoll" and "lp_early s < length (lp_pending s)"
    and "\<forall>i. others s i = OIdle"
  shows "0 < lp_counter s \<and>
     (\<exists>s'. lp_alone\<^sup>*\<^sup>* s s' \<and> lp_pc s' = LTest \<and> executed s' = executed s @ lp_pending s \<and> lp_pending s' = []) \<and>
     (\<forall>s'. lp_step\<^sup>*\<^sup>* s s' \<and> lp_pc s' = LTest \<longrightarrow> (\<exists>ys. executed s' = executed s @ lp_pending s @ ys))"
proof -
  have c: "0 < lp_counter s"
    using wake.holds [OF assms(1)] assms(2-4) by (auto simp: lp_wake_def woken_def)
  have b: "lp_batch s = []" using hist.holds [OF assms(1)] assms(2) by (auto simp: lp_history_def)
  have car: "lp_carried (executed s) (lp_pending s) s" using assms(2) by (simp add: lp_carried_def)
  have "\<exists>ys. executed s' = executed s @ lp_pending s @ ys" if "lp_step\<^sup>*\<^sup>* s s'" "lp_pc s' = LTest" for s'
    using that lp_carried_steps [OF that(1) car hist.holds [OF assms(1)]] by (auto simp: lp_carried_def)
  with c loop_pass [OF assms(2) c b] show ?thesis by blast
qed

theorem pending_functors_run_witness:
  "0 < lp_counter lp_queued \<and>
     (\<exists>s'. lp_alone\<^sup>*\<^sup>* lp_queued s' \<and> lp_pc s' = LTest \<and> executed s' = [UserTask 0] \<and> lp_pending s' = [])"
proof -
  have "lp_pc lp_queued = LPoll" "lp_early lp_queued < length (lp_pending lp_queued)" "\<forall>i. others lp_queued i = OIdle"
    by (simp_all add: lp_demo_defs)
  from pending_functors_run [OF reachable_queued this] show ?thesis by (simp add: lp_demo_defs)
qed

text \<open>
  A \<^verbatim>\<open>quit()\<close> called while the loop runs is seen: if \<^verbatim>\<open>quit_\<close> is set while the loop thread is in
  \<^verbatim>\<open>epoll_wait\<close>, the eventfd is readable or the quitting thread is about to write to it.
\<close>

lemma quit_wakes_loop:
  assumes "reachable lp_init lp_step s" and "lp_pc s = LPoll" and "lp_quit s"
  shows "0 < lp_counter s \<or> (\<exists>i. others s i = OQuit)"
  using qseen.holds [OF assms(1)] assms(2,3) by (simp add: lp_quit_seen_def)

lemma quit_wakes_loop_witness:
  "lp_quit lp_quitting \<and> (0 < lp_counter lp_quitting \<or> (\<exists>i. others lp_quitting i = OQuit))"
proof -
  have "lp_pc lp_quitting = LPoll" "lp_quit lp_quitting" by (simp_all add: lp_demo_defs)
  with quit_wakes_loop [OF reachable_quitting] show ?thesis by blast
qed

text \<open>
  C38. A \<^verbatim>\<open>quit()\<close> that completes before \<^verbatim>\<open>loop()\<close> has executed its first statements is lost: a state is
  reachable in which the quitting thread has returned from \<^verbatim>\<open>quit()\<close>, nobody else is active, and the
  loop thread waits in \<^verbatim>\<open>epoll_wait\<close> with \<^verbatim>\<open>quit_\<close> clear, nothing pending and the eventfd drained.
\<close>

theorem early_quit_lost:
  "\<exists>s. reachable lp_init lp_step s \<and> 0 < quits s \<and> (\<forall>i. others s i = OIdle) \<and> lp_pc s = LPoll \<and>
     \<not> lp_quit s \<and> lp_counter s = 0 \<and> lp_pending s = []"
proof -
  let ?a = "lp_init\<lparr>lp_quit := True, others := (others lp_init)(1 := OQuit)\<rparr>"
  let ?b = "?a\<lparr>lp_counter := Suc (lp_counter ?a), quits := Suc (quits ?a), others := (others ?a)(1 := OIdle)\<rparr>"
  let ?c = "?b\<lparr>lp_quit := False, lp_pc := LTest\<rparr>"
  let ?d = "?c\<lparr>lp_pc := LPoll\<rparr>"
  have "lp_step lp_init ?a" by (rule other_quit) (simp add: lp_init_def)
  moreover have "lp_step ?a ?b" by (rule other_quit_wakeup) simp
  moreover have "lp_step ?b ?c" by (rule start) (simp add: lp_init_def)
  moreover have "lp_step ?c ?d" by (rule test_go) simp_all
  ultimately have st: "lp_step\<^sup>*\<^sup>* lp_init ?d" by (meson converse_rtranclp_into_rtranclp rtranclp.rtrancl_refl)
  have idle: "others ?d = (\<lambda>_. OIdle)" by (auto simp: lp_init_def)
  obtain s' where s': "lp_alone\<^sup>*\<^sup>* ?d s'" "lp_pc s' = LTest" "lp_pending s' = []" "\<not> lp_quit s'"
      "lp_counter s' = 0" "others s' = (\<lambda>_. OIdle)" "0 < quits s'"
    using loop_pass [of ?d] idle by (auto simp: lp_init_def)
  have "lp_step s' (s'\<lparr>lp_pc := LPoll\<rparr>)" using s' by (intro test_go) simp_all
  moreover have "reachable lp_init lp_step s'"
    using rtranclp_trans [OF st lp_alone_steps [OF s'(1)]] reach_init by (rule reachable_steps)
  ultimately have "reachable lp_init lp_step (s'\<lparr>lp_pc := LPoll\<rparr>)" by (rule reach_step [rotated])
  then show ?thesis using s' by (intro exI [of _ "s'\<lparr>lp_pc := LPoll\<rparr>"]) simp
qed

end
