(* ===== verification/EventLoopThread.thy ===== *)
theory EventLoopThread
  imports EventLoop
begin

text \<open>
  \<^verbatim>\<open>src/Thread.{h,cc}\<close>, \<^verbatim>\<open>src/EventLoopThread.{h,cc}\<close> and \<^verbatim>\<open>src/EventLoopThreadPool.{h,cc}\<close>, as sequential
  operations on the program state. \<^verbatim>\<open>startLoop\<close> is one operation here: the caller waits until the new
  thread has built its loop and run the callback; that the two threads' interleaving gives exactly
  this is shown in theory \<open>ThreadProtocol\<close>.
\<close>

section \<open>Thread\<close>

record thread =
  thr_started :: bool
  thr_joined :: bool
  thr_tid :: tid
  thr_name :: string

text \<open>\<open>num\<close> is the value the static counter had; an empty name becomes \<^verbatim>\<open>Thread-%d\<close> in a buffer of 32 bytes.\<close>

definition setDefaultName :: "c_int \<Rightarrow> thread \<Rightarrow> thread" where
  "setDefaultName num t = (if thr_name t = [] then t\<lparr>thr_name := snprintf 32 (''Thread-'' @ fmt_d (sint num))\<rparr> else t)"

definition mk_Thread :: "string \<Rightarrow> ('k, 'm) world_scheme \<Rightarrow> thread \<times> ('k, 'm) world_scheme" where
  "mk_Thread name w =
     (setDefaultName (numCreated w) \<lparr>thr_started = False, thr_joined = False, thr_tid = 0, thr_name = name\<rparr>,
      w\<lparr>numCreated := numCreated w + 1\<rparr>)"

text \<open>
  \<^verbatim>\<open>start()\<close> as its caller sees it: after \<^verbatim>\<open>sem_wait\<close> the new thread, of identity \<open>tid\<close>, has stored its id.
  \<open>enter_thread\<close> is the new thread up to the call of \<^verbatim>\<open>func_\<close>; from there on the program state is seen from
  that thread.
\<close>

definition Thread_start :: "tid \<Rightarrow> thread \<Rightarrow> thread" where
  "Thread_start tid t = t\<lparr>thr_started := True, thr_tid := tid\<rparr>"

definition enter_thread :: "tid \<Rightarrow> ('k, 'm) world_scheme \<Rightarrow> ('k, 'm) world_scheme" where
  "enter_thread tid w = w\<lparr>cur_thread := tid, cachedTid := (cachedTid w)(tid := tid)\<rparr>"

text \<open>
  \<^verbatim>\<open>join()\<close> returns when the thread has run to its end. \<open>rest\<close> is what the thread still does from where it is until
  its function returns, \<open>None\<close> if it never does; it runs in the joined thread. The thread's last two statements
  clear the cached id and \<^verbatim>\<open>tid_\<close>. Joining a thread that was not started goes through a null pointer, joining
  twice throws \<^verbatim>\<open>std::system_error\<close>, which nothing catches.
\<close>

definition Thread_join :: "(('k, 'm) world_scheme \<Rightarrow> ('k, 'm) world_scheme res option) \<Rightarrow> thread \<Rightarrow>
    ('k, 'm) world_scheme \<Rightarrow> (thread \<times> ('k, 'm) world_scheme) res" where
  "Thread_join rest t w =
     (if \<not> thr_started t then Inl Null_Deref
      else if thr_joined t then Inl Aborted
      else (case rest (w\<lparr>cur_thread := thr_tid t\<rparr>) of
              None \<Rightarrow> Inl Never_Returns
            | Some r \<Rightarrow> bind_r r (\<lambda>w1. Inr (t\<lparr>thr_joined := True, thr_tid := 0\<rparr>,
                w1\<lparr>cur_thread := cur_thread w, cachedTid := (cachedTid w1)(thr_tid t := 0)\<rparr>))))"

text \<open>
  \<^verbatim>\<open>~Thread\<close> of a started thread that was not joined calls \<^verbatim>\<open>pthread_detach\<close>; the \<^verbatim>\<open>std::thread\<close> object is
  still joinable when its last \<^verbatim>\<open>shared_ptr\<close> goes, and its destructor calls \<^verbatim>\<open>std::terminate\<close>.
\<close>

definition destroy_Thread :: "thread \<Rightarrow> unit res" where
  "destroy_Thread t = (if thr_started t \<and> \<not> thr_joined t then Inl Aborted else Inr ())"

section \<open>EventLoopThread\<close>

record event_loop_thread =
  elt_loop :: "loop_id option"
  exiting :: bool
  elt_thread :: thread

definition mk_EventLoopThread :: "string \<Rightarrow> ('k, 'm) world_scheme \<Rightarrow> event_loop_thread \<times> ('k, 'm) world_scheme" where
  "mk_EventLoopThread name w =
     (case mk_Thread name w of (t, w') \<Rightarrow> (\<lparr>elt_loop = None, exiting = False, elt_thread = t\<rparr>, w'))"

text \<open>
  The new thread has identity \<open>tid\<close>, builds its loop as object \<open>l\<close> with wakeup channel \<open>ch\<close>, and
  calls the init callback if there is one; the caller then goes on with the address of the loop.
\<close>

type_synonym thread_ids = "tid \<times> loop_id \<times> chan_id"

definition threadFunc_init :: "'k kernel \<Rightarrow> bool \<Rightarrow> (loop_id \<Rightarrow> ('k, 'm) world_scheme \<Rightarrow> ('k, 'm) world_scheme res) option \<Rightarrow>
    loop_id \<Rightarrow> chan_id \<Rightarrow> ('k, 'm) world_scheme \<Rightarrow> ('k, 'm) world_scheme res" where
  "threadFunc_init K use_poll cb l ch w =
     bind_r (mk_EventLoop K use_poll l ch w) (\<lambda>w1. case cb of Some f \<Rightarrow> f l w1 | None \<Rightarrow> Inr w1)"

definition startLoop :: "'k kernel \<Rightarrow> bool \<Rightarrow> (loop_id \<Rightarrow> ('k, 'm) world_scheme \<Rightarrow> ('k, 'm) world_scheme res) option \<Rightarrow>
    thread_ids \<Rightarrow> event_loop_thread \<Rightarrow> ('k, 'm) world_scheme \<Rightarrow>
    (loop_id \<times> event_loop_thread \<times> ('k, 'm) world_scheme) res" where
  "startLoop K use_poll cb ids e w =
     (case ids of (tid, l, ch) \<Rightarrow>
        bind_r (threadFunc_init K use_poll cb l ch (enter_thread tid w)) (\<lambda>w2.
          Inr (l, e\<lparr>elt_loop := Some l, elt_thread := Thread_start tid (elt_thread e)\<rparr>,
               w2\<lparr>cur_thread := cur_thread w\<rparr>)))"

text \<open>
  What the new thread still does once \<^verbatim>\<open>loop_\<close> is set: it calls \<^verbatim>\<open>loop()\<close>, clears \<^verbatim>\<open>loop_\<close> and destroys its loop. \<open>at\<close> tells
  where it is: before the first statement of \<^verbatim>\<open>loop()\<close>, at the test of \<^verbatim>\<open>quit_\<close>, or in \<^verbatim>\<open>epoll_wait\<close>, with the rest of
  a pass before it. \<open>None\<close>: it stays in \<^verbatim>\<open>loop()\<close> for ever.
\<close>

datatype thread_at = Before_Loop | At_Test | In_Wait

definition leave_loop :: "loop_id \<Rightarrow> ('k, 'm) world_scheme res \<Rightarrow> ('k, 'm) world_scheme res" where
  "leave_loop l r = bind_r r (\<lambda>w. with_loop l w (\<lambda>el. Inr (put_loop l (el\<lparr>looping := False\<rparr>) w)))"

definition threadFunc_rest :: "'k kernel \<Rightarrow> (Timestamp \<Rightarrow> handler \<Rightarrow> ('k, 'm) world_scheme \<Rightarrow> ('k, 'm) world_scheme res) \<Rightarrow>
    (conn_id \<Rightarrow> ('k, 'm) world_scheme \<Rightarrow> bool) \<Rightarrow> (task \<Rightarrow> ('k, 'm) world_scheme \<Rightarrow> ('k, 'm) world_scheme res) \<Rightarrow>
    thread_at \<Rightarrow> loop_id \<Rightarrow> ('k, 'm) world_scheme \<Rightarrow> ('k, 'm) world_scheme res option" where
  "threadFunc_rest K disp alive run at l w =
     map_option (\<lambda>r. bind_r r (destroy_EventLoop K l))
       (case at of
          Before_Loop \<Rightarrow> EventLoop_loop K disp alive run l w
        | At_Test \<Rightarrow> map_option (leave_loop l) (loop_while K disp alive run l w)
        | In_Wait \<Rightarrow> (case loop_iter K disp alive run l w of
              Inl e \<Rightarrow> Some (Inl e)
            | Inr w1 \<Rightarrow> map_option (leave_loop l) (loop_while K disp alive run l w1)))"

text \<open>
  The destructor with the \<^verbatim>\<open>Thread\<close> member's, for a thread that has \<^verbatim>\<open>loop_\<close> set and keeps it until it is joined;
  the orders in which the loop ends by itself are in theory \<open>ThreadProtocol\<close>. \<open>rest l\<close> is what the thread whose
  loop is \<open>l\<close> still does after \<^verbatim>\<open>quit()\<close> (\<open>threadFunc_rest\<close>).
\<close>

definition destroy_EventLoopThread :: "'k kernel \<Rightarrow>
    (loop_id \<Rightarrow> ('k, 'm) world_scheme \<Rightarrow> ('k, 'm) world_scheme res option) \<Rightarrow> event_loop_thread \<Rightarrow>
    ('k, 'm) world_scheme \<Rightarrow> ('k, 'm) world_scheme res" where
  "destroy_EventLoopThread K rest e w =
     bind_r (case elt_loop e of
               Some l \<Rightarrow> bind_r (loop_quit_op K l w) (Thread_join (rest l) (elt_thread e))
             | None \<Rightarrow> Inr (elt_thread e, w))
       (\<lambda>(t, w1). bind_r (destroy_Thread t) (\<lambda>_. Inr w1))"

section \<open>EventLoopThreadPool\<close>

record thread_pool =
  baseLoop :: loop_id
  pool_name :: string
  numThreads :: int
  pool_started :: bool
  pool_next :: int
  pool_threads :: "event_loop_thread list"
  pool_loops :: "loop_id list"

definition mk_EventLoopThreadPool :: "loop_id \<Rightarrow> string \<Rightarrow> thread_pool" where
  "mk_EventLoopThreadPool l nameArg =
     \<lparr>baseLoop = l, pool_name = nameArg, numThreads = 0, pool_started = False, pool_next = 0,
      pool_threads = [], pool_loops = []\<rparr>"

definition setThreadNum :: "int \<Rightarrow> thread_pool \<Rightarrow> thread_pool" where
  "setThreadNum n p = p\<lparr>numThreads := n\<rparr>"

text \<open>The name of the \<open>i\<close>-th thread, in an array of \<^verbatim>\<open>name_.size() + 32\<close> bytes.\<close>

definition thread_name :: "thread_pool \<Rightarrow> nat \<Rightarrow> string" where
  "thread_name p i = snprintf (length (pool_name p) + 32) (pool_name p @ fmt_d (int i))"

definition start_thread :: "'k kernel \<Rightarrow> bool \<Rightarrow> (loop_id \<Rightarrow> ('k, 'm) world_scheme \<Rightarrow> ('k, 'm) world_scheme res) option \<Rightarrow>
    (nat \<Rightarrow> thread_ids) \<Rightarrow> nat \<Rightarrow> thread_pool \<times> ('k, 'm) world_scheme \<Rightarrow> (thread_pool \<times> ('k, 'm) world_scheme) res" where
  "start_thread K use_poll cb ids i = (\<lambda>(p, w).
     case mk_EventLoopThread (thread_name p i) w of (e, w1) \<Rightarrow>
       bind_r (startLoop K use_poll cb (ids i) e w1) (\<lambda>(l, e', w').
         Inr (p\<lparr>pool_threads := pool_threads p @ [e'], pool_loops := pool_loops p @ [l]\<rparr>, w')))"

definition pool_start :: "'k kernel \<Rightarrow> bool \<Rightarrow> (loop_id \<Rightarrow> ('k, 'm) world_scheme \<Rightarrow> ('k, 'm) world_scheme res) option \<Rightarrow>
    (nat \<Rightarrow> thread_ids) \<Rightarrow> thread_pool \<times> ('k, 'm) world_scheme \<Rightarrow> (thread_pool \<times> ('k, 'm) world_scheme) res" where
  "pool_start K use_poll cb ids = (\<lambda>(p, w).
     bind_r (fold_r (start_thread K use_poll cb ids) [0..<nat (numThreads p)] (p\<lparr>pool_started := True\<rparr>, w)) (\<lambda>(p', w').
       if numThreads p' = 0
       then (case cb of Some f \<Rightarrow> bind_r (f (baseLoop p') w') (\<lambda>w2. Inr (p', w2)) | None \<Rightarrow> Inr (p', w'))
       else Inr (p', w')))"

text \<open>The destructor's body is empty; the vector of threads goes, first element first.\<close>

definition destroy_EventLoopThreadPool :: "'k kernel \<Rightarrow>
    (loop_id \<Rightarrow> ('k, 'm) world_scheme \<Rightarrow> ('k, 'm) world_scheme res option) \<Rightarrow> thread_pool \<Rightarrow>
    ('k, 'm) world_scheme \<Rightarrow> ('k, 'm) world_scheme res" where
  "destroy_EventLoopThreadPool K rest p w = fold_r (destroy_EventLoopThread K rest) (pool_threads p) w"

text \<open>\<^verbatim>\<open>loops_[next_]\<close> outside the vector is undefined behaviour.\<close>

definition getNextLoop :: "thread_pool \<Rightarrow> (loop_id \<times> thread_pool) res" where
  "getNextLoop p =
     (if pool_loops p = [] then Inr (baseLoop p, p)
      else if 0 \<le> pool_next p \<and> pool_next p < int (length (pool_loops p))
      then (let n = pool_next p + 1
            in Inr (pool_loops p ! nat (pool_next p),
                 p\<lparr>pool_next := (if int (length (pool_loops p)) \<le> n then 0 else n)\<rparr>))
      else Inl Out_Of_Bounds)"

definition getAllLoops :: "thread_pool \<Rightarrow> loop_id list" where
  "getAllLoops p = (if pool_loops p = [] then [baseLoop p] else pool_loops p)"

section \<open>Round robin\<close>

text \<open>
  The contract of a selector that hands out the members of a list in turn: from a state in which the
  cursor is inside the list, a call returns the member under the cursor and advances it cyclically.
\<close>

fun picks :: "('s \<Rightarrow> ('a \<times> 's) res) \<Rightarrow> nat \<Rightarrow> 's \<Rightarrow> ('a list \<times> 's) res" where
  "picks pick 0 s = Inr ([], s)"
| "picks pick (Suc k) s =
     bind_r (pick s) (\<lambda>(x, s1). bind_r (picks pick k s1) (\<lambda>(xs, s2). Inr (x # xs, s2)))"

locale round_robin =
  fixes pick :: "'s \<Rightarrow> ('a \<times> 's) res" and members :: "'s \<Rightarrow> 'a list" and cursor :: "'s \<Rightarrow> nat" and ok :: "'s \<Rightarrow> bool"
  assumes cursor_in: "ok s \<Longrightarrow> cursor s < length (members s)"
    and pick_law: "ok s \<Longrightarrow> \<exists>s'. pick s = Inr (members s ! cursor s, s') \<and> ok s' \<and> members s' = members s \<and>
       cursor s' = Suc (cursor s) mod length (members s)"
begin

lemma picks_in_turn:
  assumes "ok s"
  shows "\<exists>s'. picks pick k s =
     Inr (map (\<lambda>i. members s ! ((cursor s + i) mod length (members s))) [0..<k], s') \<and> ok s' \<and>
     members s' = members s \<and> cursor s' = (cursor s + k) mod length (members s)"
  using assms
proof (induction k arbitrary: s)
  case 0
  then show ?case using cursor_in [OF 0] by simp
next
  case (Suc k)
  from pick_law [OF Suc.prems] obtain s1 where s1: "pick s = Inr (members s ! cursor s, s1)" "ok s1"
      "members s1 = members s" "cursor s1 = Suc (cursor s) mod length (members s)" by blast
  let ?n = "length (members s)"
  from Suc.IH [OF s1(2)] obtain s2 where s2: "picks pick k s1 =
      Inr (map (\<lambda>i. members s ! ((cursor s1 + i) mod ?n)) [0..<k], s2)" "ok s2" "members s2 = members s"
      "cursor s2 = (cursor s1 + k) mod ?n"
    unfolding s1(3) by blast
  have shift: "(cursor s1 + i) mod ?n = (cursor s + Suc i) mod ?n" for i
    unfolding s1(4) by (simp add: mod_add_left_eq)
  have first: "cursor s = cursor s mod ?n" using cursor_in [OF Suc.prems] by simp
  have "map (\<lambda>i. members s ! ((cursor s + i) mod ?n)) [0..<Suc k] =
      members s ! cursor s # map (\<lambda>i. members s ! ((cursor s + Suc i) mod ?n)) [0..<k]"
    using first by (simp add: upt_conv_Cons del: upt_Suc flip: map_Suc_upt)
  then show ?case using s1(1) s2 unfolding shift by (simp add: shift)
qed

text \<open>A full round from a fresh cursor gives every member once.\<close>

lemma full_round:
  assumes "ok s" and "cursor s = 0"
  shows "\<exists>s'. picks pick (length (members s)) s = Inr (members s, s') \<and> ok s' \<and> cursor s' = 0"
proof -
  let ?n = "length (members s)"
  have "map (\<lambda>i. members s ! ((cursor s + i) mod ?n)) [0..<?n] = members s"
    unfolding assms(2) by (rule nth_equalityI) simp_all
  with picks_in_turn [OF assms(1), of ?n] assms(2) show ?thesis by auto
qed

end

definition pool_ok :: "thread_pool \<Rightarrow> bool" where
  "pool_ok p \<longleftrightarrow> 0 \<le> pool_next p \<and> (if pool_loops p = [] then pool_next p = 0 else pool_next p < int (length (pool_loops p)))"

interpretation rr: round_robin getNextLoop getAllLoops "\<lambda>p. nat (pool_next p)" pool_ok
proof
  fix p assume ok: "pool_ok p"
  then show "nat (pool_next p) < length (getAllLoops p)"
    by (auto simp: pool_ok_def getAllLoops_def split: if_splits)
  show "\<exists>p'. getNextLoop p = Inr (getAllLoops p ! nat (pool_next p), p') \<and> pool_ok p' \<and>
      getAllLoops p' = getAllLoops p \<and> nat (pool_next p') = Suc (nat (pool_next p)) mod length (getAllLoops p)"
  proof (cases "pool_loops p = []")
    case True
    with ok show ?thesis by (simp add: getNextLoop_def getAllLoops_def pool_ok_def)
  next
    case False
    with ok have b: "0 \<le> pool_next p" "pool_next p < int (length (pool_loops p))" by (simp_all add: pool_ok_def)
    show ?thesis
    proof (cases "int (length (pool_loops p)) \<le> pool_next p + 1")
      case True
      with b have "Suc (nat (pool_next p)) = length (pool_loops p)" by linarith
      with True False b show ?thesis by (simp add: getNextLoop_def getAllLoops_def pool_ok_def Let_def)
    next
      case no: False
      with b have "Suc (nat (pool_next p)) < length (pool_loops p)" by linarith
      with no False b show ?thesis
        by (simp add: getNextLoop_def getAllLoops_def pool_ok_def Let_def nat_add_distrib)
    qed
  qed
qed

section \<open>Names\<close>

lemma thread_name_eq: "i < 2 ^ 31 \<Longrightarrow> thread_name p i = pool_name p @ dec i"
proof -
  assume "i < 2 ^ 31"
  then have "length (dec i) \<le> 10" by (intro length_dec) simp_all
  then show ?thesis by (simp add: thread_name_def snprintf_def fmt_d_def)
qed

lemma default_name_eq:
  "fst (mk_Thread [] w) =
     \<lparr>thr_started = False, thr_joined = False, thr_tid = 0, thr_name = ''Thread-'' @ fmt_d (sint (numCreated w))\<rparr>"
proof -
  have "- (2 ^ 31) \<le> sint (numCreated w)" "sint (numCreated w) < 2 ^ 31"
    using sint_greater_eq [of "numCreated w"] sint_less [of "numCreated w"] by simp_all
  then have "nat \<bar>sint (numCreated w)\<bar> < 10 ^ 10" by auto
  then have "length (dec (nat \<bar>sint (numCreated w)\<bar>)) \<le> 10" by (intro length_dec) simp_all
  then have "length (fmt_d (sint (numCreated w))) \<le> 11" unfolding fmt_d_def
    by (cases "sint (numCreated w) < 0") simp_all
  then show ?thesis by (simp add: mk_Thread_def setDefaultName_def snprintf_short)
qed

section \<open>Starting the pool\<close>

text \<open>The thread object of a started loop, named and with its id and loop known.\<close>

definition running_thread :: "thread_pool \<Rightarrow> (nat \<Rightarrow> thread_ids) \<Rightarrow> nat \<Rightarrow> event_loop_thread" where
  "running_thread p ids i =
     \<lparr>elt_loop = Some (fst (snd (ids i))), exiting = False,
      elt_thread = \<lparr>thr_started = True, thr_joined = False, thr_tid = fst (ids i), thr_name = thread_name p i\<rparr>\<rparr>"

lemma start_thread_returns:
  assumes G: "epoll_ctl_grants K interest" "loop_grants K" "epoll_create_contract K interest"
    and thr: "loopInThread w (fst (ids i)) = None" and i: "i < 2 ^ 31"
  shows "\<exists>w' el. start_thread K False None ids i (p, w) =
       Inr (p\<lparr>pool_threads := pool_threads p @ [running_thread p ids i],
              pool_loops := pool_loops p @ [fst (snd (ids i))]\<rparr>, w') \<and>
     cur_thread w' = cur_thread w \<and> loopInThread w' = (loopInThread w)(fst (ids i) \<mapsto> fst (snd (ids i))) \<and>
     loops w' = (loops w)(fst (snd (ids i)) \<mapsto> el)"
proof -
  obtain tid l ch where id: "ids i = (tid, l, ch)" by (metis prod.exhaust)
  have "thread_name p i \<noteq> []" unfolding thread_name_eq [OF i] by simp
  moreover have "\<exists>w' el. mk_EventLoop K False l ch (enter_thread tid (w\<lparr>numCreated := numCreated w + 1\<rparr>)) = Inr w' \<and>
      loopInThread w' = (loopInThread w)(tid \<mapsto> l) \<and> loops w' = (loops w)(l \<mapsto> el)"
    using mk_EventLoop_returns [OF G, of "enter_thread tid (w\<lparr>numCreated := numCreated w + 1\<rparr>)" l ch] thr id
    by (auto simp: enter_thread_def)
  ultimately show ?thesis
    using id by (auto simp: start_thread_def mk_EventLoopThread_def mk_Thread_def setDefaultName_def startLoop_def
        threadFunc_init_def Thread_start_def running_thread_def)
qed

lemma start_threads:
  assumes G: "epoll_ctl_grants K interest" "loop_grants K" "epoll_create_contract K interest" and m: "m \<le> 2 ^ 31"
    and ids: "inj_on (\<lambda>i. fst (ids i)) {..<m}" "\<forall>i < m. loopInThread w (fst (ids i)) = None" and "n \<le> m"
  shows "\<exists>w'. fold_r (start_thread K False None ids) [0..<n] (p, w) =
       Inr (p\<lparr>pool_threads := pool_threads p @ map (running_thread p ids) [0..<n],
              pool_loops := pool_loops p @ map (\<lambda>i. fst (snd (ids i))) [0..<n]\<rparr>, w') \<and>
     cur_thread w' = cur_thread w \<and> (\<forall>i < n. loops w' (fst (snd (ids i))) \<noteq> None) \<and>
     (\<forall>i < m. loopInThread w' (fst (ids i)) = (if i < n then Some (fst (snd (ids i))) else None))"
  using \<open>n \<le> m\<close>
proof (induction n)
  case 0
  then show ?case using ids(2) by simp
next
  case (Suc n)
  let ?p = "p\<lparr>pool_threads := pool_threads p @ map (running_thread p ids) [0..<n],
              pool_loops := pool_loops p @ map (\<lambda>i. fst (snd (ids i))) [0..<n]\<rparr>"
  from Suc obtain w1 where w1: "fold_r (start_thread K False None ids) [0..<n] (p, w) = Inr (?p, w1)"
      "cur_thread w1 = cur_thread w" "\<forall>i < n. loops w1 (fst (snd (ids i))) \<noteq> None"
      "\<forall>i < m. loopInThread w1 (fst (ids i)) = (if i < n then Some (fst (snd (ids i))) else None)"
    by auto
  have n: "n < m" "n < 2 ^ 31" using Suc.prems m by auto
  have "loopInThread w1 (fst (ids n)) = None" using w1(4) n(1) by simp
  from start_thread_returns [where ids = ids and i = n and p = ?p, OF G this n(2)] obtain w2 el where
    w2: "start_thread K False None ids n (?p, w1) =
       Inr (?p\<lparr>pool_threads := pool_threads ?p @ [running_thread ?p ids n],
              pool_loops := pool_loops ?p @ [fst (snd (ids n))]\<rparr>, w2)" "cur_thread w2 = cur_thread w1"
      "loopInThread w2 = (loopInThread w1)(fst (ids n) \<mapsto> fst (snd (ids n)))"
      "loops w2 = (loops w1)(fst (snd (ids n)) \<mapsto> el)" by blast
  have rt: "running_thread ?p ids n = running_thread p ids n" by (simp add: running_thread_def thread_name_def)
  have "fst (ids i) \<noteq> fst (ids n)" if "i < m" "i \<noteq> n" for i
    using ids(1) that n(1) by (metis inj_onD lessThan_iff)
  with w1(4) w2(3) have "\<forall>i < m. loopInThread w2 (fst (ids i)) =
      (if i < Suc n then Some (fst (snd (ids i))) else None)"
    by (auto simp: less_Suc_eq)
  moreover have "\<forall>i < Suc n. loops w2 (fst (snd (ids i))) \<noteq> None" using w1(3) w2(4) by (auto simp: less_Suc_eq)
  ultimately show ?case using w1(1,2) w2(1,2) rt by (simp add: fold_r_append)
qed

section \<open>Joining a thread\<close>

lemma quit_ok:
  assumes "loops w l = Some el"
  shows "\<exists>w'. loop_quit_op K l w = Inr w' \<and> loops w' = (loops w)(l \<mapsto> el\<lparr>loop_quit := True\<rparr>) \<and> chans w' = chans w \<and>
     cur_thread w' = cur_thread w"
proof -
  let ?w = "put_loop l (el\<lparr>loop_quit := True\<rparr>) w"
  have "loops ?w l = Some (el\<lparr>loop_quit := True\<rparr>)" by simp
  from wakeup_ok [OF this, of K] assms show ?thesis by (auto simp: loop_quit_op_def Let_def)
qed

text \<open>A loop that can be destroyed: it has its poller and, in it, its wakeup channel.\<close>

definition loop_up :: "loop_id \<Rightarrow> ('k, 'm) world_scheme \<Rightarrow> bool" where
  "loop_up l w \<longleftrightarrow> (\<exists>el p c. loops w l = Some el \<and> loop_poller el = Some p \<and>
     chans w (wakeupChannel el) = Some c \<and> ch_loop c = l \<and> ch_index c = kAdded)"

lemma ep_del_returns: "\<exists>\<sigma>'. ep_update K EPOLL_CTL_DEL i c p \<sigma> = Inr \<sigma>'"
  by (cases "ep_update K EPOLL_CTL_DEL i c p \<sigma>") (auto dest: ep_update_Inl)

text \<open>Taking a channel out of the kernel is never fatal, so the destructor of a loop returns.\<close>

lemma destroy_EventLoop_returns:
  assumes "loops w l = Some el" and "loop_poller el = Some p"
    and "chans w (wakeupChannel el) = Some c" "ch_loop c = l" "ch_index c = kAdded"
  shows "\<exists>w'. destroy_EventLoop K l w = Inr w' \<and> loops w' = (loops w)(l := None) \<and> cur_thread w' = cur_thread w"
proof -
  let ?i = "wakeupChannel el" and ?c = "request DisableAll c"
  let ?cs = "(chans w)(?i \<mapsto> ?c)"
  obtain s1 where s1: "ep_update K EPOLL_CTL_DEL ?i ?c p (wsys w) = Inr s1" using ep_del_returns by metis
  let ?w1 = "put_loop l el (w\<lparr>chans := ?cs, wsys := s1\<rparr>)"
  have up1: "EPollPoller_updateChannel K ?i (?cs, p, wsys w) = Inr (?cs, p, s1)"
    using s1 assms(5) by (simp add: isNoneEvent_def kNoneEvent_def)
  have el: "el\<lparr>loop_poller := Some p\<rparr> = el" using assms(2) by simp
  have r1: "Channel_request K DisableAll ?i w = Inr ?w1"
    using assms up1 by (simp add: Channel_request_def Channel_update_def loop_updateChannel_def lift_poller_def
        el put_chan_def del: EPollPoller_updateChannel.simps)
  obtain s2 where s2: "ep_update K EPOLL_CTL_DEL ?i ?c p s1 = Inr s2" using ep_del_returns by metis
  let ?p2 = "p\<lparr>po_channels := (po_channels p)(ch_fd c := None)\<rparr>"
  let ?w2 = "put_loop l (el\<lparr>loop_poller := Some ?p2\<rparr>) (?w1\<lparr>chans := ?cs(?i \<mapsto> set_index kNew ?c), wsys := s2\<rparr>)"
  have r2: "Channel_remove K ?i ?w1 = Inr ?w2"
    using assms s2 by (simp add: Channel_remove_def loop_removeChannel_def lift_poller_def)
  show ?thesis using assms(1) r1 r2 by (simp add: destroy_EventLoop_def Let_def)
qed

text \<open>A thread that is in \<^verbatim>\<open>loop()\<close> with \<^verbatim>\<open>quit_\<close> set ends.\<close>

lemma rest_ends:
  assumes "loop_up l w" and "loops w l = Some el" "loop_quit el"
  shows "\<exists>w'. map_option (\<lambda>r. bind_r r (destroy_EventLoop K l)) (map_option (leave_loop l) (loop_while K disp alive run l w)) =
      Some (Inr w') \<and> loops w' = (loops w)(l := None) \<and> cur_thread w' = cur_thread w"
proof -
  let ?w = "put_loop l (el\<lparr>looping := False\<rparr>) w"
  from assms obtain p c where up: "loop_poller el = Some p" "chans w (wakeupChannel el) = Some c" "ch_loop c = l"
      "ch_index c = kAdded" by (auto simp: loop_up_def)
  from destroy_EventLoop_returns [of ?w l "el\<lparr>looping := False\<rparr>" p c K] up obtain w' where
    "destroy_EventLoop K l ?w = Inr w'" "loops w' = (loops w)(l := None)" "cur_thread w' = cur_thread w"
    by auto
  then show ?thesis using assms(2,3) by (simp add: loop_while.simps leave_loop_def)
qed

section \<open>Properties\<close>

text \<open>
  C22. \<^verbatim>\<open>getNextLoop\<close> is a fair round robin over \<^verbatim>\<open>getAllLoops()\<close> (the base loop alone when there are no
  threads): from a pool whose cursor is in range the \<open>k\<close> next calls all return and give the members
  from the cursor on, cyclically, and the cursor stays in range; a full round from a new pool gives
  every loop exactly once.
\<close>

theorem getNextLoop_round_robin:
  assumes "pool_ok p"
  shows "\<exists>p'. picks getNextLoop k p =
     Inr (map (\<lambda>i. getAllLoops p ! ((nat (pool_next p) + i) mod length (getAllLoops p))) [0..<k], p') \<and>
     pool_ok p' \<and> (pool_next p = 0 \<and> k = length (getAllLoops p) \<longrightarrow> picks getNextLoop k p = Inr (getAllLoops p, p'))"
proof -
  obtain p' where p': "picks getNextLoop k p =
     Inr (map (\<lambda>i. getAllLoops p ! ((nat (pool_next p) + i) mod length (getAllLoops p))) [0..<k], p')" "pool_ok p'"
    using rr.picks_in_turn [OF assms, of k] by blast
  have "picks getNextLoop k p = Inr (getAllLoops p, p')" if "pool_next p = 0" "k = length (getAllLoops p)"
  proof -
    have "nat (pool_next p) = 0" using that by simp
    from rr.full_round [OF assms this] p' that show ?thesis by auto
  qed
  with p' show ?thesis by blast
qed

theorem getNextLoop_round_robin_witness:
  "\<exists>p'. picks getNextLoop 4 ((mk_EventLoopThreadPool 9 ''p'')\<lparr>pool_loops := [1, 2, 3]\<rparr>) = Inr ([1, 2, 3, 1], p')"
proof -
  have "pool_ok ((mk_EventLoopThreadPool 9 ''p'')\<lparr>pool_loops := [1, 2, 3]\<rparr>)"
    by (simp add: pool_ok_def mk_EventLoopThreadPool_def)
  from getNextLoop_round_robin [OF this, of 4] obtain p' where
    "picks getNextLoop 4 ((mk_EventLoopThreadPool 9 ''p'')\<lparr>pool_loops := [1, 2, 3]\<rparr>) =
      Inr (map (\<lambda>i. [1, 2, 3] ! (i mod 3)) [0..<4], p')"
    by (auto simp: mk_EventLoopThreadPool_def getAllLoops_def)
  moreover have "[0..<4] = [0, 1, 2, 3]" by (simp add: upt_rec)
  ultimately show ?thesis by simp
qed

lemma pool_start_ok:
  assumes "epoll_ctl_grants K interest" and "loop_grants K" and "epoll_create_contract K interest"
    and "p = setThreadNum (int n) (mk_EventLoopThreadPool l name)" and "n < 2 ^ 31"
    and "inj_on (\<lambda>i. fst (ids i)) {..<n}" and "\<forall>i < n. loopInThread w (fst (ids i)) = None"
  shows "\<exists>p' w'. pool_start K False None ids (p, w) = Inr (p', w') \<and>
     p' = p\<lparr>pool_started := True, pool_threads := map (running_thread p ids) [0..<n],
            pool_loops := map (\<lambda>i. fst (snd (ids i))) [0..<n]\<rparr> \<and> pool_ok p' \<and>
     cur_thread w' = cur_thread w \<and> (\<forall>i < n. loops w' (fst (snd (ids i))) \<noteq> None) \<and>
     (\<forall>i < n. loopInThread w' (fst (ids i)) = Some (fst (snd (ids i))))"
proof -
  let ?p = "p\<lparr>pool_started := True\<rparr>"
  let ?p' = "?p\<lparr>pool_threads := pool_threads ?p @ map (running_thread ?p ids) [0..<n],
              pool_loops := pool_loops ?p @ map (\<lambda>i. fst (snd (ids i))) [0..<n]\<rparr>"
  have p: "pool_threads p = []" "pool_loops p = []" "numThreads p = int n" "pool_next p = 0"
    using assms(4) by (simp_all add: setThreadNum_def mk_EventLoopThreadPool_def)
  have rt: "running_thread ?p ids = running_thread p ids"
    by (intro ext) (simp add: running_thread_def thread_name_def)
  obtain w' where w': "fold_r (start_thread K False None ids) [0..<n] (?p, w) = Inr (?p', w')"
      "cur_thread w' = cur_thread w" "\<forall>i < n. loops w' (fst (snd (ids i))) \<noteq> None"
      "\<forall>i < n. loopInThread w' (fst (ids i)) = Some (fst (snd (ids i)))"
    using start_threads [OF assms(1-3) less_imp_le [OF assms(5)] assms(6,7) order_refl, of ?p] by auto
  have "pool_start K False None ids (p, w) = Inr (?p', w')"
    using w'(1) p by (simp add: pool_start_def)
  moreover have "pool_ok ?p'" using p by (simp add: pool_ok_def)
  ultimately show ?thesis using w'(2-4) p rt by (intro exI [of _ ?p'] exI [of _ w']) simp
qed

text \<open>
  \<^verbatim>\<open>start()\<close> of a new pool on a kernel with resources returns with one loop per thread, in order, each
  recorded as the loop of its own thread, all thread names different, the caller's thread unchanged,
  and \<^verbatim>\<open>getNextLoop\<close> ready to serve them.
\<close>

lemma pool_start_loops:
  assumes "epoll_ctl_grants K interest" and "loop_grants K" and "epoll_create_contract K interest"
    and "p = setThreadNum (int n) (mk_EventLoopThreadPool l name)" and "n < 2 ^ 31"
    and "inj_on (\<lambda>i. fst (ids i)) {..<n}" and "\<forall>i < n. loopInThread w (fst (ids i)) = None"
  shows "\<exists>p' w'. pool_start K False None ids (p, w) = Inr (p', w') \<and>
     pool_loops p' = map (\<lambda>i. fst (snd (ids i))) [0..<n] \<and> pool_started p' \<and> pool_ok p' \<and>
     length (pool_threads p') = n \<and> distinct (map (\<lambda>e. thr_name (elt_thread e)) (pool_threads p')) \<and>
     cur_thread w' = cur_thread w \<and>
     (\<forall>i < n. loopInThread w' (fst (ids i)) = Some (fst (snd (ids i))))"
proof -
  obtain p' w' where w': "pool_start K False None ids (p, w) = Inr (p', w')"
      "p' = p\<lparr>pool_started := True, pool_threads := map (running_thread p ids) [0..<n],
            pool_loops := map (\<lambda>i. fst (snd (ids i))) [0..<n]\<rparr>" "pool_ok p'"
      "cur_thread w' = cur_thread w" "\<forall>i < n. loopInThread w' (fst (ids i)) = Some (fst (snd (ids i)))"
    using pool_start_ok [OF assms] by blast
  have "distinct (map (\<lambda>e. thr_name (elt_thread e)) (pool_threads p'))"
    using assms(5) unfolding w'(2) by (auto simp: distinct_map inj_on_def running_thread_def thread_name_eq comp_def)
  then show ?thesis using w' by (intro exI [of _ p'] exI [of _ w']) simp
qed

definition demo_ids :: "nat \<Rightarrow> thread_ids" where
  "demo_ids i = (int i + 10, i + 1, i + 20)"

lemma demo_ids_ok:
  "inj_on (\<lambda>i. fst (demo_ids i)) {..<2}" "\<forall>i < 2. loopInThread demo_world (fst (demo_ids i)) = None"
  "map (\<lambda>i. fst (snd (demo_ids i))) [0..<2] = [1, 2]" "(2 :: nat) < 2 ^ 31"
  by (simp_all add: inj_on_def demo_ids_def demo_world_def upt_rec)

lemma pool_start_loops_witness:
  "\<exists>p' w'. pool_start sim_kernel False None demo_ids
       (setThreadNum (int 2) (mk_EventLoopThreadPool 0 ''srv''), demo_world) = Inr (p', w') \<and>
     pool_loops p' = [1, 2]"
  using pool_start_loops [OF sim_epoll_ctl_grants sim_loop_grants sim_epoll_create refl demo_ids_ok(4,1,2), of 0 "''srv''"]
  unfolding demo_ids_ok(3) by blast

text \<open>
  C33. The destructor of an \<^verbatim>\<open>EventLoopThread\<close> calls \<^verbatim>\<open>quit()\<close> and joins, for a started thread that has its loop. If the
  thread is inside \<^verbatim>\<open>loop()\<close>, at the test of \<^verbatim>\<open>quit_\<close>, or in \<^verbatim>\<open>epoll_wait\<close> and the pass it is woken for returns with the
  loop in place and \<^verbatim>\<open>quit_\<close> still set, then the destructor returns, the thread is joined (nothing aborts) and its loop
  is gone. If the thread has not yet entered \<^verbatim>\<open>loop()\<close>, and the passes of the loop return and never set \<^verbatim>\<open>quit_\<close>
  (\<open>I\<close>), the \<^verbatim>\<open>quit()\<close> is lost, \<^verbatim>\<open>join()\<close> never returns, and neither does the destructor of a pool whose first
  thread this is.
\<close>

theorem destructor_joins:
  assumes e: "elt_loop e = Some l" "thr_started (elt_thread e)" "\<not> thr_joined (elt_thread e)"
    and w: "loops w l = Some el" "loop_up l w"
  shows "\<exists>w1. loop_quit_op K l w = Inr w1 \<and>
     (\<exists>w'. destroy_EventLoopThread K (threadFunc_rest K disp alive run At_Test) e w = Inr w' \<and>
        loops w' = (loops w)(l := None) \<and> cur_thread w' = cur_thread w) \<and>
     (\<forall>w2 el2. loop_iter K disp alive run l (w1\<lparr>cur_thread := thr_tid (elt_thread e)\<rparr>) = Inr w2 \<and> loop_up l w2 \<and>
          loops w2 l = Some el2 \<and> loop_quit el2 \<longrightarrow>
        (\<exists>w'. destroy_EventLoopThread K (threadFunc_rest K disp alive run In_Wait) e w = Inr w' \<and>
           loops w' = (loops w2)(l := None) \<and> cur_thread w' = cur_thread w)) \<and>
     (\<forall>I. I (put_loop l (el\<lparr>looping := True, loop_quit := False\<rparr>) (w1\<lparr>cur_thread := thr_tid (elt_thread e)\<rparr>)) \<and>
          (\<forall>u. I u \<longrightarrow> (\<exists>u'. loop_iter K disp alive run l u = Inr u' \<and> I u') \<and> (\<exists>el'. loops u l = Some el' \<and> \<not> loop_quit el')) \<longrightarrow>
        (\<forall>p es. pool_threads p = e # es \<longrightarrow>
           destroy_EventLoopThread K (threadFunc_rest K disp alive run Before_Loop) e w = Inl Never_Returns \<and>
           destroy_EventLoopThreadPool K (threadFunc_rest K disp alive run Before_Loop) p w = Inl Never_Returns))"
proof -
  let ?tid = "thr_tid (elt_thread e)"
  obtain w1 where w1: "loop_quit_op K l w = Inr w1" "loops w1 = (loops w)(l \<mapsto> el\<lparr>loop_quit := True\<rparr>)"
      "chans w1 = chans w" "cur_thread w1 = cur_thread w" using quit_ok [OF w(1), of K] by blast
  let ?w1 = "w1\<lparr>cur_thread := ?tid\<rparr>"
  have up: "loop_up l ?w1" "loops ?w1 l = Some (el\<lparr>loop_quit := True\<rparr>)"
    using w w1 by (auto simp: loop_up_def)
  have "\<exists>w'. destroy_EventLoopThread K (threadFunc_rest K disp alive run At_Test) e w = Inr w' \<and>
      loops w' = (loops w)(l := None) \<and> cur_thread w' = cur_thread w"
    using rest_ends [OF up, of K disp alive run] e w1
    by (auto simp: destroy_EventLoopThread_def Thread_join_def threadFunc_rest_def destroy_Thread_def)
  moreover have "\<exists>w'. destroy_EventLoopThread K (threadFunc_rest K disp alive run In_Wait) e w = Inr w' \<and>
      loops w' = (loops w2)(l := None) \<and> cur_thread w' = cur_thread w"
    if "loop_iter K disp alive run l ?w1 = Inr w2" "loop_up l w2" "loops w2 l = Some el2" "loop_quit el2" for w2 el2
    using rest_ends [OF that(2-4), of K disp alive run] e w1 that(1)
    by (auto simp: destroy_EventLoopThread_def Thread_join_def threadFunc_rest_def destroy_Thread_def)
  moreover have never: "destroy_EventLoopThread K (threadFunc_rest K disp alive run Before_Loop) e w = Inl Never_Returns"
    if I: "I (put_loop l (el\<lparr>looping := True, loop_quit := False\<rparr>) ?w1)"
      "\<And>u. I u \<Longrightarrow> \<exists>u'. loop_iter K disp alive run l u = Inr u' \<and> I u'"
      "\<And>u. I u \<Longrightarrow> \<exists>el'. loops u l = Some el' \<and> \<not> loop_quit el'" for I
  proof -
    let ?u = "put_loop l (el\<lparr>looping := True, loop_quit := False\<rparr>) ?w1"
    have "loop_while K disp alive run l ?u = None"
    proof (rule ccontr)
      assume "\<not> ?thesis"
      then obtain r where "loop_while K disp alive run l ?u = Some r" by auto
      then have "\<exists>e. r = Inl e \<and> False" by (rule loop_while_ends [where P = I]) (use I in blast)+
      then show False by simp
    qed
    then have "EventLoop_loop K disp alive run l ?w1 = None" using up(2) by (simp add: EventLoop_loop_def)
    then show ?thesis using e w1(1)
      by (simp add: destroy_EventLoopThread_def Thread_join_def threadFunc_rest_def)
  qed
  ultimately show ?thesis using w1(1) by (auto simp: destroy_EventLoopThreadPool_def)
qed

text \<open>A loop on the concrete kernel with nothing ready, as one thread of a pool.\<close>

definition demo_thread_world :: "sim world" where
  "demo_thread_world = demo_world\<lparr>chans := (\<lambda>_. None)(0 \<mapsto> (mk_Channel 0 4)\<lparr>ch_events := kReadEvent, ch_index := kAdded\<rparr>)\<rparr>"

definition demo_elt :: event_loop_thread where
  "demo_elt = \<lparr>elt_loop = Some 0, exiting = False,
     elt_thread = \<lparr>thr_started = True, thr_joined = False, thr_tid = 7, thr_name = ''t0''\<rparr>\<rparr>"

lemma fold_r_idle [simp]: "fold_r (\<lambda>_. Inr) xs w = Inr w"
  by (induction xs) simp_all

lemma demo_pass:
  assumes "loops u 0 = Some el" "loop_poller el = Some p" "sim_ready (os (wsys u)) = []"
  shows "\<exists>u' el' p'. loop_iter sim_kernel (\<lambda>_ _. Inr) (\<lambda>_ _. True) (\<lambda>_. Inr) 0 u = Inr u' \<and> loops u' 0 = Some el' \<and>
     loop_poller el' = Some p' \<and> loop_quit el' = loop_quit el \<and> sim_ready (os (wsys u')) = []"
  using assms by (simp add: loop_iter_def loop_poll_def doPendingFunctors_def sim_kernel_def Let_def)

theorem destructor_joins_witness:
  "(\<exists>w'. destroy_EventLoopThread sim_kernel (threadFunc_rest sim_kernel (\<lambda>_ _. Inr) (\<lambda>_ _. True) (\<lambda>_. Inr) At_Test)
      demo_elt demo_thread_world = Inr w' \<and> loops w' 0 = None) \<and>
   destroy_EventLoopThread sim_kernel (threadFunc_rest sim_kernel (\<lambda>_ _. Inr) (\<lambda>_ _. True) (\<lambda>_. Inr) Before_Loop)
      demo_elt demo_thread_world = Inl Never_Returns"
proof -
  let ?I = "\<lambda>u :: sim world. \<exists>el p. loops u 0 = Some el \<and> loop_poller el = Some p \<and> \<not> loop_quit el \<and> sim_ready (os (wsys u)) = []"
  have e: "elt_loop demo_elt = Some 0" "thr_started (elt_thread demo_elt)" "\<not> thr_joined (elt_thread demo_elt)"
    by (simp_all add: demo_elt_def)
  have w: "loops demo_thread_world 0 = Some demo_loop" "loop_up 0 demo_thread_world"
    by (simp_all add: demo_thread_world_def demo_world_def loop_up_def demo_loop_def mk_Channel_def)
  let ?iter = "loop_iter sim_kernel (\<lambda>_ _. Inr) (\<lambda>_ _. True) (\<lambda>_. Inr) 0"
  from destructor_joins [OF e w, of sim_kernel "\<lambda>_ _. Inr" "\<lambda>_ _. True" "\<lambda>_. Inr"] obtain w1 where
    w1: "loop_quit_op sim_kernel 0 demo_thread_world = Inr w1" and
    ends: "\<exists>w'. destroy_EventLoopThread sim_kernel (threadFunc_rest sim_kernel (\<lambda>_ _. Inr) (\<lambda>_ _. True) (\<lambda>_. Inr) At_Test)
        demo_elt demo_thread_world = Inr w' \<and> loops w' = (loops demo_thread_world)(0 := None) \<and>
        cur_thread w' = cur_thread demo_thread_world" and
    never: "\<forall>I. I (put_loop 0 (demo_loop\<lparr>looping := True, loop_quit := False\<rparr>)
          (w1\<lparr>cur_thread := thr_tid (elt_thread demo_elt)\<rparr>)) \<and>
        (\<forall>u. I u \<longrightarrow> (\<exists>u'. ?iter u = Inr u' \<and> I u') \<and> (\<exists>el'. loops u 0 = Some el' \<and> \<not> loop_quit el')) \<longrightarrow>
        (\<forall>p es. pool_threads p = demo_elt # es \<longrightarrow>
           destroy_EventLoopThread sim_kernel (threadFunc_rest sim_kernel (\<lambda>_ _. Inr) (\<lambda>_ _. True) (\<lambda>_. Inr) Before_Loop)
             demo_elt demo_thread_world = Inl Never_Returns \<and>
           destroy_EventLoopThreadPool sim_kernel
             (threadFunc_rest sim_kernel (\<lambda>_ _. Inr) (\<lambda>_ _. True) (\<lambda>_. Inr) Before_Loop) p demo_thread_world = Inl Never_Returns)"
    by - (erule exE, (erule conjE)+, rule that)
  have ready: "sim_ready (os (wsys w1)) = []" using w1
    by (auto simp: loop_quit_op_def demo_thread_world_def demo_world_def isInLoopThread_def tid_of_def cacheTid_def
        demo_loop_def Let_def with_loop_def sim0_def)
  have I: "?I (put_loop 0 (demo_loop\<lparr>looping := True, loop_quit := False\<rparr>) (w1\<lparr>cur_thread := thr_tid (elt_thread demo_elt)\<rparr>)) \<and>
      (\<forall>u. ?I u \<longrightarrow> (\<exists>u'. ?iter u = Inr u' \<and> ?I u') \<and> (\<exists>el'. loops u 0 = Some el' \<and> \<not> loop_quit el'))"
  proof (intro conjI allI impI)
    show "?I (put_loop 0 (demo_loop\<lparr>looping := True, loop_quit := False\<rparr>) (w1\<lparr>cur_thread := thr_tid (elt_thread demo_elt)\<rparr>))"
      using ready by (simp add: demo_loop_def)
    fix u assume u: "?I u"
    then show "\<exists>el'. loops u 0 = Some el' \<and> \<not> loop_quit el'" by blast
    from u obtain el p where el: "loops u 0 = Some el" "loop_poller el = Some p" "\<not> loop_quit el" "sim_ready (os (wsys u)) = []"
      by blast
    from demo_pass [OF el(1,2,4)] el(3) show "\<exists>u'. ?iter u = Inr u' \<and> ?I u'" by metis
  qed
  have "pool_threads ((mk_EventLoopThreadPool 9 ''p'')\<lparr>pool_threads := [demo_elt]\<rparr>) = demo_elt # []" by simp
  from never [rule_format, OF I this] ends show ?thesis by (metis fun_upd_same)
qed

end
