(* ===== verification/ThreadProtocol.thy ===== *)
theory ThreadProtocol
  imports EventLoopThread Transition
begin

text \<open>
  The hand-over of a loop between the thread that calls \<^verbatim>\<open>EventLoopThread::startLoop()\<close> (and later destroys
  the object) and the new thread that runs \<^verbatim>\<open>Thread::start()\<close>'s lambda and \<^verbatim>\<open>threadFunc()\<close>, interleaved at the
  semaphore, the mutex, the condition variable and the accesses to \<^verbatim>\<open>loop_\<close> and \<^verbatim>\<open>tid_\<close>. \<open>tid\<close> and \<open>l\<close> are the
  new thread's id and its \<^verbatim>\<open>EventLoop\<close> object.
\<close>

text \<open>The calling thread: in \<^verbatim>\<open>start()\<close>, in \<^verbatim>\<open>startLoop()\<close>, back from it, and in \<^verbatim>\<open>~EventLoopThread()\<close>.\<close>

datatype main_pc =
    MStart | MSem | MLock | MTest | MWaiting | MRead | MDone | MQuit | MJoin | MJoined | MUnjoined

text \<open>The new thread: not created, in the lambda, in \<^verbatim>\<open>threadFunc()\<close>, ended.\<close>

datatype new_pc =
    TNone | TTid | TPost | TCache | TCtor | TCallback | TLock | TPublish | TNotify | TLoop | TLock2 | TClear
  | TDestroy | TReset | TEnd

datatype owner = Main | New

record handover =
  m_pc :: main_pc
  t_pc :: new_pc
  sem :: nat
  tid_field :: tid
  loop_ptr :: "loop_id option"
  mutex :: "owner option"
  notified :: bool
  ret :: "loop_id option"
  loop_alive :: bool
  cb_done :: bool
  quit_on_dead :: bool

definition ho_init :: handover where
  "ho_init = \<lparr>m_pc = MStart, t_pc = TNone, sem = 0, tid_field = 0, loop_ptr = None, mutex = None,
     notified = False, ret = None, loop_alive = False, cb_done = False, quit_on_dead = False\<rparr>"

inductive ho_step :: "tid \<Rightarrow> loop_id \<Rightarrow> handover \<Rightarrow> handover \<Rightarrow> bool" for tid l where
  m_create: "m_pc s = MStart \<Longrightarrow> ho_step tid l s (s\<lparr>m_pc := MSem, t_pc := TTid\<rparr>)"
| m_sem_wait: "m_pc s = MSem \<Longrightarrow> 0 < sem s \<Longrightarrow> ho_step tid l s (s\<lparr>m_pc := MLock, sem := sem s - 1\<rparr>)"
| m_lock: "m_pc s = MLock \<Longrightarrow> mutex s = None \<Longrightarrow> ho_step tid l s (s\<lparr>m_pc := MTest, mutex := Some Main\<rparr>)"
| m_wait: "m_pc s = MTest \<Longrightarrow> loop_ptr s = None \<Longrightarrow>
     ho_step tid l s (s\<lparr>m_pc := MWaiting, mutex := None, notified := False\<rparr>)"
| m_wake: "m_pc s = MWaiting \<Longrightarrow> notified s \<Longrightarrow> mutex s = None \<Longrightarrow>
     ho_step tid l s (s\<lparr>m_pc := MTest, mutex := Some Main\<rparr>)"
| m_spurious: "m_pc s = MWaiting \<Longrightarrow> mutex s = None \<Longrightarrow>
     ho_step tid l s (s\<lparr>m_pc := MTest, mutex := Some Main\<rparr>)"
| m_found: "m_pc s = MTest \<Longrightarrow> loop_ptr s \<noteq> None \<Longrightarrow> ho_step tid l s (s\<lparr>m_pc := MRead\<rparr>)"
| m_return: "m_pc s = MRead \<Longrightarrow> ho_step tid l s (s\<lparr>m_pc := MDone, ret := loop_ptr s, mutex := None\<rparr>)"
| m_dtor_null: "m_pc s = MDone \<Longrightarrow> loop_ptr s = None \<Longrightarrow> ho_step tid l s (s\<lparr>m_pc := MUnjoined\<rparr>)"
| m_dtor_loop: "m_pc s = MDone \<Longrightarrow> loop_ptr s \<noteq> None \<Longrightarrow> ho_step tid l s (s\<lparr>m_pc := MQuit\<rparr>)"
| m_quit: "m_pc s = MQuit \<Longrightarrow> ho_step tid l s (s\<lparr>m_pc := MJoin, quit_on_dead := \<not> loop_alive s\<rparr>)"
| m_join: "m_pc s = MJoin \<Longrightarrow> t_pc s = TEnd \<Longrightarrow> ho_step tid l s (s\<lparr>m_pc := MJoined\<rparr>)"
| t_tid: "t_pc s = TTid \<Longrightarrow> ho_step tid l s (s\<lparr>t_pc := TPost, tid_field := tid\<rparr>)"
| t_post: "t_pc s = TPost \<Longrightarrow> ho_step tid l s (s\<lparr>t_pc := TCache, sem := Suc (sem s)\<rparr>)"
| t_cache: "t_pc s = TCache \<Longrightarrow> ho_step tid l s (s\<lparr>t_pc := TCtor\<rparr>)"
| t_ctor: "t_pc s = TCtor \<Longrightarrow> ho_step tid l s (s\<lparr>t_pc := TCallback, loop_alive := True\<rparr>)"
| t_callback: "t_pc s = TCallback \<Longrightarrow> ho_step tid l s (s\<lparr>t_pc := TLock, cb_done := True\<rparr>)"
| t_lock: "t_pc s = TLock \<Longrightarrow> mutex s = None \<Longrightarrow> ho_step tid l s (s\<lparr>t_pc := TPublish, mutex := Some New\<rparr>)"
| t_publish: "t_pc s = TPublish \<Longrightarrow> ho_step tid l s (s\<lparr>t_pc := TNotify, loop_ptr := Some l\<rparr>)"
| t_notify: "t_pc s = TNotify \<Longrightarrow>
     ho_step tid l s (s\<lparr>t_pc := TLoop, notified := (m_pc s = MWaiting \<or> notified s), mutex := None\<rparr>)"
| t_loop_returns: "t_pc s = TLoop \<Longrightarrow> ho_step tid l s (s\<lparr>t_pc := TLock2\<rparr>)"
| t_lock2: "t_pc s = TLock2 \<Longrightarrow> mutex s = None \<Longrightarrow> ho_step tid l s (s\<lparr>t_pc := TClear, mutex := Some New\<rparr>)"
| t_clear: "t_pc s = TClear \<Longrightarrow> ho_step tid l s (s\<lparr>t_pc := TDestroy, loop_ptr := None, mutex := None\<rparr>)"
| t_destroy: "t_pc s = TDestroy \<Longrightarrow> ho_step tid l s (s\<lparr>t_pc := TReset, loop_alive := False\<rparr>)"
| t_end: "t_pc s = TReset \<Longrightarrow> ho_step tid l s (s\<lparr>t_pc := TEnd, tid_field := 0\<rparr>)"

section \<open>Invariants\<close>

definition holds_mutex :: "handover \<Rightarrow> bool" where
  "holds_mutex s \<longleftrightarrow> (mutex s = Some Main \<longleftrightarrow> m_pc s \<in> {MTest, MRead}) \<and>
     (mutex s = Some New \<longleftrightarrow> t_pc s \<in> {TPublish, TNotify, TClear})"

definition created :: "handover \<Rightarrow> bool" where
  "created s \<longleftrightarrow> (m_pc s = MStart \<longleftrightarrow> t_pc s = TNone)"

definition posted :: "handover \<Rightarrow> bool" where
  "posted s \<longleftrightarrow> created s \<and> (0 < sem s \<longrightarrow> t_pc s \<notin> {TNone, TTid, TPost}) \<and>
     (m_pc s = MSem \<and> t_pc s \<notin> {TNone, TTid, TPost} \<longrightarrow> 0 < sem s) \<and>
     (m_pc s \<notin> {MStart, MSem} \<longrightarrow> t_pc s \<notin> {TNone, TTid, TPost})"

definition tid_known :: "tid \<Rightarrow> handover \<Rightarrow> bool" where
  "tid_known tid s \<longleftrightarrow> created s \<and> (t_pc s \<notin> {TNone, TTid, TEnd} \<longrightarrow> tid_field s = tid)"

definition published :: "loop_id \<Rightarrow> handover \<Rightarrow> bool" where
  "published l s \<longleftrightarrow> created s \<and>
     (loop_ptr s = (if t_pc s \<in> {TNotify, TLoop, TLock2, TClear} then Some l else None)) \<and>
     (t_pc s \<in> {TCallback, TLock, TPublish, TNotify, TLoop, TLock2, TClear, TDestroy} \<longrightarrow> loop_alive s) \<and>
     (t_pc s \<in> {TLock, TPublish, TNotify, TLoop, TLock2, TClear} \<longrightarrow> cb_done s)"

definition returned :: "loop_id \<Rightarrow> handover \<Rightarrow> bool" where
  "returned l s \<longleftrightarrow> published l s \<and> holds_mutex s \<and> (m_pc s = MRead \<longrightarrow> loop_ptr s = Some l) \<and>
     (m_pc s \<in> {MDone, MQuit, MJoin, MJoined, MUnjoined} \<longrightarrow> ret s = Some l)"

definition notify_seen :: "loop_id \<Rightarrow> handover \<Rightarrow> bool" where
  "notify_seen l s \<longleftrightarrow> published l s \<and> holds_mutex s \<and>
     (m_pc s = MWaiting \<and> t_pc s \<in> {TLoop, TLock2, TClear} \<longrightarrow> notified s)"

lemma created_step: "ho_step tid l s t \<Longrightarrow> created s \<Longrightarrow> created t"
  by (erule ho_step.cases) (auto simp: created_def)

lemma holds_mutex_step: "ho_step tid l s t \<Longrightarrow> created s \<Longrightarrow> holds_mutex s \<Longrightarrow> holds_mutex t"
  by (erule ho_step.cases) (simp_all add: holds_mutex_def created_def, auto)

lemma published_step: "ho_step tid l s t \<Longrightarrow> published l s \<Longrightarrow> published l t"
  by (frule created_step, simp add: published_def) (erule ho_step.cases, simp_all add: published_def created_def)

interpretation sm: step_invariant ho_init "ho_step tid l" posted for tid l
proof
  show "posted ho_init" by (simp add: posted_def created_def ho_init_def)
  fix s t assume I: "posted s" and st: "ho_step tid l s t"
  moreover from I have "created s" by (simp add: posted_def)
  ultimately have "created t" using created_step by blast
  with st I show "posted t" by cases (simp_all add: posted_def created_def, auto)
qed

interpretation td: step_invariant ho_init "ho_step tid l" "tid_known tid" for tid l
proof
  show "tid_known tid ho_init" by (simp add: tid_known_def created_def ho_init_def)
  fix s t assume I: "tid_known tid s" and st: "ho_step tid l s t"
  moreover from I have "created s" by (simp add: tid_known_def)
  ultimately have "created t" using created_step by blast
  with st I show "tid_known tid t" by cases (simp_all add: tid_known_def created_def)
qed

interpretation rt: step_invariant ho_init "ho_step tid l" "returned l" for tid l
proof
  show "returned l ho_init" by (simp add: returned_def published_def holds_mutex_def created_def ho_init_def)
  fix s t assume I: "returned l s" and st: "ho_step tid l s t"
  then have pub: "published l s" "published l t" and mx: "holds_mutex s" "holds_mutex t"
    using published_step [OF st] holds_mutex_step [OF st] by (auto simp: returned_def published_def)
  have "m_pc t = MRead \<longrightarrow> loop_ptr t = Some l"
    using st I by cases (simp_all add: returned_def published_def holds_mutex_def split: if_splits, auto)
  moreover have "m_pc t \<in> {MDone, MQuit, MJoin, MJoined, MUnjoined} \<longrightarrow> ret t = Some l"
    using st I by cases (simp_all add: returned_def)
  ultimately show "returned l t" using pub mx by (simp add: returned_def)
qed

interpretation ns: step_invariant ho_init "ho_step tid l" "notify_seen l" for tid l
proof
  show "notify_seen l ho_init" by (simp add: notify_seen_def published_def holds_mutex_def created_def ho_init_def)
  fix s t assume I: "notify_seen l s" and st: "ho_step tid l s t"
  then have pub: "published l s" "published l t" and mx: "holds_mutex s" "holds_mutex t"
    using published_step [OF st] holds_mutex_step [OF st] by (auto simp: notify_seen_def published_def)
  have "m_pc t = MWaiting \<and> t_pc t \<in> {TLoop, TLock2, TClear} \<longrightarrow> notified t"
    using st I pub(1) by cases (simp_all add: notify_seen_def published_def split: if_splits)
  then show "notify_seen l t" using pub mx by (simp add: notify_seen_def)
qed

section \<open>Runs\<close>

lemma mutex_free:
  assumes "holds_mutex s" and "m_pc s \<notin> {MTest, MRead}" and "t_pc s \<notin> {TPublish, TNotify, TClear}"
  shows "mutex s = None"
  using assms by (cases "mutex s"; cases "the (mutex s)") (auto simp: holds_mutex_def)

lemma finish_found:
  assumes "m_pc s = MTest" and "loop_ptr s = Some l" and "t_pc s = TLoop"
  shows "\<exists>s'. (ho_step tid l)\<^sup>*\<^sup>* s s' \<and> m_pc s' = MDone \<and> ret s' = Some l \<and> t_pc s' = TLoop"
proof -
  let ?a = "s\<lparr>m_pc := MRead\<rparr>"
  let ?b = "?a\<lparr>m_pc := MDone, ret := loop_ptr ?a, mutex := None\<rparr>"
  have "ho_step tid l s ?a" using assms by (intro m_found) simp_all
  moreover have "ho_step tid l ?a ?b" by (rule m_return) simp
  ultimately have "(ho_step tid l)\<^sup>*\<^sup>* s ?b" by (meson converse_rtranclp_into_rtranclp rtranclp.rtrancl_refl)
  with assms show ?thesis by (intro exI [of _ ?b]) simp
qed

lemma finish_locked:
  assumes "m_pc s = MLock \<or> m_pc s = MWaiting \<and> notified s" and "mutex s = None" and "loop_ptr s = Some l" and "t_pc s = TLoop"
  shows "\<exists>s'. (ho_step tid l)\<^sup>*\<^sup>* s s' \<and> m_pc s' = MDone \<and> ret s' = Some l \<and> t_pc s' = TLoop"
proof -
  let ?a = "s\<lparr>m_pc := MTest, mutex := Some Main\<rparr>"
  have "ho_step tid l s ?a" using assms by (auto intro: m_lock m_wake)
  with finish_found [of ?a l tid] assms show ?thesis by (auto intro: converse_rtranclp_into_rtranclp)
qed

text \<open>The concrete states of one run: the new thread in its loop, the caller not yet past the semaphore.\<close>

definition ho_looping :: "tid \<Rightarrow> loop_id \<Rightarrow> handover" where
  "ho_looping tid l = ho_init\<lparr>m_pc := MSem, t_pc := TLoop, sem := 1, tid_field := tid, loop_ptr := Some l,
     loop_alive := True, cb_done := True\<rparr>"

lemma reachable_looping: "reachable ho_init (ho_step tid l) (ho_looping tid l)"
proof -
  let ?s1 = "ho_init\<lparr>m_pc := MSem, t_pc := TTid\<rparr>"
  let ?s2 = "?s1\<lparr>t_pc := TPost, tid_field := tid\<rparr>"
  let ?s3 = "?s2\<lparr>t_pc := TCache, sem := Suc (sem ?s2)\<rparr>"
  let ?s4 = "?s3\<lparr>t_pc := TCtor\<rparr>"
  let ?s5 = "?s4\<lparr>t_pc := TCallback, loop_alive := True\<rparr>"
  let ?s6 = "?s5\<lparr>t_pc := TLock, cb_done := True\<rparr>"
  let ?s7 = "?s6\<lparr>t_pc := TPublish, mutex := Some New\<rparr>"
  let ?s8 = "?s7\<lparr>t_pc := TNotify, loop_ptr := Some l\<rparr>"
  let ?s9 = "?s8\<lparr>t_pc := TLoop, notified := (m_pc ?s8 = MWaiting \<or> notified ?s8), mutex := None\<rparr>"
  have "reachable ho_init (ho_step tid l) ?s1" by (rule reach_step [OF reach_init], rule m_create) (simp add: ho_init_def)
  then have "reachable ho_init (ho_step tid l) ?s2" by (rule reach_step) (rule t_tid, simp)
  then have "reachable ho_init (ho_step tid l) ?s3" by (rule reach_step) (rule t_post, simp)
  then have "reachable ho_init (ho_step tid l) ?s4" by (rule reach_step) (rule t_cache, simp)
  then have "reachable ho_init (ho_step tid l) ?s5" by (rule reach_step) (rule t_ctor, simp)
  then have "reachable ho_init (ho_step tid l) ?s6" by (rule reach_step) (rule t_callback, simp)
  then have "reachable ho_init (ho_step tid l) ?s7" by (rule reach_step) (rule t_lock, simp_all add: ho_init_def)
  then have "reachable ho_init (ho_step tid l) ?s8" by (rule reach_step) (rule t_publish, simp)
  then have "reachable ho_init (ho_step tid l) ?s9" by (rule reach_step) (rule t_notify, simp)
  moreover have "?s9 = ho_looping tid l" by (simp add: ho_looping_def ho_init_def)
  ultimately show ?thesis by simp
qed

lemma startLoop_path:
  assumes R: "reachable ho_init (ho_step tid l) s"
    and "m_pc s \<in> {MSem, MLock, MTest, MWaiting}" and tl: "t_pc s = TLoop"
  shows "\<exists>s'. (ho_step tid l)\<^sup>*\<^sup>* s s' \<and> m_pc s' = MDone \<and> ret s' = Some l \<and> t_pc s' = TLoop"
proof -
  have ptr: "loop_ptr s = Some l" and mx: "holds_mutex s"
    using rt.holds [OF R] tl by (simp_all add: returned_def published_def)
  from assms(2) consider "m_pc s = MSem" | "m_pc s = MLock" | "m_pc s = MTest" | "m_pc s = MWaiting" by blast
  then show ?thesis
  proof cases
    case 1
    let ?a = "s\<lparr>m_pc := MLock, sem := sem s - 1\<rparr>"
    have "0 < sem s" using sm.holds [OF R] 1 tl by (simp add: posted_def)
    then have "ho_step tid l s ?a" using 1 by (intro m_sem_wait) simp_all
    moreover have "mutex ?a = None" using mutex_free [OF mx] 1 tl by simp
    ultimately show ?thesis using finish_locked [of ?a l tid] ptr tl
      by (auto intro: converse_rtranclp_into_rtranclp)
  next
    case 2
    then show ?thesis using finish_locked [of s l tid] mutex_free [OF mx] ptr tl by simp
  next
    case 3
    then show ?thesis using finish_found [of s l tid] ptr tl by simp
  next
    case 4
    then show ?thesis using finish_locked [of s l tid] mutex_free [OF mx] ns.holds [OF R] ptr tl
      by (simp add: notify_seen_def)
  qed
qed

lemma reachable_done: "\<exists>s. reachable ho_init (ho_step tid l) s \<and> m_pc s = MDone \<and> t_pc s = TLoop"
  using startLoop_path [OF reachable_looping, of tid l] reachable_steps [OF _ reachable_looping]
  by (fastforce simp: ho_looping_def)

section \<open>Properties\<close>

text \<open>
  C25. \<^verbatim>\<open>startLoop()\<close> only ever returns the new thread's loop, never null, and not before \<^verbatim>\<open>Thread::start()\<close> has
  recorded the thread id; while that thread is in its loop, the loop exists, its init callback has run
  and \<^verbatim>\<open>loop_\<close> and \<^verbatim>\<open>tid_\<close> are those of the new thread. Holds for every interleaving.
\<close>

theorem startLoop_result:
  assumes "reachable ho_init (ho_step tid l) s" and "m_pc s \<in> {MDone, MQuit, MJoin, MJoined, MUnjoined}"
  shows "ret s = Some l \<and> t_pc s \<notin> {TNone, TTid, TPost} \<and>
     (t_pc s = TLoop \<longrightarrow> loop_alive s \<and> cb_done s \<and> loop_ptr s = Some l \<and> tid_field s = tid)"
proof -
  have "ret s = Some l" using rt.holds [OF assms(1)] assms(2) unfolding returned_def by blast
  moreover have "m_pc s \<notin> {MStart, MSem}" using assms(2) by (elim insertE emptyE) simp_all
  then have "t_pc s \<notin> {TNone, TTid, TPost}"
    using sm.holds [OF assms(1), unfolded posted_def] by (elim conjE) (rule mp)
  moreover have "t_pc s = TLoop \<longrightarrow> loop_alive s \<and> cb_done s \<and> loop_ptr s = Some l \<and> tid_field s = tid"
    using rt.holds [OF assms(1)] td.holds [OF assms(1)] by (simp add: returned_def published_def tid_known_def)
  ultimately show ?thesis by blast
qed

theorem startLoop_result_witness:
  "\<exists>s. reachable ho_init (ho_step 42 3) s \<and> m_pc s = MDone \<and> ret s = Some 3 \<and> loop_ptr s = Some 3 \<and> tid_field s = 42"
proof -
  obtain s where s: "reachable ho_init (ho_step 42 3) s" "m_pc s = MDone" "t_pc s = TLoop"
    using reachable_done by blast
  with startLoop_result [OF s(1)] show ?thesis by auto
qed

text \<open>
  C32. No notification is lost: whenever the caller of \<^verbatim>\<open>startLoop()\<close> is still inside and the new thread has
  entered its loop, the caller has been notified if it waits, and it can by itself return the loop.
\<close>

theorem startLoop_not_stuck:
  assumes "reachable ho_init (ho_step tid l) s" and "m_pc s \<in> {MSem, MLock, MTest, MWaiting}" and "t_pc s = TLoop"
  shows "(m_pc s = MWaiting \<longrightarrow> notified s) \<and>
     (\<exists>s'. (ho_step tid l)\<^sup>*\<^sup>* s s' \<and> m_pc s' = MDone \<and> ret s' = Some l \<and> t_pc s' = TLoop)"
  using startLoop_path [OF assms] ns.holds [OF assms(1)] assms(3) by (simp add: notify_seen_def)

theorem startLoop_not_stuck_witness:
  "\<exists>s'. (ho_step 42 3)\<^sup>*\<^sup>* (ho_looping 42 3) s' \<and> m_pc s' = MDone \<and> ret s' = Some 3"
  using startLoop_not_stuck [OF reachable_looping, of 42 3] by (auto simp: ho_looping_def)

text \<open>
  C39. Destroying an \<^verbatim>\<open>EventLoopThread\<close> whose loop returned by itself goes wrong: the destructor can find
  \<^verbatim>\<open>loop_\<close> null, skip \<^verbatim>\<open>join()\<close> and leave a joinable \<^verbatim>\<open>std::thread\<close> to its destructor, which terminates the
  program; or it can read \<^verbatim>\<open>loop_\<close> without the mutex just before the loop goes and call \<^verbatim>\<open>quit()\<close> on an
  object that no longer exists.
\<close>

theorem destroy_after_loop_ends:
  "(\<exists>s. reachable ho_init (ho_step tid l) s \<and> m_pc s = MUnjoined) \<and>
   destroy_Thread \<lparr>thr_started = True, thr_joined = False, thr_tid = tid, thr_name = name\<rparr> = Inl Aborted \<and>
   (\<exists>s. reachable ho_init (ho_step tid l) s \<and> quit_on_dead s)"
proof (intro conjI)
  obtain s where s: "reachable ho_init (ho_step tid l) s" "m_pc s = MDone" "t_pc s = TLoop"
    using reachable_done by blast
  have mx: "mutex s = None" and ptr: "loop_ptr s = Some l"
    using rt.holds [OF s(1)] mutex_free s(2,3) by (auto simp: returned_def published_def)
  let ?over = "\<lambda>s. s\<lparr>t_pc := TDestroy, loop_ptr := None, mutex := None\<rparr>"
  have over: "reachable ho_init (ho_step tid l) (?over v)"
    if v: "reachable ho_init (ho_step tid l) v" "t_pc v = TLoop" "mutex v = None" for v
  proof -
    let ?a = "v\<lparr>t_pc := TLock2\<rparr>"
    let ?b = "?a\<lparr>t_pc := TClear, mutex := Some New\<rparr>"
    have "reachable ho_init (ho_step tid l) ?a" by (rule reach_step [OF v(1)], rule t_loop_returns) (rule v(2))
    then have "reachable ho_init (ho_step tid l) ?b" by (rule reach_step) (rule t_lock2, simp_all add: v(3))
    then have "reachable ho_init (ho_step tid l) (?b\<lparr>t_pc := TDestroy, loop_ptr := None, mutex := None\<rparr>)"
      by (rule reach_step) (rule t_clear, simp)
    then show ?thesis by simp
  qed
  have "reachable ho_init (ho_step tid l) ((?over s)\<lparr>m_pc := MUnjoined\<rparr>)"
    by (rule reach_step [OF over [OF s(1,3) mx]], rule m_dtor_null) (simp_all add: s(2))
  then show "\<exists>s. reachable ho_init (ho_step tid l) s \<and> m_pc s = MUnjoined" by fastforce
  let ?q = "s\<lparr>m_pc := MQuit\<rparr>"
  have "reachable ho_init (ho_step tid l) ?q"
    by (rule reach_step [OF s(1)], rule m_dtor_loop) (simp_all add: s(2) ptr)
  then have "reachable ho_init (ho_step tid l) (?over ?q)" by (rule over) (simp_all add: s(3) mx)
  then have "reachable ho_init (ho_step tid l) ((?over ?q)\<lparr>t_pc := TReset, loop_alive := False\<rparr>)"
    by (rule reach_step) (rule t_destroy, simp)
  then have "reachable ho_init (ho_step tid l) ((?over ?q)\<lparr>t_pc := TReset, loop_alive := False,
      m_pc := MJoin, quit_on_dead := \<not> loop_alive ((?over ?q)\<lparr>t_pc := TReset, loop_alive := False\<rparr>)\<rparr>)"
    by (rule reach_step) (rule m_quit, simp)
  then show "\<exists>s. reachable ho_init (ho_step tid l) s \<and> quit_on_dead s" by fastforce
qed (simp add: destroy_Thread_def)

end
