(* ===== verification/Socket.thy ===== *)
theory Socket
  imports Kernel
begin

text \<open>
  \<^verbatim>\<open>src/Socket.{h,cc}\<close>: the owner of a socket descriptor. The operations act on the system state;
  a failing \<^verbatim>\<open>bind\<close> or \<^verbatim>\<open>listen\<close> ends the program, the other failures are logged or ignored as the
  code does. \<^verbatim>\<open>LOG_INFO\<close> lines are not recorded.
\<close>

record socket =
  sockfd :: fd

definition call_os :: "('k \<Rightarrow> 'r \<times> 'k) \<Rightarrow> 'k sys \<Rightarrow> 'r \<times> 'k sys" where
  "call_os f \<sigma> = (case f (os \<sigma>) of (r, k') \<Rightarrow> (r, \<sigma>\<lparr>os := k'\<rparr>))"

definition destroy_Socket :: "'k kernel \<Rightarrow> socket \<Rightarrow> 'k sys \<Rightarrow> 'k sys" where
  "destroy_Socket K s \<sigma> = \<sigma>\<lparr>os := sys_close K (sockfd s) (os \<sigma>)\<rparr>"

definition bindAddress :: "'k kernel \<Rightarrow> InetAddress \<Rightarrow> socket \<Rightarrow> 'k sys \<Rightarrow> 'k sys res" where
  "bindAddress K localaddr s \<sigma> =
     (case call_os (sys_bind K (sockfd s) (getSockAddr localaddr)) \<sigma> of ((r, e), \<sigma>') \<Rightarrow>
        if r \<noteq> 0 then Inl Exit_Fatal else Inr \<sigma>')"

definition Socket_listen :: "'k kernel \<Rightarrow> socket \<Rightarrow> 'k sys \<Rightarrow> 'k sys res" where
  "Socket_listen K s \<sigma> =
     (case call_os (sys_listen K (sockfd s) 1024) \<sigma> of ((r, e), \<sigma>') \<Rightarrow>
        if r \<noteq> 0 then Inl Exit_Fatal else Inr \<sigma>')"

text \<open>The result is the descriptor or -1, the peer address as the call leaves it, and \<^verbatim>\<open>errno\<close>.\<close>

definition Socket_accept ::
    "'k kernel \<Rightarrow> InetAddress \<Rightarrow> socket \<Rightarrow> 'k sys \<Rightarrow> (fd \<times> InetAddress \<times> errno) \<times> 'k sys" where
  "Socket_accept K peeraddr s \<sigma> =
     (case call_os (sys_accept4 K (sockfd s)) \<sigma> of ((connfd, e, addr), \<sigma>') \<Rightarrow>
        if connfd < 0
        then ((- 1, peeraddr, e), log_error ''Socket::accept failed: errno=%d (%s)'' \<sigma>')
        else ((connfd, setSockAddr addr peeraddr, e), \<sigma>'))"

definition shutdownWrite :: "'k kernel \<Rightarrow> socket \<Rightarrow> 'k sys \<Rightarrow> 'k sys" where
  "shutdownWrite K s \<sigma> =
     (case call_os (sys_shutdown_wr K (sockfd s)) \<sigma> of ((r, e), \<sigma>') \<Rightarrow>
        if r < 0 then log_error ''shutdownWrite error'' \<sigma>' else \<sigma>')"

definition optval :: "bool \<Rightarrow> int" where
  "optval on = (if on then 1 else 0)"

definition setTcpNoDelay :: "'k kernel \<Rightarrow> bool \<Rightarrow> socket \<Rightarrow> 'k sys \<Rightarrow> 'k sys" where
  "setTcpNoDelay K on s \<sigma> = snd (call_os (sys_setsockopt K (sockfd s) TCP_NODELAY (optval on)) \<sigma>)"

definition setReuseAddr :: "'k kernel \<Rightarrow> bool \<Rightarrow> socket \<Rightarrow> 'k sys \<Rightarrow> 'k sys" where
  "setReuseAddr K on s \<sigma> = snd (call_os (sys_setsockopt K (sockfd s) SO_REUSEADDR (optval on)) \<sigma>)"

definition setReusePort :: "'k kernel \<Rightarrow> bool \<Rightarrow> socket \<Rightarrow> 'k sys \<Rightarrow> 'k sys" where
  "setReusePort K on s \<sigma> =
     (case call_os (sys_setsockopt K (sockfd s) SO_REUSEPORT (optval on)) \<sigma> of ((r, e), \<sigma>') \<Rightarrow>
        if r < 0 \<and> on then log_error ''SO_REUSEPORT failed'' \<sigma>' else \<sigma>')"

definition setKeepAlive :: "'k kernel \<Rightarrow> bool \<Rightarrow> socket \<Rightarrow> 'k sys \<Rightarrow> 'k sys" where
  "setKeepAlive K on s \<sigma> = snd (call_os (sys_setsockopt K (sockfd s) SO_KEEPALIVE (optval on)) \<sigma>)"

section \<open>Lemmas\<close>

lemma call_os_logs [simp]: "call_os f \<sigma> = (r, \<sigma>') \<Longrightarrow> logs \<sigma>' = logs \<sigma>"
  by (auto simp: call_os_def split: prod.splits)

lemma call_os_os: "call_os f \<sigma> = (fst (f (os \<sigma>)), \<sigma>\<lparr>os := snd (f (os \<sigma>))\<rparr>)"
  by (simp add: call_os_def split: prod.splits)

lemma os_shutdownWrite [simp]:
  "os (shutdownWrite K s \<sigma>) = snd (sys_shutdown_wr K (sockfd s) (os \<sigma>))"
  by (simp add: shutdownWrite_def call_os_os split: prod.splits)

lemma os_setKeepAlive [simp]:
  "os (setKeepAlive K on s \<sigma>) = snd (sys_setsockopt K (sockfd s) SO_KEEPALIVE (optval on) (os \<sigma>))"
  by (simp add: setKeepAlive_def call_os_os)

end
