(* ===== verification/Acceptor.thy ===== *)
theory Acceptor
  imports EventLoop Socket
begin

text \<open>
  \<^verbatim>\<open>src/Acceptor.{h,cc}\<close>: the listening socket with its channel on the base loop. The program state
  is extended by the acceptor object; the callback that takes over an accepted descriptor is a
  reference whose meaning is the argument \<open>call_new\<close>.
\<close>

section \<open>Data and operations\<close>

record acceptor =
  acc_loop :: loop_id
  acceptSocket :: socket
  acceptChannel :: chan_id
  newConnectionCallback :: "cb_ref option"
  listenning :: bool

record 'k aworld = "'k world" +
  acceptor_obj :: "acceptor option"

definition with_acceptor :: "('k, 'm) aworld_scheme \<Rightarrow> (acceptor \<Rightarrow> 'r res) \<Rightarrow> 'r res" where
  "with_acceptor w f = (case acceptor_obj w of None \<Rightarrow> Inl Null_Deref | Some a \<Rightarrow> f a)"

text \<open>A descriptor below 3 is fatal too: \<^verbatim>\<open>LOG_FATAL\<close> exits before \<^verbatim>\<open>close\<close> and \<^verbatim>\<open>abort\<close> are reached.\<close>

definition createNonblocking :: "'k kernel \<Rightarrow> 'k sys \<Rightarrow> (fd \<times> 'k sys) res" where
  "createNonblocking K \<sigma> =
     (case call_os (sys_socket K) \<sigma> of ((f, e), \<sigma>') \<Rightarrow>
        if f < 0 then Inl Exit_Fatal else if f \<le> 2 then Inl Exit_Fatal else Inr (f, \<sigma>'))"

definition mk_Acceptor :: "'k kernel \<Rightarrow> loop_id \<Rightarrow> chan_id \<Rightarrow> InetAddress \<Rightarrow> bool \<Rightarrow>
    ('k, 'm) aworld_scheme \<Rightarrow> ('k, 'm) aworld_scheme res" where
  "mk_Acceptor K l ch listenAddr reusePort w =
     bind_r (createNonblocking K (wsys w)) (\<lambda>(f, \<sigma>1).
       let s = \<lparr>sockfd = f\<rparr>; c = mk_Channel l f;
           \<sigma>2 = setReuseAddr K True s \<sigma>1;
           \<sigma>3 = setReusePort K reusePort s \<sigma>2
       in bind_r (bindAddress K listenAddr s \<sigma>3) (\<lambda>\<sigma>4.
            Inr ((put_chan ch (setReadCallback AcceptorHandleRead c) (put_sys \<sigma>4 w))
              \<lparr>acceptor_obj := Some \<lparr>acc_loop = l, acceptSocket = s, acceptChannel = ch,
                 newConnectionCallback = None, listenning = False\<rparr>\<rparr>)))"

definition setNewConnectionCallback :: "cb_ref \<Rightarrow> ('k, 'm) aworld_scheme \<Rightarrow> ('k, 'm) aworld_scheme res" where
  "setNewConnectionCallback cb w = with_acceptor w (\<lambda>a.
     Inr (w\<lparr>acceptor_obj := Some (a\<lparr>newConnectionCallback := Some cb\<rparr>)\<rparr>))"

text \<open>The body of the destructor, then the members: the channel goes, the socket closes its descriptor.\<close>

definition destroy_Acceptor :: "'k kernel \<Rightarrow> ('k, 'm) aworld_scheme \<Rightarrow> ('k, 'm) aworld_scheme res" where
  "destroy_Acceptor K w = with_acceptor w (\<lambda>a.
     bind_r (Channel_request K DisableAll (acceptChannel a) w) (\<lambda>w1.
     bind_r (Channel_remove K (acceptChannel a) w1) (\<lambda>w2.
       Inr (w2\<lparr>wsys := destroy_Socket K (acceptSocket a) (wsys w2),
               chans := (chans w2)(acceptChannel a := None), acceptor_obj := None\<rparr>))))"

definition Acceptor_listen :: "'k kernel \<Rightarrow> ('k, 'm) aworld_scheme \<Rightarrow> ('k, 'm) aworld_scheme res" where
  "Acceptor_listen K w = with_acceptor w (\<lambda>a.
     let w1 = w\<lparr>acceptor_obj := Some (a\<lparr>listenning := True\<rparr>)\<rparr>
     in bind_r (Socket_listen K (acceptSocket a) (wsys w1)) (\<lambda>\<sigma>'.
          Channel_request K EnableReading (acceptChannel a) (put_sys \<sigma>' w1)))"

definition Acceptor_handleRead :: "'k kernel \<Rightarrow>
    (cb_ref \<Rightarrow> fd \<Rightarrow> InetAddress \<Rightarrow> ('k, 'm) aworld_scheme \<Rightarrow> ('k, 'm) aworld_scheme res) \<Rightarrow>
    (string \<Rightarrow> 32 word) \<Rightarrow> ('k, 'm) aworld_scheme \<Rightarrow> ('k, 'm) aworld_scheme res" where
  "Acceptor_handleRead K call_new inet_addr w = with_acceptor w (\<lambda>a.
     case Socket_accept K (mk_InetAddress inet_addr 0 ''127.0.0.1'') (acceptSocket a) (wsys w) of ((connfd, peerAddr, e), \<sigma>') \<Rightarrow>
       let w1 = put_sys \<sigma>' w
       in if 0 \<le> connfd
          then (case newConnectionCallback a of
                  Some cb \<Rightarrow> call_new cb connfd peerAddr w1
                | None \<Rightarrow> Inr (put_sys (\<sigma>'\<lparr>os := sys_close K connfd (os \<sigma>')\<rparr>) w1))
          else
            (let w2 = log_err ''%s:%s:%d accept err:%d'' w1
             in Inr (if e = EMFILE then log_err ''%s:%s:%d sockfd reached limit!'' w2 else w2)))"

section \<open>Lemmas\<close>

lemma more_acceptor:
  fixes w w' :: "('k, 'm) aworld_scheme"
  shows "world.more w' = world.more w \<Longrightarrow> acceptor_obj w' = acceptor_obj w"
  by (cases w; cases w'; simp)

lemma acceptor_frame [simp]:
  "acceptor_obj (put_sys \<sigma> w) = acceptor_obj w" "acceptor_obj (put_chan i c w) = acceptor_obj w"
  "acceptor_obj (put_loop l el w) = acceptor_obj w" "acceptor_obj (log_err msg w) = acceptor_obj w"
  by (simp_all add: put_sys_def put_chan_def put_loop_def log_err_def)

definition demo_acceptor :: acceptor where
  "demo_acceptor = \<lparr>acc_loop = 0, acceptSocket = \<lparr>sockfd = 6\<rparr>, acceptChannel = 2,
     newConnectionCallback = None, listenning = False\<rparr>"

definition demo_aworld :: "sim aworld" where
  "demo_aworld = \<lparr>wsys = \<lparr>os = sim0, logs = []\<rparr>,
     chans = (\<lambda>_. None)(2 \<mapsto> setReadCallback AcceptorHandleRead (mk_Channel 0 6)),
     loops = (\<lambda>_. None)(0 \<mapsto> demo_loop), cachedTid = (\<lambda>_. 0), cur_thread = 7, loopInThread = (\<lambda>_. None), numCreated = 0,
     acceptor_obj = Some demo_acceptor\<rparr>"

lemma demo_aworld_ok: "loop_ok (\<lambda>ep k. sim_interest k ep) 0 demo_aworld"
proof -
  let ?c = "setReadCallback AcceptorHandleRead (mk_Channel 0 6)"
  have own: "owned (chans demo_aworld) 0 i c \<longleftrightarrow> i = 2 \<and> c = ?c" for i c
    by (auto simp: owned_def demo_aworld_def setReadCallback_def mk_Channel_def)
  have "ch_index ?c = kNew" by (simp add: setReadCallback_def mk_Channel_def kNew_def)
  with own have "poller_wf (chans demo_aworld, demo_poller, wsys demo_aworld)"
      "interest_wf (\<lambda>ep k. sim_interest k ep) (chans demo_aworld, demo_poller, wsys demo_aworld)"
    by (auto simp: fds_distinct_def index_wf_def map_wf_def chan_synced_def demo_poller_def demo_aworld_def sim0_def)
  moreover have "loops demo_aworld 0 = Some demo_loop" "loop_poller demo_loop = Some demo_poller" "ownerLoop demo_poller = 0"
    by (simp_all add: demo_aworld_def demo_loop_def demo_poller_def)
  ultimately show ?thesis unfolding loop_ok_def by (auto simp del: poller_wf.simps interest_wf.simps)
qed

section \<open>Properties\<close>

text \<open>
  \<^verbatim>\<open>Acceptor::listen\<close> exits if listen(2) fails; otherwise, on a kernel with resources and for a channel
  that is new or watched, it returns with \<^verbatim>\<open>listenning_\<close> set, the kernel watching the listening
  descriptor for reading, and poller, channels and kernel in agreement.
\<close>

lemma Acceptor_listen_watches:
  assumes K: "epoll_ctl_contract K interest" "epoll_ctl_grants K interest" "epoll_frame_contract K interest"
    and a: "acceptor_obj w = Some a" and c: "chans w (acceptChannel a) = Some c"
    and ok: "loop_ok interest (ch_loop c) w" and reg: "ch_index c = kNew \<or> ch_events c \<noteq> 0"
    and call: "sys_listen K (sockfd (acceptSocket a)) 1024 (os (wsys w)) = ((r, e), k')"
  shows "(r \<noteq> 0 \<longrightarrow> Acceptor_listen K w = Inl Exit_Fatal) \<and>
     (r = 0 \<longrightarrow> (\<exists>w'. Acceptor_listen K w = Inr w' \<and> acceptor_obj w' = Some (a\<lparr>listenning := True\<rparr>) \<and>
        loop_ok interest (ch_loop c) w' \<and> watched interest (acceptChannel a) w' = Some (ch_events c OR kReadEvent)))"
proof (intro conjI impI)
  assume "r \<noteq> 0"
  then show "Acceptor_listen K w = Inl Exit_Fatal"
    using a call by (simp add: Acceptor_listen_def with_acceptor_def Socket_listen_def call_os_os)
next
  assume r: "r = 0"
  let ?w1 = "put_sys ((wsys w)\<lparr>os := k'\<rparr>) (w\<lparr>acceptor_obj := Some (a\<lparr>listenning := True\<rparr>)\<rparr>)"
  have eq: "Acceptor_listen K w = Channel_request K EnableReading (acceptChannel a) ?w1"
    using a call r by (simp add: Acceptor_listen_def with_acceptor_def Socket_listen_def call_os_os)
  have "interest ep k' = interest ep (os (wsys w))" for ep
    using epoll_frameD(3) [OF K(3), of ep "sockfd (acceptSocket a)" 1024 "os (wsys w)"] call by simp
  then have ok1: "loop_ok interest (ch_loop c) ?w1" by (intro loop_ok_cong [OF ok]) simp_all
  have c1: "chans ?w1 (acceptChannel a) = Some c" using c by simp
  obtain w' where w': "Channel_request K EnableReading (acceptChannel a) ?w1 = Inr w'"
    using Channel_request_returns [OF K(1,2) ok1 c1] reg by blast
  note eff = Channel_request_effect [OF K(1) ok1 c1 w']
  from eff(2) obtain n where n: "n \<noteq> kNew" "chans w' (acceptChannel a) = Some (set_index n (request EnableReading c))"
    by auto
  have "bit (ch_events c OR kReadEvent) 0" by (simp add: bit_or_iff kReadEvent_bits)
  then have "ch_events c OR kReadEvent \<noteq> 0" by (metis bit_0_eq bot_apply bot_bool_def)
  then have "watched interest (acceptChannel a) w' = Some (ch_events c OR kReadEvent)"
    using watched_eq(1) [OF _ n(2)] n(1) eff(1) by simp
  moreover have "acceptor_obj w' = Some (a\<lparr>listenning := True\<rparr>)" using more_acceptor [OF eff(4)] by simp
  ultimately show "\<exists>w'. Acceptor_listen K w = Inr w' \<and> acceptor_obj w' = Some (a\<lparr>listenning := True\<rparr>) \<and>
        loop_ok interest (ch_loop c) w' \<and> watched interest (acceptChannel a) w' = Some (ch_events c OR kReadEvent)"
    using eq w' eff(1) by auto
qed

lemma Acceptor_listen_watches_witness:
  "\<exists>w'. Acceptor_listen sim_kernel demo_aworld = Inr w' \<and>
     watched (\<lambda>ep k. sim_interest k ep) 2 w' = Some (0 OR kReadEvent)"
proof -
  let ?c = "setReadCallback AcceptorHandleRead (mk_Channel 0 6)"
  have w: "acceptor_obj demo_aworld = Some demo_acceptor" "chans demo_aworld (acceptChannel demo_acceptor) = Some ?c"
      "ch_loop ?c = 0" "ch_events ?c = 0" "ch_index ?c = kNew \<or> ch_events ?c \<noteq> 0" "acceptChannel demo_acceptor = 2"
      "sys_listen sim_kernel (sockfd (acceptSocket demo_acceptor)) 1024 (os (wsys demo_aworld)) =
         ((0, 0), os (wsys demo_aworld))"
    by (simp_all add: demo_aworld_def demo_acceptor_def setReadCallback_def mk_Channel_def kNew_def sim_kernel_def)
  have "loop_ok (\<lambda>ep k. sim_interest k ep) (ch_loop ?c) demo_aworld" using demo_aworld_ok w(3) by simp
  from Acceptor_listen_watches [OF sim_epoll_ctl_contract sim_epoll_ctl_grants sim_epoll_frame w(1,2) this w(5,7)]
  show ?thesis unfolding w(4,6) by blast
qed

text \<open>
  \<^verbatim>\<open>Acceptor::handleRead\<close> disposes of what accept4(2) returns, whatever it is: an accepted descriptor goes
  to the callback with the peer's address, or is closed when there is no callback; a failure leaves
  the program state alone but for the error lines, one more of them when descriptors ran out.
\<close>

lemma Acceptor_handleRead_disposes:
  assumes "acceptor_obj w = Some a"
    and "sys_accept4 K (sockfd (acceptSocket a)) (os (wsys w)) = ((n, e, addr), k')"
  shows "Acceptor_handleRead K call_new inet_addr w =
     (if 0 \<le> n
      then (case newConnectionCallback a of
              Some cb \<Rightarrow> call_new cb n (InetAddress_of addr) (put_sys ((wsys w)\<lparr>os := k'\<rparr>) w)
            | None \<Rightarrow> Inr (put_sys ((wsys w)\<lparr>os := sys_close K n k'\<rparr>) w))
      else Inr (put_sys \<lparr>os = k', logs = logs (wsys w) @
             [(ERROR, ''Socket::accept failed: errno=%d (%s)''), (ERROR, ''%s:%s:%d accept err:%d'')] @
             (if e = EMFILE then [(ERROR, ''%s:%s:%d sockfd reached limit!'')] else [])\<rparr> w))"
  using assms
  by (auto simp: Acceptor_handleRead_def with_acceptor_def Socket_accept_def call_os_os Let_def
      setSockAddr_def mk_InetAddress_def InetAddress_of_def put_sys_def log_err_def log_error_def
      split: option.splits)

lemma Acceptor_handleRead_disposes_witness:
  "\<exists>w'. Acceptor_handleRead sim_kernel (\<lambda>_ _ _. Inr) (\<lambda>_. 0) demo_aworld = Inr w' \<and>
     sim_closed (os (wsys w')) = [3]"
proof -
  have w: "acceptor_obj demo_aworld = Some demo_acceptor"
      "sys_accept4 sim_kernel (sockfd (acceptSocket demo_acceptor)) (os (wsys demo_aworld)) =
         ((3, 0, zero_sockaddr), sim0\<lparr>sim_next := 4\<rparr>)"
    by (simp_all add: demo_aworld_def demo_acceptor_def sim_kernel_def sim_fresh_def sim0_def)
  from Acceptor_handleRead_disposes [OF w] show ?thesis
    by (simp add: demo_acceptor_def sim_kernel_def sim0_def)
qed

end
