(* ===== verification/Buffer.thy ===== *)
theory Buffer
  imports Kernel SimKernel
begin

text \<open>
  \<^verbatim>\<open>src/Buffer.{h,cc}\<close>: the byte buffer of a connection, a vector with a read and a write index of
  type \<^verbatim>\<open>size_t\<close>. The indices wrap as the C++ ones do, and an access outside the vector's storage is
  the outcome \<open>Out_Of_Bounds\<close>. The file gives the operations, the well-formedness invariant, the
  abstraction to the queue of readable bytes, the conditions under which the operations implement
  that queue, and the exact outcome where they do not.
\<close>

section \<open>Data and operations\<close>

definition KCheapPrend :: size_t where "KCheapPrend = 8"
definition kInitialSize :: size_t where "kInitialSize = 1024"

record buffer =
  buf_data :: "byte list"
  readerIndex :: size_t
  writerIndex :: size_t

text \<open>\<^verbatim>\<open>std::vector<char>\<close>: a new element is 0; the largest size is \<^verbatim>\<open>PTRDIFF_MAX\<close>.\<close>

definition vec_max_size :: nat where "vec_max_size = 2 ^ 63 - 1"

definition vec_size :: "byte list \<Rightarrow> size_t" where
  "vec_size v = of_nat (length v)"

definition vec_resize :: "size_t \<Rightarrow> byte list \<Rightarrow> byte list res" where
  "vec_resize n v =
     (if vec_max_size < unat n then Inl Length_Error
      else Inr (take (unat n) v @ replicate (unat n - length v) 0))"

text \<open>\<^verbatim>\<open>std::copy\<close> into the vector at an offset.\<close>

definition copy_to :: "byte list \<Rightarrow> size_t \<Rightarrow> byte list \<Rightarrow> byte list res" where
  "copy_to src off v =
     (if unat off + length src \<le> length v then Inr (overwrite v (unat off) src)
      else Inl Out_Of_Bounds)"

text \<open>The bytes of the range that starts at an offset.\<close>

definition slice :: "byte list \<Rightarrow> size_t \<Rightarrow> nat \<Rightarrow> byte list res" where
  "slice v off n =
     (if unat off + n \<le> length v then Inr (take n (drop (unat off) v)) else Inl Out_Of_Bounds)"

definition mk_Buffer :: "size_t \<Rightarrow> buffer res" where
  "mk_Buffer initialSize =
     bind_r (vec_resize (KCheapPrend + initialSize) [])
       (\<lambda>v. Inr \<lparr>buf_data = v, readerIndex = KCheapPrend, writerIndex = KCheapPrend\<rparr>)"

definition readableBytes :: "buffer \<Rightarrow> size_t" where
  "readableBytes b = writerIndex b - readerIndex b"

definition writableBytes :: "buffer \<Rightarrow> size_t" where
  "writableBytes b = vec_size (buf_data b) - writerIndex b"

definition prependableBytes :: "buffer \<Rightarrow> size_t" where
  "prependableBytes b = readerIndex b"

text \<open>Pointers into the storage are offsets from \<^verbatim>\<open>begin()\<close>.\<close>

definition beginWrite :: "buffer \<Rightarrow> size_t" where
  "beginWrite b = writerIndex b"

definition peek :: "buffer \<Rightarrow> size_t" where
  "peek b = readerIndex b"

definition retrieveAll :: "buffer \<Rightarrow> buffer" where
  "retrieveAll b = b\<lparr>readerIndex := KCheapPrend, writerIndex := KCheapPrend\<rparr>"

definition retrieve :: "size_t \<Rightarrow> buffer \<Rightarrow> buffer" where
  "retrieve len b =
     (if len < readableBytes b then b\<lparr>readerIndex := readerIndex b + len\<rparr> else retrieveAll b)"

definition retrieveAsString :: "size_t \<Rightarrow> buffer \<Rightarrow> (byte list \<times> buffer) res" where
  "retrieveAsString len b =
     bind_r (slice (buf_data b) (peek b) (unat len)) (\<lambda>result. Inr (result, retrieve len b))"

definition retrieveAllAsString :: "buffer \<Rightarrow> (byte list \<times> buffer) res" where
  "retrieveAllAsString b = retrieveAsString (readableBytes b) b"

text \<open>
  The compaction moves the readable range to offset 8; \<^verbatim>\<open>std::copy\<close> of a range whose end lies
  before its start (the write index wrapped below the read index) is out of bounds.
\<close>

definition makeSpace :: "size_t \<Rightarrow> buffer \<Rightarrow> buffer res" where
  "makeSpace len b =
     (if writableBytes b + prependableBytes b < len + KCheapPrend
      then bind_r (vec_resize (writerIndex b + len) (buf_data b)) (\<lambda>v. Inr (b\<lparr>buf_data := v\<rparr>))
      else
        (let readable = readableBytes b
         in bind_r (slice (buf_data b) (readerIndex b) (unat readable)) (\<lambda>src.
            bind_r (copy_to src KCheapPrend (buf_data b)) (\<lambda>v.
              Inr (b\<lparr>buf_data := v, readerIndex := KCheapPrend,
                     writerIndex := writerIndex b + (len - readable)\<rparr>)))))"

definition ensureWritableBytes :: "size_t \<Rightarrow> buffer \<Rightarrow> buffer res" where
  "ensureWritableBytes len b = (if writableBytes b < len then makeSpace len b else Inr b)"

text \<open>\<open>data\<close> is the range the pointer and the length denote.\<close>

definition append_buf :: "byte list \<Rightarrow> buffer \<Rightarrow> buffer res" where
  "append_buf data b =
     (let len = of_nat (length data)
      in bind_r (ensureWritableBytes len b) (\<lambda>b1.
         bind_r (copy_to data (beginWrite b1) (buf_data b1)) (\<lambda>v.
           Inr (b1\<lparr>buf_data := v, writerIndex := writerIndex b1 + len\<rparr>))))"

definition extrabuf_size :: nat where "extrabuf_size = 65536"

text \<open>
  \<^verbatim>\<open>readv\<close> fills the writable range first and \<^verbatim>\<open>extrabuf\<close> with the rest. The result is the return
  value, the saved \<^verbatim>\<open>errno\<close> when it was set, the buffer and the kernel state.
\<close>

definition readFd :: "'k kernel \<Rightarrow> fd \<Rightarrow> buffer \<Rightarrow> 'k \<Rightarrow> ((int \<times> errno option \<times> buffer) \<times> 'k) res" where
  "readFd K fd b k =
     (let writable = writableBytes b;
          iov = (if unat writable < extrabuf_size then [unat writable, extrabuf_size] else [unat writable])
      in case sys_readv K fd iov k of ((n, e, bytes), k') \<Rightarrow>
           if n < 0 then Inr ((n, Some e, b), k')
           else
             bind_r (copy_to (take (unat writable) bytes) (writerIndex b) (buf_data b)) (\<lambda>v.
             if word_of_int n \<le> writable
             then Inr ((n, None, b\<lparr>buf_data := v, writerIndex := writerIndex b + word_of_int n\<rparr>), k')
             else
               bind_r (append_buf (take (nat n - unat writable) (drop (unat writable) bytes))
                         (b\<lparr>buf_data := v, writerIndex := vec_size v\<rparr>)) (\<lambda>b'.
                 Inr ((n, None, b'), k'))))"

definition writeFd :: "'k kernel \<Rightarrow> fd \<Rightarrow> buffer \<Rightarrow> 'k \<Rightarrow> ((int \<times> errno option) \<times> 'k) res" where
  "writeFd K fd b k =
     bind_r (slice (buf_data b) (peek b) (unat (readableBytes b))) (\<lambda>bytes.
       case sys_write K fd bytes k of ((n, e), k') \<Rightarrow>
         if broken_pipe K n e then Inl Killed_SIGPIPE
         else Inr ((n, if n < 0 then Some e else None), k'))"

section \<open>Invariant and abstraction\<close>

definition buffer_ok :: "buffer \<Rightarrow> bool" where
  "buffer_ok b \<longleftrightarrow> 8 \<le> unat (readerIndex b) \<and> unat (readerIndex b) \<le> unat (writerIndex b) \<and>
     unat (writerIndex b) \<le> length (buf_data b) \<and> length (buf_data b) < 2 ^ 62"

definition content :: "buffer \<Rightarrow> byte list" where
  "content b = take (unat (writerIndex b) - unat (readerIndex b)) (drop (unat (readerIndex b)) (buf_data b))"

text \<open>
  \<open>appendable n b\<close>: an append of \<open>n\<close> bytes finds room behind the write index or has to enlarge the
  vector. It excludes the compaction branch of \<open>makeSpace\<close>.
\<close>

definition appendable :: "nat \<Rightarrow> buffer \<Rightarrow> bool" where
  "appendable n b \<longleftrightarrow> n < 2 ^ 62 \<and> length (buf_data b) + n < 2 ^ 62 \<and>
     (unat (writerIndex b) + n \<le> length (buf_data b) \<or>
      length (buf_data b) - unat (writerIndex b) + unat (readerIndex b) < n + 8)"

section \<open>Basic facts\<close>

lemma unat_KCheapPrend [simp]: "unat KCheapPrend = 8"
  by (simp add: KCheapPrend_def)

lemma buffer_okD:
  assumes "buffer_ok b"
  shows "8 \<le> unat (readerIndex b)" and "unat (readerIndex b) \<le> unat (writerIndex b)"
    and "unat (writerIndex b) \<le> length (buf_data b)" and "length (buf_data b) < 2 ^ 62"
  using assms by (simp_all add: buffer_ok_def)

lemma unat_readableBytes:
  "buffer_ok b \<Longrightarrow> unat (readableBytes b) = unat (writerIndex b) - unat (readerIndex b)"
  by (simp add: readableBytes_def size_simps buffer_ok_def)

lemma unat_vec_size: "length v < 2 ^ 62 \<Longrightarrow> unat (vec_size v) = length v"
  by (simp add: vec_size_def size_simps)

lemma unat_writableBytes:
  "buffer_ok b \<Longrightarrow> unat (writableBytes b) = length (buf_data b) - unat (writerIndex b)"
  by (simp add: writableBytes_def size_simps unat_vec_size buffer_ok_def)

lemma length_content: "buffer_ok b \<Longrightarrow> length (content b) = unat (readableBytes b)"
  by (auto simp: content_def unat_readableBytes buffer_ok_def min_def)

lemma content_empty_iff: "buffer_ok b \<Longrightarrow> readableBytes b = 0 \<longleftrightarrow> content b = []"
  by (metis length_content length_0_conv unat_eq_0)

lemma slice_content:
  "buffer_ok b \<Longrightarrow> slice (buf_data b) (peek b) (unat (readableBytes b)) = Inr (content b)"
  by (simp add: slice_def peek_def content_def unat_readableBytes buffer_ok_def)

lemma buffer_ok_retrieveAll: "buffer_ok b \<Longrightarrow> buffer_ok (retrieveAll b)"
  by (simp add: buffer_ok_def retrieveAll_def)

lemma content_retrieveAll [simp]: "content (retrieveAll b) = []"
  by (simp add: content_def retrieveAll_def)

section \<open>Taking bytes out\<close>

lemma buffer_ok_retrieve: "buffer_ok b \<Longrightarrow> buffer_ok (retrieve len b)"
proof (cases "len < readableBytes b")
  case True
  assume ok: "buffer_ok b"
  with True have lt: "unat len < unat (writerIndex b) - unat (readerIndex b)"
    by (simp add: size_less_iff unat_readableBytes)
  then have "unat (readerIndex b + len) = unat (readerIndex b) + unat len"
    using buffer_okD [OF ok] by (simp add: size_simps)
  with True lt ok show ?thesis by (simp add: retrieve_def buffer_ok_def)
qed (simp add: retrieve_def buffer_ok_retrieveAll)

lemma content_retrieve: "buffer_ok b \<Longrightarrow> content (retrieve len b) = drop (unat len) (content b)"
proof (cases "len < readableBytes b")
  case True
  assume ok: "buffer_ok b"
  with True have lt: "unat len < unat (writerIndex b) - unat (readerIndex b)"
    by (simp add: size_less_iff unat_readableBytes)
  then have "unat (readerIndex b + len) = unat (readerIndex b) + unat len"
    using buffer_okD [OF ok] by (simp add: size_simps)
  with True show ?thesis
    by (simp add: retrieve_def content_def drop_take add.commute diff_diff_left)
next
  case False
  assume ok: "buffer_ok b"
  then have "length (content b) \<le> unat len"
    using False by (simp add: length_content size_less_iff not_less)
  with False show ?thesis by (simp add: retrieve_def)
qed

lemma retrieveAsString_ok:
  assumes "buffer_ok b" and "unat len \<le> length (content b)"
  shows "retrieveAsString len b = Inr (take (unat len) (content b), retrieve len b)"
proof -
  have "unat len \<le> unat (writerIndex b) - unat (readerIndex b)"
    using assms by (simp add: length_content unat_readableBytes)
  then show ?thesis
    using buffer_okD [OF assms(1)]
    by (simp add: retrieveAsString_def slice_def peek_def content_def)
qed

lemma retrieveAllAsString_ok:
  assumes "buffer_ok b"
  shows "retrieveAllAsString b = Inr (content b, retrieveAll b)"
  using retrieveAsString_ok [OF assms, of "readableBytes b"] assms
  by (simp add: retrieveAllAsString_def length_content retrieve_def)

section \<open>Putting bytes in\<close>

lemma copy_at_writer:
  assumes ok: "buffer_ok b" and room: "unat (writerIndex b) + length data \<le> length (buf_data b)"
  shows "\<exists>v. copy_to data (beginWrite b) (buf_data b) = Inr v \<and>
     buffer_ok (b\<lparr>buf_data := v, writerIndex := writerIndex b + of_nat (length data)\<rparr>) \<and>
     content (b\<lparr>buf_data := v, writerIndex := writerIndex b + of_nat (length data)\<rparr>) = content b @ data \<and>
     readerIndex (b\<lparr>buf_data := v, writerIndex := writerIndex b + of_nat (length data)\<rparr>) = readerIndex b \<and>
     length v = length (buf_data b)"
proof -
  note B = buffer_okD [OF ok]
  have u: "unat (writerIndex b + of_nat (length data)) = unat (writerIndex b) + length data"
    using room B by (simp add: size_simps)
  have sl: "take (unat (writerIndex b) + length data - unat (readerIndex b))
      (drop (unat (readerIndex b)) (overwrite (buf_data b) (unat (writerIndex b)) data)) = content b @ data"
    unfolding content_def by (rule slice_overwrite_append) (use B room in simp_all)
  show ?thesis
    using room B sl
    by (simp add: copy_to_def beginWrite_def buffer_ok_def content_def u)
qed

lemma makeSpace_grow:
  assumes ok: "buffer_ok b" and len: "n < 2 ^ 62" "length (buf_data b) + n < 2 ^ 62"
    and grow: "length (buf_data b) - unat (writerIndex b) + unat (readerIndex b) < n + 8"
  shows "makeSpace (of_nat n) b =
     Inr (b\<lparr>buf_data := take (unat (writerIndex b) + n) (buf_data b) @
              replicate (unat (writerIndex b) + n - length (buf_data b)) 0\<rparr>)"
proof -
  note B = buffer_okD [OF ok]
  have n: "unat (of_nat n :: size_t) = n" using len by (simp add: size_simps)
  have 1: "unat (writableBytes b + prependableBytes b) =
      length (buf_data b) - unat (writerIndex b) + unat (readerIndex b)"
    using B by (simp add: size_simps unat_writableBytes [OF ok] prependableBytes_def)
  have 2: "unat (of_nat n + KCheapPrend) = n + 8"
    using len n by (simp add: size_simps)
  have 3: "unat (writerIndex b + of_nat n) = unat (writerIndex b) + n"
    using len n B by (simp add: size_simps)
  have "writableBytes b + prependableBytes b < of_nat n + KCheapPrend"
    using grow by (simp add: size_less_iff 1 2)
  moreover have "\<not> vec_max_size < unat (writerIndex b) + n"
    using B len by (simp add: vec_max_size_def)
  ultimately show ?thesis
    by (simp add: makeSpace_def vec_resize_def 3)
qed

lemma append_room:
  assumes ok: "buffer_ok b" and room: "unat (writerIndex b) + length data \<le> length (buf_data b)"
  shows "\<exists>b'. append_buf data b = Inr b' \<and> buffer_ok b' \<and> content b' = content b @ data \<and>
     readerIndex b' = readerIndex b \<and> length (buf_data b') = length (buf_data b)"
proof -
  have "unat (of_nat (length data) :: size_t) = length data"
    using room buffer_okD [OF ok] by (simp add: size_simps)
  then have "\<not> writableBytes b < of_nat (length data)"
    using room by (simp add: size_less_iff unat_writableBytes [OF ok])
  then have "ensureWritableBytes (of_nat (length data)) b = Inr b"
    by (simp add: ensureWritableBytes_def)
  with copy_at_writer [OF ok room] show ?thesis
    by (auto simp: append_buf_def Let_def)
qed

lemma append_grow:
  assumes ok: "buffer_ok b" and len: "length data < 2 ^ 62" "length (buf_data b) + length data < 2 ^ 62"
    and noroom: "length (buf_data b) < unat (writerIndex b) + length data"
    and grow: "length (buf_data b) - unat (writerIndex b) + unat (readerIndex b) < length data + 8"
  shows "\<exists>b'. append_buf data b = Inr b' \<and> buffer_ok b' \<and> content b' = content b @ data \<and>
     readerIndex b' = readerIndex b \<and> length (buf_data b') = unat (writerIndex b) + length data"
proof -
  note B = buffer_okD [OF ok]
  let ?n = "length data"
  let ?v = "take (unat (writerIndex b) + ?n) (buf_data b) @
              replicate (unat (writerIndex b) + ?n - length (buf_data b)) 0"
  let ?b = "b\<lparr>buf_data := ?v\<rparr>"
  have v: "?v = buf_data b @ replicate (unat (writerIndex b) + ?n - length (buf_data b)) 0"
    using noroom by simp
  have lv: "length ?v = unat (writerIndex b) + ?n" using noroom by simp
  have "unat (of_nat ?n :: size_t) = ?n" using len by (simp add: size_simps)
  then have "writableBytes b < of_nat ?n"
    using noroom B by (simp add: size_less_iff unat_writableBytes [OF ok])
  then have ens: "ensureWritableBytes (of_nat ?n) b = Inr ?b"
    using makeSpace_grow [OF ok len grow] by (simp add: ensureWritableBytes_def)
  have ok': "buffer_ok ?b"
    using B lv len by (simp add: buffer_ok_def)
  have cont: "content ?b = content b"
    using B by (simp add: content_def v)
  have "unat (writerIndex ?b) + ?n \<le> length (buf_data ?b)" using lv by simp
  from copy_at_writer [OF ok' this] ens cont lv show ?thesis
    by (auto simp: append_buf_def Let_def)
qed

lemma append_appendable:
  assumes "buffer_ok b" and "appendable (length data) b"
  shows "\<exists>b'. append_buf data b = Inr b' \<and> buffer_ok b' \<and> content b' = content b @ data \<and>
     readerIndex b' = readerIndex b"
proof (cases "unat (writerIndex b) + length data \<le> length (buf_data b)")
  case True
  with append_room [OF assms(1)] show ?thesis by blast
next
  case False
  with assms(2) append_grow [OF assms(1)] show ?thesis
    by (fastforce simp: appendable_def)
qed

section \<open>The compaction branch\<close>

text \<open>
  \<^verbatim>\<open>makeSpace\<close> moves the readable bytes to offset 8 but then sets the write index to
  \<open>readerIndex + len\<close> (\<^verbatim>\<open>writerIndex_ += len - readable\<close>) instead of \<open>8 + readable\<close>.
\<close>

definition compacting :: "nat \<Rightarrow> buffer \<Rightarrow> bool" where
  "compacting n b \<longleftrightarrow> length (buf_data b) < unat (writerIndex b) + n \<and>
     n + 8 \<le> length (buf_data b) - unat (writerIndex b) + unat (readerIndex b)"

lemma appendable_or_compacting:
  assumes "length (buf_data b) + n < 2 ^ 62"
  shows "appendable n b \<longleftrightarrow> \<not> compacting n b"
  using assms by (auto simp: appendable_def compacting_def)

lemma compactingD:
  assumes "compacting n b"
  shows "length (buf_data b) < unat (writerIndex b) + n"
    and "n + 8 \<le> length (buf_data b) - unat (writerIndex b) + unat (readerIndex b)"
  using assms by (simp_all add: compacting_def)

definition append_compacted :: "byte list \<Rightarrow> buffer \<Rightarrow> buffer" where
  "append_compacted data b =
     b\<lparr>buf_data := overwrite (overwrite (buf_data b) 8 (content b))
                    (unat (readerIndex b) + length data) data,
       readerIndex := KCheapPrend,
       writerIndex := readerIndex b + of_nat (length data) + of_nat (length data)\<rparr>"

lemma makeSpace_compact:
  assumes ok: "buffer_ok b" and c: "compacting n b" and len: "length (buf_data b) + n < 2 ^ 62"
  shows "makeSpace (of_nat n) b =
     Inr (b\<lparr>buf_data := overwrite (buf_data b) 8 (content b), readerIndex := KCheapPrend,
            writerIndex := readerIndex b + of_nat n\<rparr>)"
proof -
  note B = buffer_okD [OF ok]
  have n: "unat (of_nat n :: size_t) = n" using len by (simp add: size_simps)
  have 1: "unat (writableBytes b + prependableBytes b) =
      length (buf_data b) - unat (writerIndex b) + unat (readerIndex b)"
    using B by (simp add: size_simps unat_writableBytes [OF ok] prependableBytes_def)
  have 2: "unat (of_nat n + KCheapPrend) = n + 8"
    using len n by (simp add: size_simps)
  have nlt: "\<not> writableBytes b + prependableBytes b < of_nat n + KCheapPrend"
    using c by (simp add: size_less_iff 1 2 compacting_def)
  have wi: "writerIndex b + (of_nat n - readableBytes b) = readerIndex b + of_nat n"
    by (simp add: readableBytes_def)
  have "8 + length (content b) \<le> length (buf_data b)"
    using B by (simp add: length_content [OF ok] unat_readableBytes [OF ok])
  then show ?thesis
    using nlt slice_content [OF ok]
    by (simp add: makeSpace_def Let_def copy_to_def peek_def wi)
qed

lemma append_compact:
  assumes ok: "buffer_ok b" and c: "compacting (length data) b"
    and len: "length (buf_data b) + length data < 2 ^ 62"
  shows "append_buf data b =
     (if unat (readerIndex b) + 2 * length data \<le> length (buf_data b)
      then Inr (append_compacted data b) else Inl Out_Of_Bounds)"
proof -
  note B = buffer_okD [OF ok]
  let ?n = "length data"
  have n: "unat (of_nat ?n :: size_t) = ?n" using len by (simp add: size_simps)
  have "writableBytes b < of_nat ?n"
    using compactingD(1) [OF c] B n by (simp add: size_less_iff unat_writableBytes [OF ok])
  then have ens: "ensureWritableBytes (of_nat ?n) b =
      Inr (b\<lparr>buf_data := overwrite (buf_data b) 8 (content b), readerIndex := KCheapPrend,
            writerIndex := readerIndex b + of_nat ?n\<rparr>)"
    using makeSpace_compact [OF ok c len] by (simp add: ensureWritableBytes_def)
  have u: "unat (readerIndex b + of_nat ?n) = unat (readerIndex b) + ?n"
    using len B n by (simp add: size_simps)
  have l: "length (overwrite (buf_data b) 8 (content b)) = length (buf_data b)"
    using B by (simp add: length_content [OF ok] unat_readableBytes [OF ok])
  show ?thesis
    by (simp add: append_buf_def Let_def ens beginWrite_def copy_to_def u l append_compacted_def)
qed

lemma content_append_compacted:
  assumes ok: "buffer_ok b" and fits: "unat (readerIndex b) + 2 * length data \<le> length (buf_data b)"
  shows "content (append_compacted data b) =
     take (unat (readerIndex b) + length data - 8) (drop 8 (overwrite (buf_data b) 8 (content b))) @ data"
proof -
  note B = buffer_okD [OF ok]
  let ?v = "overwrite (buf_data b) 8 (content b)"
  have l: "length ?v = length (buf_data b)"
    using B by (simp add: length_content [OF ok] unat_readableBytes [OF ok])
  have "unat (2 * of_nat (length data) :: size_t) = 2 * length data"
    using fits B unat_of_nat_size [of "2 * length data"] by simp
  then have u: "unat (2 * of_nat (length data) + readerIndex b) = unat (readerIndex b) + 2 * length data"
    using fits B by (simp add: size_simps)
  have "content (append_compacted data b) =
      take (unat (readerIndex b) + 2 * length data - 8)
        (drop 8 (overwrite ?v (unat (readerIndex b) + length data) data))"
    by (simp add: content_def append_compacted_def u)
  also have "unat (readerIndex b) + 2 * length data - 8 =
      unat (readerIndex b) + length data + length data - 8"
    by simp
  also have "take \<dots> (drop 8 (overwrite ?v (unat (readerIndex b) + length data) data)) =
      take (unat (readerIndex b) + length data - 8) (drop 8 ?v) @ data"
    by (rule slice_overwrite_append) (use fits B l in simp_all)
  finally show ?thesis .
qed

text \<open>An append is right exactly when it does not compact, or the two index values agree.\<close>

lemma append_compact_correct_iff:
  assumes ok: "buffer_ok b" and c: "compacting (length data) b"
    and len: "length (buf_data b) + length data < 2 ^ 62"
  shows "(\<exists>b'. append_buf data b = Inr b' \<and> content b' = content b @ data) \<longleftrightarrow>
     unat (readerIndex b) + length data = 8 + length (content b)"
proof -
  note B = buffer_okD [OF ok]
  let ?r = "unat (readerIndex b)" and ?n = "length data"
  let ?v = "overwrite (buf_data b) 8 (content b)"
  have lc: "length (content b) = unat (writerIndex b) - ?r"
    by (simp add: length_content [OF ok] unat_readableBytes [OF ok])
  have lv: "length ?v = length (buf_data b)" using B lc by simp
  have dv: "drop 8 ?v = content b @ drop (8 + length (content b)) (buf_data b)"
    using B lc by (simp add: overwrite_def)
  show ?thesis
  proof (cases "?r + 2 * ?n \<le> length (buf_data b)")
    case True
    then have app: "append_buf data b = Inr (append_compacted data b)"
      using append_compact [OF ok c len] by simp
    have len_eq: "length (take (?r + ?n - 8) (drop 8 ?v)) = ?r + ?n - 8"
      using True B lv by simp
    show ?thesis
    proof
      assume "\<exists>b'. append_buf data b = Inr b' \<and> content b' = content b @ data"
      then have "take (?r + ?n - 8) (drop 8 ?v) = content b"
        using app content_append_compacted [OF ok True] by auto
      with len_eq B show "?r + ?n = 8 + length (content b)" by simp
    next
      assume "?r + ?n = 8 + length (content b)"
      then have "take (?r + ?n - 8) (drop 8 ?v) = content b" by (simp add: dv)
      with app content_append_compacted [OF ok True]
      show "\<exists>b'. append_buf data b = Inr b' \<and> content b' = content b @ data" by auto
    qed
  next
    case False
    then have "append_buf data b = Inl Out_Of_Bounds"
      using append_compact [OF ok c len] by simp
    moreover have "?r + ?n \<noteq> 8 + length (content b)"
      using False c B lc by (auto simp: compacting_def)
    ultimately show ?thesis by simp
  qed
qed

section \<open>The interface of a byte queue\<close>

text \<open>
  What a connection relies on: bytes put in come out in order. \<open>room\<close> is the condition under which
  a put succeeds. A client's run is a list of puts and takes.
\<close>

datatype qop = Put "byte list" | Take nat

fun q_run :: "(byte list \<Rightarrow> 'q \<Rightarrow> 'q res) \<Rightarrow> (nat \<Rightarrow> 'q \<Rightarrow> (byte list \<times> 'q) res) \<Rightarrow>
    qop list \<Rightarrow> 'q \<Rightarrow> (byte list \<times> 'q) res" where
  "q_run put get [] q = Inr ([], q)"
| "q_run put get (Put d # ops) q = bind_r (put d q) (q_run put get ops)"
| "q_run put get (Take n # ops) q =
     bind_r (get n q) (\<lambda>(out, q1). bind_r (q_run put get ops q1) (\<lambda>(outs, q2). Inr (out @ outs, q2)))"

text \<open>
  The client's side of the contract, operation by operation: there is room for what it puts and it takes no more than
  there is. It says nothing about a call that does not return: that none occurs is for the client's lemma to show.
\<close>

fun q_fits :: "(nat \<Rightarrow> 'q \<Rightarrow> bool) \<Rightarrow> ('q \<Rightarrow> nat) \<Rightarrow> (byte list \<Rightarrow> 'q \<Rightarrow> 'q res) \<Rightarrow>
    (nat \<Rightarrow> 'q \<Rightarrow> (byte list \<times> 'q) res) \<Rightarrow> qop list \<Rightarrow> 'q \<Rightarrow> bool" where
  "q_fits room avail put get [] q = True"
| "q_fits room avail put get (Put d # ops) q =
     (room (length d) q \<and> (case put d q of Inr q1 \<Rightarrow> q_fits room avail put get ops q1 | Inl e \<Rightarrow> True))"
| "q_fits room avail put get (Take n # ops) q =
     (n \<le> avail q \<and> (case get n q of Inr (out, q1) \<Rightarrow> q_fits room avail put get ops q1 | Inl e \<Rightarrow> True))"

fun q_input :: "qop list \<Rightarrow> byte list" where
  "q_input [] = []"
| "q_input (Put d # ops) = d @ q_input ops"
| "q_input (Take n # ops) = q_input ops"

locale byte_queue =
  fixes inv :: "'q \<Rightarrow> bool"
    and bytes :: "'q \<Rightarrow> byte list"
    and room :: "nat \<Rightarrow> 'q \<Rightarrow> bool"
    and put :: "byte list \<Rightarrow> 'q \<Rightarrow> 'q res"
    and get :: "nat \<Rightarrow> 'q \<Rightarrow> (byte list \<times> 'q) res"
  assumes put_law: "inv q \<Longrightarrow> room (length d) q \<Longrightarrow>
      \<exists>q'. put d q = Inr q' \<and> inv q' \<and> bytes q' = bytes q @ d"
    and get_law: "inv q \<Longrightarrow> n \<le> length (bytes q) \<Longrightarrow>
      \<exists>q'. get n q = Inr (take n (bytes q), q') \<and> inv q' \<and> bytes q' = drop n (bytes q)"
begin

lemma put_then_get:
  assumes "inv q" and "room (length d) q"
  shows "\<exists>q' q''. put d q = Inr q' \<and> get (length (bytes q')) q' = Inr (bytes q @ d, q'') \<and>
      inv q'' \<and> bytes q'' = []"
  using put_law [OF assms] get_law by fastforce

lemma run_conserves:
  assumes "inv q" and "q_fits room (\<lambda>q. length (bytes q)) put get ops q"
  shows "\<exists>out q'. q_run put get ops q = Inr (out, q') \<and> inv q' \<and> bytes q @ q_input ops = out @ bytes q'"
  using assms
proof (induction ops arbitrary: q)
  case Nil
  then show ?case by simp
next
  case (Cons op ops)
  show ?case
  proof (cases op)
    case (Put d)
    with Cons.prems obtain q1 where q1: "put d q = Inr q1" "inv q1" "bytes q1 = bytes q @ d"
      and fit: "q_fits room (\<lambda>q. length (bytes q)) put get ops q1"
      using put_law [of q d] by auto
    from Cons.IH [OF q1(2) fit] q1 Put show ?thesis by auto
  next
    case (Take n)
    with Cons.prems obtain q1 where q1: "get n q = Inr (take n (bytes q), q1)" "inv q1"
        "bytes q1 = drop n (bytes q)"
      and fit: "q_fits room (\<lambda>q. length (bytes q)) put get ops q1"
      using get_law [of q n] by auto
    from Cons.IH [OF q1(2) fit] obtain out q2 where
      IH: "q_run put get ops q1 = Inr (out, q2)" "inv q2" "bytes q1 @ q_input ops = out @ bytes q2"
      by blast
    have "bytes q @ q_input ops = take n (bytes q) @ bytes q1 @ q_input ops"
      by (simp add: q1(3))
    with IH Take q1 show ?thesis by simp
  qed
qed

end

definition get_buf :: "nat \<Rightarrow> buffer \<Rightarrow> (byte list \<times> buffer) res" where
  "get_buf n b = retrieveAsString (of_nat n) b"

lemma get_buf_ok:
  assumes ok: "buffer_ok b" and n: "n \<le> length (content b)"
  shows "get_buf n b = Inr (take n (content b), retrieve (of_nat n) b)"
    and "buffer_ok (retrieve (of_nat n) b)" and "content (retrieve (of_nat n) b) = drop n (content b)"
proof -
  have "length (content b) \<le> length (buf_data b)" by (simp add: content_def)
  then have u: "unat (of_nat n :: size_t) = n"
    using n buffer_okD(4) [OF ok] by (simp add: size_simps)
  then show "get_buf n b = Inr (take n (content b), retrieve (of_nat n) b)"
    using retrieveAsString_ok [OF ok, of "of_nat n"] n by (simp add: get_buf_def)
  show "buffer_ok (retrieve (of_nat n) b)" by (rule buffer_ok_retrieve [OF ok])
  show "content (retrieve (of_nat n) b) = drop n (content b)"
    using content_retrieve [OF ok, of "of_nat n"] u by simp
qed

interpretation bq: byte_queue buffer_ok content appendable append_buf get_buf
proof
  fix q and d :: "byte list"
  assume "buffer_ok q" and "appendable (length d) q"
  from append_appendable [OF this]
  show "\<exists>q'. append_buf d q = Inr q' \<and> buffer_ok q' \<and> content q' = content q @ d" by blast
next
  fix q n
  assume "buffer_ok q" and "n \<le> length (content q)"
  from get_buf_ok [OF this]
  show "\<exists>q'. get_buf n q = Inr (take n (content q), q') \<and> buffer_ok q' \<and> content q' = drop n (content q)"
    by blast
qed

section \<open>Reading from and writing to a descriptor\<close>

lemma mk_Buffer_default:
  "mk_Buffer kInitialSize = Inr \<lparr>buf_data = replicate 1032 0, readerIndex = 8, writerIndex = 8\<rparr>"
  by (simp add: mk_Buffer_def vec_resize_def KCheapPrend_def kInitialSize_def vec_max_size_def)

lemma readFd_fail:
  assumes "sys_readv K f
      (if unat (writableBytes b) < extrabuf_size then [unat (writableBytes b), extrabuf_size]
       else [unat (writableBytes b)]) k = ((n, e, bs), k')"
    and "n < 0"
  shows "readFd K f b k = Inr ((n, Some e, b), k')"
  using assms by (simp add: readFd_def Let_def)

lemma copy_prefix:
  assumes ok: "buffer_ok b"
  shows "\<exists>v. copy_to (take (unat (writableBytes b)) bs) (writerIndex b) (buf_data b) = Inr v \<and>
     length v = length (buf_data b)"
  using buffer_okD [OF ok] by (simp add: copy_to_def unat_writableBytes [OF ok])

lemma readFd_short:
  assumes ok: "buffer_ok b" and n: "n = int (length bs)" "length bs \<le> unat (writableBytes b)"
    and call: "sys_readv K f
      (if unat (writableBytes b) < extrabuf_size then [unat (writableBytes b), extrabuf_size]
       else [unat (writableBytes b)]) k = ((n, e, bs), k')"
  shows "\<exists>b'. readFd K f b k = Inr ((n, None, b'), k') \<and> buffer_ok b' \<and>
     content b' = content b @ bs \<and> readerIndex b' = readerIndex b"
proof -
  have room: "unat (writerIndex b) + length bs \<le> length (buf_data b)"
    using n buffer_okD [OF ok] by (simp add: unat_writableBytes [OF ok])
  have w: "(word_of_int n :: size_t) = of_nat (length bs)" using n by simp
  have "(of_nat (length bs) :: size_t) \<le> writableBytes b"
    using n(2) unat_of_nat_size [of "length bs"] room buffer_okD [OF ok]
    by (simp add: word_le_nat_alt)
  with copy_at_writer [OF ok room] n call w show ?thesis
    by (auto simp: readFd_def Let_def beginWrite_def)
qed

lemma readFd_long:
  assumes ok: "buffer_ok b" and n: "n = int (length bs)" "unat (writableBytes b) < length bs"
    and len: "length (buf_data b) + length bs < 2 ^ 62"
    and room: "unat (readerIndex b) < length bs - unat (writableBytes b) + 8"
    and call: "sys_readv K f
      (if unat (writableBytes b) < extrabuf_size then [unat (writableBytes b), extrabuf_size]
       else [unat (writableBytes b)]) k = ((n, e, bs), k')"
  shows "\<exists>b'. readFd K f b k = Inr ((n, None, b'), k') \<and> buffer_ok b' \<and>
     content b' = content b @ bs \<and> readerIndex b' = readerIndex b"
proof -
  note B = buffer_okD [OF ok]
  let ?w = "unat (writableBytes b)"
  have w: "?w = length (buf_data b) - unat (writerIndex b)" by (rule unat_writableBytes [OF ok])
  let ?pre = "take ?w bs" and ?post = "drop ?w bs"
  have lpre: "length ?pre = ?w" using n(2) by simp
  have fit: "unat (writerIndex b) + length ?pre \<le> length (buf_data b)" using B w by simp
  obtain v where v: "copy_to ?pre (writerIndex b) (buf_data b) = Inr v"
      "buffer_ok (b\<lparr>buf_data := v, writerIndex := writerIndex b + of_nat (length ?pre)\<rparr>)"
      "content (b\<lparr>buf_data := v, writerIndex := writerIndex b + of_nat (length ?pre)\<rparr>) = content b @ ?pre"
      "length v = length (buf_data b)"
    using copy_at_writer [OF ok fit] by (auto simp: beginWrite_def)
  have "(of_nat (length ?pre) :: size_t) = writableBytes b" by (subst lpre) simp
  then have we: "writerIndex b + of_nat (length ?pre) = vec_size v"
    using v(4) by (simp add: vec_size_def writableBytes_def)
  let ?b = "b\<lparr>buf_data := v, writerIndex := vec_size v\<rparr>"
  have ok1: "buffer_ok ?b" and c1: "content ?b = content b @ ?pre"
    using v(2,3) we by simp_all
  have "unat (vec_size v) = length v" using B v(4) by (simp add: unat_vec_size)
  then have "appendable (length ?post) ?b"
    using len room v(4) by (auto simp: appendable_def)
  from append_appendable [OF ok1 this] obtain b' where
    b': "append_buf ?post ?b = Inr b'" "buffer_ok b'" "content b' = content ?b @ ?post"
      "readerIndex b' = readerIndex b"
    by auto
  have "\<not> (word_of_int n :: size_t) \<le> writableBytes b"
    using n len by (simp add: word_le_nat_alt size_simps)
  then have "readFd K f b k = Inr ((n, None, b'), k')"
    using n call v(1) b'(1) by (simp add: readFd_def Let_def)
  with b' c1 show ?thesis by simp
qed

lemma writeFd_eq:
  assumes "buffer_ok b" and "sys_write K f (content b) k = ((n, e), k')"
  shows "writeFd K f b k =
     (if broken_pipe K n e then Inl Killed_SIGPIPE else Inr ((n, if n < 0 then Some e else None), k'))"
  using assms by (simp add: writeFd_def slice_content)

text \<open>The definitions that evaluate the operations on a concrete buffer.\<close>

lemmas buffer_ops =
  buffer_ok_def appendable_def compacting_def content_def append_buf_def ensureWritableBytes_def
  makeSpace_def writableBytes_def readableBytes_def prependableBytes_def vec_size_def vec_resize_def
  copy_to_def slice_def overwrite_def beginWrite_def peek_def get_buf_def retrieveAsString_def
  retrieveAllAsString_def retrieve_def retrieveAll_def KCheapPrend_def vec_max_size_def Let_def

lemma appendable_at_front:
  assumes "buffer_ok b" and "readerIndex b = KCheapPrend" and "length (buf_data b) + n < 2 ^ 62"
  shows "appendable n b"
  using assms by (auto simp: appendable_def buffer_ok_def)

lemma readFd_at_front:
  assumes K: "readv_contract K" and ok: "buffer_ok b" and front: "readerIndex b = KCheapPrend"
    and len: "length (buf_data b) + length bs < 2 ^ 62"
    and call: "sys_readv K f
      (if unat (writableBytes b) < extrabuf_size then [unat (writableBytes b), extrabuf_size]
       else [unat (writableBytes b)]) k = ((n, e, bs), k')"
    and n: "0 \<le> n"
  shows "\<exists>b'. readFd K f b k = Inr ((n, None, b'), k') \<and> buffer_ok b' \<and>
     content b' = content b @ bs \<and> readerIndex b' = KCheapPrend"
proof (cases "length bs \<le> unat (writableBytes b)")
  case True
  from readv_contractD [OF K call n] have "n = int (length bs)" ..
  from readFd_short [OF ok this True call] front show ?thesis by simp
next
  case False
  from readv_contractD [OF K call n] have nn: "n = int (length bs)" ..
  from False have lt: "unat (writableBytes b) < length bs" by simp
  then have "unat (readerIndex b) < length bs - unat (writableBytes b) + 8" using front by simp
  from readFd_long [OF ok nn lt len this call] front show ?thesis by simp
qed

section \<open>Properties\<close>

text \<open>
  C2. For a well-formed buffer and an append whose result stays below \<open>2 ^ 62\<close> bytes, \<^verbatim>\<open>append\<close>
  returns a buffer whose readable bytes are the old ones followed by the new ones if and only if
  the append does not take the compaction branch of \<^verbatim>\<open>makeSpace\<close>, or the read index plus the
  length happens to equal 8 plus the number of readable bytes.
\<close>

theorem append_correct_iff:
  assumes "buffer_ok b" and "length (buf_data b) + length data < 2 ^ 62"
  shows "(\<exists>b'. append_buf data b = Inr b' \<and> content b' = content b @ data) \<longleftrightarrow>
     appendable (length data) b \<or> unat (readerIndex b) + length data = 8 + length (content b)"
proof (cases "compacting (length data) b")
  case True
  with append_compact_correct_iff [OF assms(1) True assms(2)] show ?thesis
    using appendable_or_compacting [OF assms(2)] by blast
next
  case False
  then have "appendable (length data) b"
    using appendable_or_compacting [OF assms(2)] by blast
  with append_appendable [OF assms(1) this] show ?thesis by blast
qed

theorem append_correct_iff_witness:
  "(\<exists>b'. append_buf [1, 2] \<lparr>buf_data = replicate 12 0, readerIndex = 8, writerIndex = 9\<rparr> = Inr b' \<and>
      content b' = content \<lparr>buf_data = replicate 12 0, readerIndex = 8, writerIndex = 9\<rparr> @ [1, 2])"
  using append_correct_iff [of "\<lparr>buf_data = replicate 12 0, readerIndex = 8, writerIndex = 9\<rparr>" "[1, 2]"]
  by (simp add: buffer_ok_def appendable_def)

text \<open>
  C35. In the compaction branch \<^verbatim>\<open>append\<close> writes outside the vector as soon as the read index plus
  twice the length exceeds its size; otherwise the buffer claims \<open>readerIndex + 2 * len - 8\<close>
  readable bytes, whatever the number of bytes it held.
\<close>

theorem append_compaction_outcome:
  assumes "buffer_ok b" and "compacting (length data) b"
    and "length (buf_data b) + length data < 2 ^ 62"
  shows "if length (buf_data b) < unat (readerIndex b) + 2 * length data
     then append_buf data b = Inl Out_Of_Bounds
     else \<exists>b'. append_buf data b = Inr b' \<and>
       length (content b') = unat (readerIndex b) + 2 * length data - 8"
proof (cases "length (buf_data b) < unat (readerIndex b) + 2 * length data")
  case True
  then show ?thesis using append_compact [OF assms] by simp
next
  case False
  then have fits: "unat (readerIndex b) + 2 * length data \<le> length (buf_data b)" by simp
  have l: "length (overwrite (buf_data b) 8 (content b)) = length (buf_data b)"
    using buffer_okD [OF assms(1)]
    by (simp add: length_content [OF assms(1)] unat_readableBytes [OF assms(1)])
  have "length (content (append_compacted data b)) = unat (readerIndex b) + 2 * length data - 8"
    using content_append_compacted [OF assms(1) fits] l fits buffer_okD(1) [OF assms(1)] by simp
  with False append_compact [OF assms] show ?thesis by simp
qed

theorem append_compaction_outcome_witness:
  "append_buf [1, 2, 3, 4, 5] \<lparr>buf_data = replicate 24 0, readerIndex = 16, writerIndex = 20\<rparr> =
     Inl Out_Of_Bounds"
  using append_compaction_outcome
    [of "\<lparr>buf_data = replicate 24 0, readerIndex = 16, writerIndex = 20\<rparr>" "[1, 2, 3, 4, 5]"]
  by (simp add: buffer_ok_def compacting_def)

text \<open>
  C20. Refinement to a byte stream: from a well-formed buffer, every sequence of appends and
  \<^verbatim>\<open>retrieveAsString\<close> calls in which no append meets a buffer it would have to compact (or to grow beyond 2 to the 62)
  and no retrieve asks for more than is readable at that time runs to the end, keeps the buffer well formed, and the bytes taken out followed by the
  bytes left are the bytes it held followed by the bytes put in.
\<close>

theorem buffer_stream:
  assumes "buffer_ok b" and "q_fits appendable (\<lambda>b. length (content b)) append_buf get_buf ops b"
  shows "\<exists>out b'. q_run append_buf get_buf ops b = Inr (out, b') \<and> buffer_ok b' \<and>
     content b @ q_input ops = out @ content b'"
  using assms by (rule bq.run_conserves)

theorem buffer_stream_witness:
  "\<exists>out b'. q_run append_buf get_buf [Put [1, 2, 3], Take 2, Put [4]]
       \<lparr>buf_data = replicate 16 0, readerIndex = 8, writerIndex = 8\<rparr> = Inr (out, b') \<and> buffer_ok b' \<and>
     content \<lparr>buf_data = replicate 16 0, readerIndex = 8, writerIndex = 8\<rparr> @
       q_input [Put [1, 2, 3], Take 2, Put [4]] = out @ content b'"
proof (rule buffer_stream)
  show "buffer_ok \<lparr>buf_data = replicate 16 0, readerIndex = 8, writerIndex = 8\<rparr>"
    by (simp add: buffer_ok_def)
  show "q_fits appendable (\<lambda>b. length (content b)) append_buf get_buf [Put [1, 2, 3], Take 2, Put [4]]
      \<lparr>buf_data = replicate 16 0, readerIndex = 8, writerIndex = 8\<rparr>"
    by (simp add: buffer_ops)
qed

text \<open>
  \<^verbatim>\<open>readFd\<close> on a connection whose input was fully consumed before (read index at 8): for any
  number of bytes the kernel delivers, in the buffer, in \<^verbatim>\<open>extrabuf\<close> or in both, the buffer's readable
  bytes grow by exactly these bytes in order, and the read index stays at 8.
\<close>

lemma readFd_appends_all:
  assumes "readv_contract K" and "buffer_ok b" and "readerIndex b = KCheapPrend"
    and "length (buf_data b) + length bs < 2 ^ 62" and "0 \<le> n"
    and "sys_readv K f
      (if unat (writableBytes b) < extrabuf_size then [unat (writableBytes b), extrabuf_size]
       else [unat (writableBytes b)]) k = ((n, e, bs), k')"
  shows "\<exists>b'. readFd K f b k = Inr ((n, None, b'), k') \<and> buffer_ok b' \<and>
     content b' = content b @ bs \<and> readerIndex b' = KCheapPrend"
  using readFd_at_front [OF assms(1-4,6,5)] .

lemma readFd_appends_all_witness:
  "\<exists>b' k'. readFd sim_kernel 5 \<lparr>buf_data = replicate 9 0, readerIndex = KCheapPrend, writerIndex = 8\<rparr>
        (sim0\<lparr>sim_in := [1, 2, 3]\<rparr>) = Inr ((3, None, b'), k') \<and> content b' = [1, 2, 3]"
proof -
  let ?b = "\<lparr>buf_data = replicate 9 0, readerIndex = KCheapPrend, writerIndex = 8\<rparr>"
  let ?k = "sim0\<lparr>sim_in := [1, 2, 3]\<rparr>"
  have ok: "buffer_ok ?b" and cb: "content ?b = []"
    by (simp_all add: buffer_ok_def content_def KCheapPrend_def)
  have call: "sys_readv sim_kernel 5
      (if unat (writableBytes ?b) < extrabuf_size then [unat (writableBytes ?b), extrabuf_size]
       else [unat (writableBytes ?b)]) ?k = ((3, 0, [1, 2, 3]), sim0)"
    by (simp add: sim_kernel_def writableBytes_def vec_size_def extrabuf_size_def sim0_def)
  show ?thesis
    using readFd_appends_all [OF sim_readv_contract ok _ _ _ call] cb by auto
qed

text \<open>
  Round trip: what is appended to a well-formed buffer comes back from
  \<^verbatim>\<open>retrieveAllAsString\<close> behind what was readable before, and the buffer is then reset: empty, with
  both indices at 8, so that no later append can compact.
\<close>

lemma append_retrieve_roundtrip:
  assumes "buffer_ok b" and "appendable (length data) b"
  shows "\<exists>b' b''. append_buf data b = Inr b' \<and>
     retrieveAllAsString b' = Inr (content b @ data, b'') \<and> buffer_ok b'' \<and> content b'' = [] \<and>
     (\<forall>n. length (buf_data b'') + n < 2 ^ 62 \<longrightarrow> appendable n b'')"
proof -
  obtain b' where b': "append_buf data b = Inr b'" "buffer_ok b'" "content b' = content b @ data"
    using append_appendable [OF assms] by blast
  have "readerIndex (retrieveAll b') = KCheapPrend" by (simp add: retrieveAll_def)
  then have "\<forall>n. length (buf_data (retrieveAll b')) + n < 2 ^ 62 \<longrightarrow> appendable n (retrieveAll b')"
    using appendable_at_front buffer_ok_retrieveAll [OF b'(2)] by blast
  with b' retrieveAllAsString_ok [OF b'(2)] buffer_ok_retrieveAll [OF b'(2)] show ?thesis by auto
qed

lemma append_retrieve_roundtrip_witness:
  "\<exists>b' b''. append_buf [7] \<lparr>buf_data = replicate 9 0, readerIndex = 8, writerIndex = 8\<rparr> = Inr b' \<and>
     retrieveAllAsString b' = Inr ([7], b'') \<and> content b'' = []"
proof -
  have 1: "buffer_ok \<lparr>buf_data = replicate 9 0, readerIndex = 8, writerIndex = 8\<rparr>"
    and 2: "appendable (length [7]) \<lparr>buf_data = replicate 9 0, readerIndex = 8, writerIndex = 8\<rparr>"
    and 3: "content \<lparr>buf_data = replicate 9 0, readerIndex = 8, writerIndex = 8\<rparr> = []"
    by (simp_all add: buffer_ok_def appendable_def content_def)
  show ?thesis using append_retrieve_roundtrip [OF 1, of "[7]"] 2 3 by auto
qed

end
