(* ===== verification/TcpConnection.thy ===== *)
theory TcpConnection
  imports Acceptor Buffer
begin

text \<open>
  \<^verbatim>\<open>src/TcpConnection.{h,cc}\<close> and \<^verbatim>\<open>src/Callbacks.h\<close>: one established connection, with its socket, its
  channel, its state and its two buffers. The program state is extended by the connection objects
  and by the string objects that \<^verbatim>\<open>send\<close> takes a pointer into. The user's callbacks are references;
  their meaning is the \<open>callbacks\<close> argument. An empty callback that is called without a test is the
  outcome \<open>Bad_Function_Call\<close>; an object that no longer exists is the outcome \<open>Null_Deref\<close>.
  \<^verbatim>\<open>LOG_ERROR\<close> is taken to leave \<^verbatim>\<open>errno\<close> alone.
\<close>

section \<open>Data\<close>

datatype StateE = KDisconnected | KConnecting | KConnected | KDisconnecting

record tcp_connection =
  connectionCallback :: "cb_ref option"
  messageCallback :: "cb_ref option"
  writeCompleteCallback :: "cb_ref option"
  highWaterMarkCallback :: "cb_ref option"
  conn_closeCallback :: "cb_ref option"
  conn_loop :: loop_id
  conn_name :: string
  conn_state :: StateE
  reading :: bool
  conn_socket :: socket
  conn_channel :: chan_id
  localAddr :: InetAddress
  peerAddr :: InetAddress
  highWaterMark :: size_t
  inputBuffer :: buffer
  outputBuffer :: buffer

record 'k cworld = "'k aworld" +
  conns :: "conn_id \<Rightarrow> tcp_connection option"
  strings :: "str_id \<Rightarrow> byte list option"

record 'w callbacks =
  call_connection :: "cb_ref \<Rightarrow> conn_id \<Rightarrow> 'w \<Rightarrow> 'w res"
  call_close :: "cb_ref \<Rightarrow> conn_id \<Rightarrow> 'w \<Rightarrow> 'w res"
  call_writeComplete :: "cb_ref \<Rightarrow> conn_id \<Rightarrow> 'w \<Rightarrow> 'w res"
  call_message :: "cb_ref \<Rightarrow> conn_id \<Rightarrow> Timestamp \<Rightarrow> 'w \<Rightarrow> 'w res"
  call_highWater :: "cb_ref \<Rightarrow> conn_id \<Rightarrow> size_t \<Rightarrow> 'w \<Rightarrow> 'w res"

section \<open>Access to the objects\<close>

definition with_conn :: "conn_id \<Rightarrow> ('k, 'm) cworld_scheme \<Rightarrow> (tcp_connection \<Rightarrow> 'r res) \<Rightarrow> 'r res" where
  "with_conn c w f = (case conns w c of None \<Rightarrow> Inl Null_Deref | Some t \<Rightarrow> f t)"

definition put_conn :: "conn_id \<Rightarrow> tcp_connection \<Rightarrow> ('k, 'm) cworld_scheme \<Rightarrow> ('k, 'm) cworld_scheme" where
  "put_conn c t w = w\<lparr>conns := (conns w)(c \<mapsto> t)\<rparr>"

definition set_conn_state :: "StateE \<Rightarrow> tcp_connection \<Rightarrow> tcp_connection" where
  "set_conn_state s t = t\<lparr>conn_state := s\<rparr>"

definition connected :: "tcp_connection \<Rightarrow> bool" where
  "connected t \<longleftrightarrow> conn_state t = KConnected"

text \<open>The call of a \<^verbatim>\<open>std::function\<close>.\<close>

definition invoke :: "cb_ref option \<Rightarrow> (cb_ref \<Rightarrow> 'r res) \<Rightarrow> 'r res" where
  "invoke cb f = (case cb of None \<Rightarrow> Inl Bad_Function_Call | Some r \<Rightarrow> f r)"

text \<open>The \<open>n\<close> bytes at an offset from the \<^verbatim>\<open>c_str()\<close> of a string object.\<close>

definition string_range :: "str_id \<Rightarrow> nat \<Rightarrow> nat \<Rightarrow> ('k, 'm) cworld_scheme \<Rightarrow> byte list res" where
  "string_range s off n w =
     (case strings w s of
        None \<Rightarrow> Inl Null_Deref
      | Some bs \<Rightarrow> if off + n \<le> length bs then Inr (take n (drop off bs)) else Inl Out_Of_Bounds)"

definition string_size :: "str_id \<Rightarrow> ('k, 'm) cworld_scheme \<Rightarrow> size_t res" where
  "string_size s w = (case strings w s of None \<Rightarrow> Inl Null_Deref | Some bs \<Rightarrow> Inr (of_nat (length bs)))"

section \<open>Construction and destruction\<close>

definition defaultHighWaterMark :: size_t where "defaultHighWaterMark = 64 * 1024 * 1024"

definition CheckLoopNotNull :: "loop_id option \<Rightarrow> loop_id res" where
  "CheckLoopNotNull lo = (case lo of None \<Rightarrow> Inl Exit_Fatal | Some l \<Rightarrow> Inr l)"

definition conn_channel_init :: "conn_id \<Rightarrow> loop_id \<Rightarrow> fd \<Rightarrow> channel" where
  "conn_channel_init c l f =
     setErrorCallback (ConnHandleError c) (setCloseCallback (ConnHandleClose c)
       (setWriteCallback (ConnHandleWrite c) (setReadCallback (ConnHandleRead c) (mk_Channel l f))))"

definition mk_TcpConnection :: "'k kernel \<Rightarrow> conn_id \<Rightarrow> chan_id \<Rightarrow> loop_id option \<Rightarrow> string \<Rightarrow> fd \<Rightarrow>
    InetAddress \<Rightarrow> InetAddress \<Rightarrow> ('k, 'm) cworld_scheme \<Rightarrow> ('k, 'm) cworld_scheme res" where
  "mk_TcpConnection K c ch lo name f local peer w =
     bind_r (CheckLoopNotNull lo) (\<lambda>l.
     bind_r (mk_Buffer kInitialSize) (\<lambda>ib.
     bind_r (mk_Buffer kInitialSize) (\<lambda>ob.
       let t = \<lparr>connectionCallback = None, messageCallback = None, writeCompleteCallback = None,
                highWaterMarkCallback = None, conn_closeCallback = None, conn_loop = l,
                conn_name = name, conn_state = KConnecting, reading = True,
                conn_socket = \<lparr>sockfd = f\<rparr>, conn_channel = ch, localAddr = local, peerAddr = peer,
                highWaterMark = defaultHighWaterMark, inputBuffer = ib, outputBuffer = ob\<rparr>;
           w1 = put_conn c t (put_chan ch (conn_channel_init c l f) w)
       in Inr (put_sys (setKeepAlive K True (conn_socket t) (wsys w1)) w1))))"

text \<open>The destructor only logs; the members go: the channel, and the socket with its descriptor.\<close>

definition destroy_TcpConnection :: "'k kernel \<Rightarrow> conn_id \<Rightarrow> ('k, 'm) cworld_scheme \<Rightarrow> ('k, 'm) cworld_scheme res" where
  "destroy_TcpConnection K c w = with_conn c w (\<lambda>t.
     Inr (w\<lparr>wsys := destroy_Socket K (conn_socket t) (wsys w),
            chans := (chans w)(conn_channel t := None), conns := (conns w)(c := None)\<rparr>))"

definition setConnectionCallback :: "cb_ref option \<Rightarrow> tcp_connection \<Rightarrow> tcp_connection" where
  "setConnectionCallback cb t = t\<lparr>connectionCallback := cb\<rparr>"

definition setMessageCallback :: "cb_ref option \<Rightarrow> tcp_connection \<Rightarrow> tcp_connection" where
  "setMessageCallback cb t = t\<lparr>messageCallback := cb\<rparr>"

definition setWriteCompleteCallback :: "cb_ref option \<Rightarrow> tcp_connection \<Rightarrow> tcp_connection" where
  "setWriteCompleteCallback cb t = t\<lparr>writeCompleteCallback := cb\<rparr>"

definition setHighWaterMark :: "cb_ref option \<Rightarrow> size_t \<Rightarrow> tcp_connection \<Rightarrow> tcp_connection" where
  "setHighWaterMark cb mark t = t\<lparr>highWaterMarkCallback := cb, highWaterMark := mark\<rparr>"

definition conn_setCloseCallback :: "cb_ref option \<Rightarrow> tcp_connection \<Rightarrow> tcp_connection" where
  "conn_setCloseCallback cb t = t\<lparr>conn_closeCallback := cb\<rparr>"

section \<open>Sending\<close>

text \<open>
  The second half of \<^verbatim>\<open>sendInLoop\<close>: what was not written goes to the output buffer. \<open>nwrote\<close> and
  \<open>remaining\<close> are the \<^verbatim>\<open>ssize_t\<close> variables; \<open>oldlen + remaining\<close> is computed in \<^verbatim>\<open>size_t\<close>.
\<close>

definition notify_high_water :: "'k kernel \<Rightarrow> conn_id \<Rightarrow> tcp_connection \<Rightarrow> int \<Rightarrow>
    ('k, 'm) cworld_scheme \<Rightarrow> ('k, 'm) cworld_scheme res" where
  "notify_high_water K c t remaining w =
     (let oldlen = readableBytes (outputBuffer t); total = oldlen + word_of_int remaining
      in if highWaterMark t \<le> total \<and> oldlen < highWaterMark t
         then (case highWaterMarkCallback t of
                 Some cb \<Rightarrow> queueInLoop K (conn_loop t) (HighWaterMark cb c total) w
               | None \<Rightarrow> Inr w)
         else Inr w)"

definition buffer_rest :: "'k kernel \<Rightarrow> conn_id \<Rightarrow> str_id \<Rightarrow> int \<Rightarrow> int \<Rightarrow> bool \<Rightarrow>
    ('k, 'm) cworld_scheme \<Rightarrow> ('k, 'm) cworld_scheme res" where
  "buffer_rest K c s nwrote remaining faultError w =
     (if \<not> faultError \<and> 0 < remaining
      then with_conn c w (\<lambda>t.
        bind_r (notify_high_water K c t remaining w) (\<lambda>w1.
        bind_r (string_range s (nat nwrote) (nat remaining) w1) (\<lambda>data.
        bind_r (append_buf data (outputBuffer t)) (\<lambda>b.
          let w2 = put_conn c (t\<lparr>outputBuffer := b\<rparr>) w1
          in with_chan (conn_channel t) w2 (\<lambda>ch.
               if \<not> isWriting ch then Channel_request K EnableWriting (conn_channel t) w2 else Inr w2)))))
      else Inr w)"

definition notify_written :: "'k kernel \<Rightarrow> conn_id \<Rightarrow> tcp_connection \<Rightarrow>
    ('k, 'm) cworld_scheme \<Rightarrow> ('k, 'm) cworld_scheme res" where
  "notify_written K c t w =
     (case writeCompleteCallback t of
        Some cb \<Rightarrow> queueInLoop K (conn_loop t) (WriteComplete cb c) w
      | None \<Rightarrow> Inr w)"

definition sendInLoop :: "'k kernel \<Rightarrow> conn_id \<Rightarrow> str_id \<Rightarrow> size_t \<Rightarrow>
    ('k, 'm) cworld_scheme \<Rightarrow> ('k, 'm) cworld_scheme res" where
  "sendInLoop K c s len w = with_conn c w (\<lambda>t.
     if conn_state t = KDisconnected then Inr (log_err ''disconnected, give up writing'' w)
     else with_chan (conn_channel t) w (\<lambda>ch.
       if \<not> isWriting ch \<and> readableBytes (outputBuffer t) = 0
       then bind_r (string_range s 0 (unat len) w) (\<lambda>bytes.
         case sys_write K (ch_fd ch) bytes (os (wsys w)) of ((n, e), k') \<Rightarrow>
           let w1 = put_sys ((wsys w)\<lparr>os := k'\<rparr>) w
           in if broken_pipe K n e then Inl Killed_SIGPIPE
              else if 0 \<le> n
              then (let remaining = sint (len - word_of_int n)
                    in bind_r (if remaining = 0 then notify_written K c t w1 else Inr w1)
                         (buffer_rest K c s n remaining False))
              else if e \<noteq> EWOULDBLOCK
              then buffer_rest K c s 0 (sint len) (e = EPIPE \<or> e = ECONNRESET)
                     (log_err ''TcpConnection::sendInLoop'' w1)
              else buffer_rest K c s 0 (sint len) False w1)
       else buffer_rest K c s 0 (sint len) False w))"

text \<open>
  From another thread the functor holds the raw \<^verbatim>\<open>this\<close> and the pointer \<^verbatim>\<open>buf.c_str()\<close>, here the
  identities of the connection and of the string object.
\<close>

definition TcpConnection_send :: "'k kernel \<Rightarrow> conn_id \<Rightarrow> str_id \<Rightarrow>
    ('k, 'm) cworld_scheme \<Rightarrow> ('k, 'm) cworld_scheme res" where
  "TcpConnection_send K c s w = with_conn c w (\<lambda>t.
     if conn_state t = KConnected
     then with_loop (conn_loop t) w (\<lambda>el.
       bind_r (string_size s w) (\<lambda>len.
         if isInLoopThread el w then sendInLoop K c s len w
         else runInLoop K (conn_loop t) (sendInLoop K c s len) (SendInLoop c s len) w))
     else Inr w)"

section \<open>Shutting down\<close>

definition shutdownInLoop :: "'k kernel \<Rightarrow> conn_id \<Rightarrow> ('k, 'm) cworld_scheme \<Rightarrow> ('k, 'm) cworld_scheme res" where
  "shutdownInLoop K c w = with_conn c w (\<lambda>t. with_chan (conn_channel t) w (\<lambda>ch.
     Inr (if \<not> isWriting ch then put_sys (shutdownWrite K (conn_socket t) (wsys w)) w else w)))"

definition TcpConnection_shutdown :: "'k kernel \<Rightarrow> conn_id \<Rightarrow> ('k, 'm) cworld_scheme \<Rightarrow> ('k, 'm) cworld_scheme res" where
  "TcpConnection_shutdown K c w = with_conn c w (\<lambda>t.
     if conn_state t = KConnected
     then runInLoop K (conn_loop t) (shutdownInLoop K c) (ShutdownInLoop c)
            (put_conn c (set_conn_state KDisconnecting t) w)
     else Inr w)"

section \<open>Life cycle\<close>

definition connectionEstablished :: "'k kernel \<Rightarrow> ('k, 'm) cworld_scheme callbacks \<Rightarrow> conn_id \<Rightarrow>
    ('k, 'm) cworld_scheme \<Rightarrow> ('k, 'm) cworld_scheme res" where
  "connectionEstablished K CB c w = with_conn c w (\<lambda>t.
     let w1 = put_conn c (set_conn_state KConnected t) w
     in with_chan (conn_channel t) w1 (\<lambda>ch.
        bind_r (Channel_request K EnableReading (conn_channel t) (put_chan (conn_channel t) (tie c ch) w1)) (\<lambda>w2.
        with_conn c w2 (\<lambda>t2. invoke (connectionCallback t2) (\<lambda>cb. call_connection CB cb c w2)))))"

definition connectionDestroyed :: "'k kernel \<Rightarrow> ('k, 'm) cworld_scheme callbacks \<Rightarrow> conn_id \<Rightarrow>
    ('k, 'm) cworld_scheme \<Rightarrow> ('k, 'm) cworld_scheme res" where
  "connectionDestroyed K CB c w = with_conn c w (\<lambda>t.
     bind_r
       (if conn_state t = KConnected
        then bind_r (Channel_request K DisableAll (conn_channel t)
                       (put_conn c (set_conn_state KDisconnected t) w)) (\<lambda>w1.
             with_conn c w1 (\<lambda>t1. invoke (connectionCallback t1) (\<lambda>cb. call_connection CB cb c w1)))
        else Inr w)
       (\<lambda>w2. with_conn c w2 (\<lambda>t2. Channel_remove K (conn_channel t2) w2)))"

section \<open>Event handlers\<close>

definition conn_handleClose :: "'k kernel \<Rightarrow> ('k, 'm) cworld_scheme callbacks \<Rightarrow> conn_id \<Rightarrow>
    ('k, 'm) cworld_scheme \<Rightarrow> ('k, 'm) cworld_scheme res" where
  "conn_handleClose K CB c w = with_conn c w (\<lambda>t.
     bind_r (Channel_request K DisableAll (conn_channel t) (put_conn c (set_conn_state KDisconnected t) w)) (\<lambda>w1.
     bind_r (with_conn c w1 (\<lambda>t1. invoke (connectionCallback t1) (\<lambda>cb. call_connection CB cb c w1))) (\<lambda>w2.
       with_conn c w2 (\<lambda>t2. invoke (conn_closeCallback t2) (\<lambda>cb. call_close CB cb c w2)))))"

definition conn_handleError :: "'k kernel \<Rightarrow> conn_id \<Rightarrow> ('k, 'm) cworld_scheme \<Rightarrow> ('k, 'm) cworld_scheme res" where
  "conn_handleError K c w = with_conn c w (\<lambda>t. with_chan (conn_channel t) w (\<lambda>ch.
     case call_os (sys_getsockopt_error K (ch_fd ch)) (wsys w) of ((r, e, v), \<sigma>') \<Rightarrow>
       Inr (log_err (''TcpConnection::handleError name = ['' @ conn_name t @ ''] - SO_ERROR = '' @
                      fmt_d (if r < 0 then e else v))
              (put_sys \<sigma>' w))))"

definition conn_handleRead :: "'k kernel \<Rightarrow> ('k, 'm) cworld_scheme callbacks \<Rightarrow> Timestamp \<Rightarrow> conn_id \<Rightarrow>
    ('k, 'm) cworld_scheme \<Rightarrow> ('k, 'm) cworld_scheme res" where
  "conn_handleRead K CB receiveTime c w = with_conn c w (\<lambda>t. with_chan (conn_channel t) w (\<lambda>ch.
     bind_r (readFd K (ch_fd ch) (inputBuffer t) (os (wsys w))) (\<lambda>((n, saveErrno, b), k').
       let w1 = put_conn c (t\<lparr>inputBuffer := b\<rparr>) (put_sys ((wsys w)\<lparr>os := k'\<rparr>) w)
       in if 0 < n then invoke (messageCallback t) (\<lambda>cb. call_message CB cb c receiveTime w1)
          else if n = 0 then conn_handleClose K CB c w1
          else conn_handleError K c (log_err ''TcpConnection::handleRead'' w1))))"

definition conn_handleWrite :: "'k kernel \<Rightarrow> conn_id \<Rightarrow> ('k, 'm) cworld_scheme \<Rightarrow> ('k, 'm) cworld_scheme res" where
  "conn_handleWrite K c w = with_conn c w (\<lambda>t. with_chan (conn_channel t) w (\<lambda>ch.
     if isWriting ch
     then bind_r (writeFd K (ch_fd ch) (outputBuffer t) (os (wsys w))) (\<lambda>((n, saveErrno), k').
       let w1 = put_sys ((wsys w)\<lparr>os := k'\<rparr>) w
       in if 0 < n
          then
            (let b = retrieve (word_of_int n) (outputBuffer t);
                 w2 = put_conn c (t\<lparr>outputBuffer := b\<rparr>) w1
             in if readableBytes b = 0
                then bind_r (Channel_request K DisableWriting (conn_channel t) w2) (\<lambda>w3.
                     bind_r (notify_written K c t w3) (\<lambda>w4.
                       if conn_state t = KDisconnecting then shutdownInLoop K c w4 else Inr w4))
                else Inr w2)
          else Inr (log_err ''TcpConnection::handleWrite'' w1))
     else Inr (log_err ''TcpConnection::handleWrite fd = %d is down, no more writing'' w)))"

section \<open>A connection in a well-formed program state\<close>

text \<open>
  \<open>conn_view\<close>: connection \<open>c\<close> is \<open>t\<close>, its channel is \<open>ch\<close> on its own descriptor, its loop is \<open>el\<close>; the
  loop's poller agrees with the kernel, both buffers are well formed and an empty output buffer is one
  that was reset.
\<close>

definition conn_view :: "(fd \<Rightarrow> 'k \<Rightarrow> interest_list) \<Rightarrow> conn_id \<Rightarrow> tcp_connection \<Rightarrow> channel \<Rightarrow> event_loop \<Rightarrow>
    ('k, 'm) cworld_scheme \<Rightarrow> bool" where
  "conn_view interest c t ch el w \<longleftrightarrow>
     conns w c = Some t \<and> chans w (conn_channel t) = Some ch \<and> ch_loop ch = conn_loop t \<and>
     ch_fd ch = sockfd (conn_socket t) \<and> loops w (conn_loop t) = Some el \<and> wakeupFd el \<noteq> ch_fd ch \<and>
     loop_ok interest (conn_loop t) w \<and> buffer_ok (inputBuffer t) \<and> buffer_ok (outputBuffer t) \<and>
     (content (outputBuffer t) = [] \<longrightarrow> readerIndex (outputBuffer t) = KCheapPrend)"

text \<open>
  What the properties of connections rely on about the kernel: the documented effect of the calls and, as a condition
  on the run, that it refuses no epoll_ctl (it may, for lack of memory or watches; the program exits then). The
  properties of the whole program do without that condition, but for the two of theory \<open>EchoTurns\<close>.
\<close>

definition kernel_ok :: "'k kernel \<Rightarrow> (fd \<Rightarrow> 'k \<Rightarrow> interest_list) \<Rightarrow> (fd \<Rightarrow> 'k \<Rightarrow> stream_item list) \<Rightarrow> bool" where
  "kernel_ok K interest sent \<longleftrightarrow> epoll_ctl_contract K interest \<and> epoll_ctl_grants K interest \<and>
     epoll_frame_contract K interest \<and> stream_contract K sent \<and> write_contract K"

lemma sim_kernel_ok: "kernel_ok sim_kernel (\<lambda>ep k. sim_interest k ep) (\<lambda>f k. sim_out k f)"
  by (simp add: kernel_ok_def sim_epoll_ctl_contract sim_epoll_ctl_grants sim_epoll_frame sim_stream
      sim_write_contract)

lemma kernel_okD:
  assumes "kernel_ok K interest sent"
  shows "epoll_ctl_contract K interest" "epoll_ctl_grants K interest" "epoll_frame_contract K interest"
    "stream_contract K sent" "write_contract K"
  using assms by (simp_all add: kernel_ok_def)

lemma put_conn_frame [simp]:
  "wsys (put_conn c t w) = wsys w" "chans (put_conn c t w) = chans w" "loops (put_conn c t w) = loops w"
  "cachedTid (put_conn c t w) = cachedTid w" "cur_thread (put_conn c t w) = cur_thread w"
  "strings (put_conn c t w) = strings w" "conns (put_conn c t w) = (conns w)(c \<mapsto> t)"
  "acceptor_obj (put_conn c t w) = acceptor_obj w" "cworld.more (put_conn c t w) = cworld.more w"
  by (simp_all add: put_conn_def)

lemma conns_frame [simp]:
  "conns (put_loop l el w) = conns w" "conns (put_chan i x w) = conns w" "conns (put_sys \<sigma> w) = conns w"
  "conns (log_err msg w) = conns w" "strings (put_loop l el w) = strings w"
  "strings (put_chan i x w) = strings w" "strings (put_sys \<sigma> w) = strings w" "strings (log_err msg w) = strings w"
  by (simp_all add: put_loop_def put_chan_def put_sys_def log_err_def)

lemma more_conns:
  fixes w w' :: "('k, 'm) cworld_scheme"
  assumes "world.more w' = world.more w"
  shows "conns w' = conns w" "strings w' = strings w" "acceptor_obj w' = acceptor_obj w"
    "cworld.more w' = cworld.more w"
  using assms by (cases w; cases w'; simp)+

lemma isInLoopThread_cong:
  "threadId el' = threadId el \<Longrightarrow> cur_thread w' = cur_thread w \<Longrightarrow> cachedTid w' = cachedTid w \<Longrightarrow>
     isInLoopThread el' w' = isInLoopThread el w"
  by (simp add: isInLoopThread_def tid_of_def cacheTid_def Let_def)

lemma isInLoopThread_same [simp]:
  "isInLoopThread el (put_sys \<sigma> w) = isInLoopThread el w" "isInLoopThread el (log_err msg w) = isInLoopThread el w"
  "isInLoopThread el (put_conn c t w) = isInLoopThread el w"
  "isInLoopThread el (w\<lparr>strings := S\<rparr>) = isInLoopThread el w"
  by (rule isInLoopThread_cong; simp)+

lemma with_conn_Some [simp]: "conns w c = Some t \<Longrightarrow> with_conn c w f = f t"
  by (simp add: with_conn_def)

lemma set_conn_state_fields [simp]:
  "conn_state (set_conn_state s t) = s" "conn_channel (set_conn_state s t) = conn_channel t"
  "conn_loop (set_conn_state s t) = conn_loop t" "conn_socket (set_conn_state s t) = conn_socket t"
  "inputBuffer (set_conn_state s t) = inputBuffer t" "outputBuffer (set_conn_state s t) = outputBuffer t"
  "connectionCallback (set_conn_state s t) = connectionCallback t"
  "messageCallback (set_conn_state s t) = messageCallback t"
  "conn_closeCallback (set_conn_state s t) = conn_closeCallback t"
  by (simp_all add: set_conn_state_def)

lemma put_sys_view:
  assumes "conn_view interest c t ch el w"
    and "\<And>ep. interest ep (os \<sigma>) = interest ep (os (wsys w))"
  shows "conn_view interest c t ch el (put_sys \<sigma> w)"
  using assms loop_ok_cong [of interest "conn_loop t" w "put_sys \<sigma> w"] by (simp add: conn_view_def)

lemma strings_view:
  "conn_view interest c t ch el w \<Longrightarrow> conn_view interest c t ch el (w\<lparr>strings := S\<rparr>)"
  using loop_ok_cong [of interest "conn_loop t" w "w\<lparr>strings := S\<rparr>"] by (simp add: conn_view_def)

lemma put_conn_view:
  assumes "conn_view interest c t ch el w"
    and "conn_channel t' = conn_channel t" "conn_loop t' = conn_loop t" "conn_socket t' = conn_socket t"
    and "buffer_ok (inputBuffer t')" "buffer_ok (outputBuffer t')"
    and "content (outputBuffer t') = [] \<Longrightarrow> readerIndex (outputBuffer t') = KCheapPrend"
  shows "conn_view interest c t' ch el (put_conn c t' w)"
  using assms loop_ok_cong [of interest "conn_loop t" w "put_conn c t' w"] by (simp add: conn_view_def)

lemma queueInLoop_view:
  assumes K: "kernel_ok K interest sent" and v: "conn_view interest c t ch el w"
  shows "\<exists>w'. queueInLoop K (conn_loop t) tk w = Inr w' \<and>
     conn_view interest c t ch (el\<lparr>pendingFunctors := pendingFunctors el @ [tk]\<rparr>) w' \<and>
     sent (ch_fd ch) (os (wsys w')) = sent (ch_fd ch) (os (wsys w)) \<and>
     conns w' = conns w \<and> strings w' = strings w \<and> chans w' = chans w \<and>
     isInLoopThread (el\<lparr>pendingFunctors := pendingFunctors el @ [tk]\<rparr>) w' = isInLoopThread el w"
proof -
  have el: "loops w (conn_loop t) = Some el" and wk: "wakeupFd el \<noteq> ch_fd ch"
    using v by (simp_all add: conn_view_def)
  obtain w' where w': "queueInLoop K (conn_loop t) tk w = Inr w'"
      "loops w' = (loops w)(conn_loop t \<mapsto> el\<lparr>pendingFunctors := pendingFunctors el @ [tk]\<rparr>)"
      "chans w' = chans w" "world.more w' = world.more w"
      "os (wsys w') = (if \<not> isInLoopThread el w \<or> callingPendingFunctors el
                     then snd (sys_write K (wakeupFd el) one_bytes (os (wsys w))) else os (wsys w))"
      "cur_thread w' = cur_thread w" "cachedTid w' = cachedTid w"
    using queueInLoop_ok [OF el] by blast
  have "isInLoopThread (el\<lparr>pendingFunctors := pendingFunctors el @ [tk]\<rparr>) w' = isInLoopThread el w"
    by (rule isInLoopThread_cong) (simp_all add: w'(6,7))
  note same = this
  note more = more_conns [OF w'(4)]
  have il: "interest ep (os (wsys w')) = interest ep (os (wsys w))" for ep
    unfolding w'(5) using epoll_frameD(1) [OF kernel_okD(3) [OF K]] by simp
  have "sent (ch_fd ch) (os (wsys w')) = sent (ch_fd ch) (os (wsys w))"
    unfolding w'(5) using stream_otherD(3) [OF kernel_okD(4) [OF K] wk] by simp
  moreover have "loop_ok interest (conn_loop t) w'"
    by (rule loop_ok_cong [of _ _ w]) (use v w' il in \<open>auto simp: conn_view_def\<close>)
  ultimately show ?thesis using v w' more same by (auto simp: conn_view_def)
qed

lemma request_view:
  assumes K: "kernel_ok K interest sent" and v: "conn_view interest c t ch el w"
    and pre: "ch_index ch = kNew \<or> ch_events ch \<noteq> 0 \<or> request_events r (ch_events ch) = 0"
  shows "\<exists>w' n p. Channel_request K r (conn_channel t) w = Inr w' \<and> n \<noteq> kNew \<and>
     conn_view interest c t (set_index n (request r ch)) (el\<lparr>loop_poller := Some p\<rparr>) w' \<and>
     sent g (os (wsys w')) = sent g (os (wsys w)) \<and> conns w' = conns w \<and> strings w' = strings w \<and>
     chans w' = (chans w)(conn_channel t \<mapsto> set_index n (request r ch)) \<and>
     cur_thread w' = cur_thread w \<and> cachedTid w' = cachedTid w \<and> cworld.more w' = cworld.more w \<and>
     isInLoopThread (el\<lparr>loop_poller := Some p\<rparr>) w' = isInLoopThread el w"
proof -
  have ch: "chans w (conn_channel t) = Some ch" and lp: "ch_loop ch = conn_loop t"
    and ok: "loop_ok interest (ch_loop ch) w" and el: "loops w (conn_loop t) = Some el"
    using v by (simp_all add: conn_view_def)
  obtain w' where w': "Channel_request K r (conn_channel t) w = Inr w'"
    using Channel_request_returns [OF kernel_okD(1,2) [OF K] ok ch pre] by blast
  note eff = Channel_request_effect [OF kernel_okD(1) [OF K] ok ch w']
  from eff(2) obtain n where n: "n \<noteq> kNew"
      "chans w' = (chans w)(conn_channel t \<mapsto> set_index n (request r ch))" by blast
  from eff(3) el lp obtain p where p: "loops w' = (loops w)(conn_loop t \<mapsto> el\<lparr>loop_poller := Some p\<rparr>)" by auto
  note more = more_conns [OF eff(4)]
  have "conn_view interest c t (set_index n (request r ch)) (el\<lparr>loop_poller := Some p\<rparr>) w'"
    using v n p eff(1) more lp by (simp add: conn_view_def)
  moreover have "isInLoopThread (el\<lparr>loop_poller := Some p\<rparr>) w' = isInLoopThread el w"
    by (rule isInLoopThread_cong) (simp_all add: eff(5,6))
  ultimately show ?thesis using w' n eff(5,6) eff(7) [OF kernel_okD(4) [OF K]] more by blast
qed

section \<open>Sending\<close>

text \<open>The notification \<^verbatim>\<open>sendInLoop\<close> owes when \<open>n\<close> more bytes go to the output buffer: exactly on crossing the mark.\<close>

definition high_water_tasks :: "conn_id \<Rightarrow> tcp_connection \<Rightarrow> nat \<Rightarrow> task list" where
  "high_water_tasks c t n =
     (let old = length (content (outputBuffer t)) in
      case highWaterMarkCallback t of
        None \<Rightarrow> []
      | Some cb \<Rightarrow> if old < unat (highWaterMark t) \<and> unat (highWaterMark t) \<le> old + n
                   then [HighWaterMark cb c (of_nat (old + n))] else [])"

definition written_tasks :: "conn_id \<Rightarrow> tcp_connection \<Rightarrow> task list" where
  "written_tasks c t = (case writeCompleteCallback t of None \<Rightarrow> [] | Some cb \<Rightarrow> [WriteComplete cb c])"

lemma notify_high_water_view:
  assumes K: "kernel_ok K interest sent" and v: "conn_view interest c t ch el w" and n: "n < 2 ^ 62"
  shows "\<exists>w'. notify_high_water K c t (int n) w = Inr w' \<and>
     conn_view interest c t ch (el\<lparr>pendingFunctors := pendingFunctors el @ high_water_tasks c t n\<rparr>) w' \<and>
     sent (ch_fd ch) (os (wsys w')) = sent (ch_fd ch) (os (wsys w)) \<and>
     conns w' = conns w \<and> strings w' = strings w \<and> chans w' = chans w \<and>
     isInLoopThread el w' = isInLoopThread el w"
proof -
  have ok: "buffer_ok (outputBuffer t)" using v by (simp add: conn_view_def)
  let ?old = "readableBytes (outputBuffer t)"
  have len: "length (content (outputBuffer t)) = unat ?old" using length_content [OF ok] .
  have "unat ?old < 2 ^ 62" using buffer_okD [OF ok] unat_readableBytes [OF ok] by simp
  then have sum: "unat (?old + of_nat n) = unat ?old + n" using n by (simp add: size_simps)
  have arg: "?old + of_nat n = of_nat (unat ?old + n)" by simp
  have cond: "highWaterMark t \<le> ?old + of_nat n \<and> ?old < highWaterMark t \<longleftrightarrow>
      unat ?old < unat (highWaterMark t) \<and> unat (highWaterMark t) \<le> unat ?old + n"
    unfolding word_le_nat_alt size_less_iff sum by blast
  show ?thesis
  proof (cases "highWaterMarkCallback t")
    case None
    then show ?thesis using v by (simp add: notify_high_water_def high_water_tasks_def Let_def)
  next
    case (Some cb)
    show ?thesis
    proof (cases "unat ?old < unat (highWaterMark t) \<and> unat (highWaterMark t) \<le> unat ?old + n")
      case True
      then show ?thesis
        using Some queueInLoop_view [OF K v, of "HighWaterMark cb c (of_nat (unat ?old + n))"] cond
        unfolding notify_high_water_def high_water_tasks_def Let_def len by simp
    next
      case False
      then show ?thesis
        using Some v cond unfolding notify_high_water_def high_water_tasks_def Let_def len by auto
    qed
  qed
qed

lemma notify_written_view:
  assumes K: "kernel_ok K interest sent" and v: "conn_view interest c t ch el w"
  shows "\<exists>w'. notify_written K c t w = Inr w' \<and>
     conn_view interest c t ch (el\<lparr>pendingFunctors := pendingFunctors el @ written_tasks c t\<rparr>) w' \<and>
     sent (ch_fd ch) (os (wsys w')) = sent (ch_fd ch) (os (wsys w)) \<and>
     conns w' = conns w \<and> strings w' = strings w \<and> chans w' = chans w \<and>
     isInLoopThread el w' = isInLoopThread el w"
proof (cases "writeCompleteCallback t")
  case None
  then show ?thesis using v by (simp add: notify_written_def written_tasks_def)
next
  case (Some cb)
  then show ?thesis using queueInLoop_view [OF K v, of "WriteComplete cb c"]
    by (simp add: notify_written_def written_tasks_def)
qed

lemma interest_after [simp]:
  "isWriting (set_index n (request EnableWriting ch))"
  "isReading (set_index n (request EnableWriting ch)) = isReading ch"
  "isReading (set_index n (request EnableReading ch))"
  "isWriting (set_index n (request EnableReading ch)) = isWriting ch"
  "isWriting (set_index n (request DisableWriting ch)) = isWriting ch"
  "\<not> isReading (set_index n (request DisableWriting ch))"
  unfolding isReading_bits isWriting_bits set_index_fields request_fields request_bits by simp_all

lemma string_rangeI:
  "strings w s = Some bs \<Longrightarrow> off + n \<le> length bs \<Longrightarrow> string_range s off n w = Inr (take n (drop off bs))"
  by (simp add: string_range_def)

lemma buffer_rest_view:
  assumes K: "kernel_ok K interest sent" and v: "conn_view interest c t ch el w"
    and s: "strings w s = Some bs" and n: "off + n = length bs" "0 < n"
    and app: "appendable n (outputBuffer t)" and reg: "ch_index ch = kNew \<or> ch_events ch \<noteq> 0"
  shows "\<exists>w' b ch' el'. buffer_rest K c s (int off) (int n) False w = Inr w' \<and>
     conn_view interest c (t\<lparr>outputBuffer := b\<rparr>) ch' el' w' \<and>
     content b = content (outputBuffer t) @ drop off bs \<and> readerIndex b = readerIndex (outputBuffer t) \<and>
     isWriting ch' \<and> isReading ch' = isReading ch \<and> ch_revents ch' = ch_revents ch \<and> strings w' = strings w \<and>
     sent (ch_fd ch) (os (wsys w')) = sent (ch_fd ch) (os (wsys w)) \<and>
     pendingFunctors el' = pendingFunctors el @ high_water_tasks c t n \<and>
     isInLoopThread el' w' = isInLoopThread el w"
proof -
  let ?el1 = "el\<lparr>pendingFunctors := pendingFunctors el @ high_water_tasks c t n\<rparr>"
  have n62: "n < 2 ^ 62" using app by (simp add: appendable_def)
  have ok: "buffer_ok (outputBuffer t)" "buffer_ok (inputBuffer t)" and t: "conns w c = Some t"
    and "content (outputBuffer t) = [] \<longrightarrow> readerIndex (outputBuffer t) = KCheapPrend"
    using v by (simp_all add: conn_view_def)
  obtain w1 where w1: "notify_high_water K c t (int n) w = Inr w1"
      "conn_view interest c t ch ?el1 w1" "sent (ch_fd ch) (os (wsys w1)) = sent (ch_fd ch) (os (wsys w))"
      "strings w1 = strings w" "isInLoopThread el w1 = isInLoopThread el w"
    using notify_high_water_view [OF K v n62] by blast
  have data: "string_range s off n w1 = Inr (drop off bs)"
    using string_rangeI [of w1 s bs off n] s n w1(4) by simp
  have "length (drop off bs) = n" using n by simp
  with append_appendable [OF ok(1), of "drop off bs"] app obtain b where
    b: "append_buf (drop off bs) (outputBuffer t) = Inr b" "buffer_ok b"
      "content b = content (outputBuffer t) @ drop off bs" "readerIndex b = readerIndex (outputBuffer t)"
    by auto
  let ?t2 = "t\<lparr>outputBuffer := b\<rparr>" and ?w2 = "put_conn c (t\<lparr>outputBuffer := b\<rparr>) w1"
  have v2: "conn_view interest c ?t2 ch ?el1 ?w2"
    using put_conn_view [OF w1(2), of ?t2] ok b n by simp
  then have ch2: "chans ?w2 (conn_channel t) = Some ch" by (simp add: conn_view_def)
  have eq: "buffer_rest K c s (int off) (int n) False w =
      (if \<not> isWriting ch then Channel_request K EnableWriting (conn_channel t) ?w2 else Inr ?w2)"
    using n(2) t w1(1) data b(1) ch2 by (simp add: buffer_rest_def Let_def)
  show ?thesis
  proof (cases "isWriting ch")
    case True
    with eq b w1 have "buffer_rest K c s (int off) (int n) False w = Inr ?w2"
      "isReading ch = isReading ch" "ch_revents ch = ch_revents ch" "strings ?w2 = strings w" "pendingFunctors ?el1 = pendingFunctors el @ high_water_tasks c t n"
      "sent (ch_fd ch) (os (wsys ?w2)) = sent (ch_fd ch) (os (wsys w))"
      "isInLoopThread ?el1 ?w2 = isInLoopThread el w"
      by simp_all
    with v2 b True show ?thesis by blast
  next
    case False
    obtain w3 m p where "Channel_request K EnableWriting (conn_channel ?t2) ?w2 = Inr w3"
        "conn_view interest c ?t2 (set_index m (request EnableWriting ch)) (?el1\<lparr>loop_poller := Some p\<rparr>) w3"
        "sent (ch_fd ch) (os (wsys w3)) = sent (ch_fd ch) (os (wsys ?w2))" "strings w3 = strings ?w2"
        "isInLoopThread (?el1\<lparr>loop_poller := Some p\<rparr>) w3 = isInLoopThread ?el1 ?w2"
      using request_view [OF K v2, of EnableWriting "ch_fd ch"] reg by blast
    with False eq b w1 show ?thesis by fastforce
  qed
qed

text \<open>
  \<^verbatim>\<open>sendInLoop\<close> tries the socket at once when nothing is queued; what the kernel accepts then, and
  whether the attempt shows that the peer is gone.
\<close>

definition direct_write :: "channel \<Rightarrow> tcp_connection \<Rightarrow> bool" where
  "direct_write ch t \<longleftrightarrow> \<not> isWriting ch \<and> content (outputBuffer t) = []"

definition accepted :: "'k kernel \<Rightarrow> channel \<Rightarrow> tcp_connection \<Rightarrow> byte list \<Rightarrow> 'k \<Rightarrow> nat" where
  "accepted K ch t bs k = (if direct_write ch t then nat (fst (fst (sys_write K (ch_fd ch) bs k))) else 0)"

definition send_faults :: "'k kernel \<Rightarrow> channel \<Rightarrow> tcp_connection \<Rightarrow> byte list \<Rightarrow> 'k \<Rightarrow> bool" where
  "send_faults K ch t bs k \<longleftrightarrow> direct_write ch t \<and>
     (case fst (sys_write K (ch_fd ch) bs k) of (n, e) \<Rightarrow> n < 0 \<and> (e = EPIPE \<or> e = ECONNRESET))"

definition send_completes :: "'k kernel \<Rightarrow> channel \<Rightarrow> tcp_connection \<Rightarrow> byte list \<Rightarrow> 'k \<Rightarrow> bool" where
  "send_completes K ch t bs k \<longleftrightarrow> direct_write ch t \<and> fst (fst (sys_write K (ch_fd ch) bs k)) = int (length bs)"

definition buffered_tasks :: "conn_id \<Rightarrow> tcp_connection \<Rightarrow> nat \<Rightarrow> task list" where
  "buffered_tasks c t n = (if 0 < n then high_water_tasks c t n else [])"

lemma sint_of_nat_size: "n < 2 ^ 63 \<Longrightarrow> sint (of_nat n :: size_t) = int n"
  by (simp add: signed_of_nat signed_take_bit_int_eq_self)

lemma sint_diff_size:
  assumes "m \<le> n" and "n < 2 ^ 62"
  shows "sint (of_nat n - of_nat m :: size_t) = int (n - m)"
proof -
  have "of_nat n - of_nat m = (of_nat (n - m) :: size_t)" using of_nat_diff [OF assms(1)] by metis
  moreover have "n - m < 2 ^ 63" using assms by simp
  ultimately show ?thesis using sint_of_nat_size by metis
qed

lemma log_err_view: "conn_view interest c t ch el w \<Longrightarrow> conn_view interest c t ch el (log_err msg w)"
  using loop_ok_cong [of interest "conn_loop t" w "log_err msg w"] by (simp add: conn_view_def)

text \<open>The rest of a message goes to the buffer, or there is none.\<close>

lemma buffer_rest_all:
  assumes K: "kernel_ok K interest sent" and v: "conn_view interest c t ch el w"
    and s: "strings w s = Some bs" and off: "off \<le> length bs"
    and app: "off < length bs \<Longrightarrow> appendable (length bs - off) (outputBuffer t)"
    and reg: "ch_index ch = kNew \<or> ch_events ch \<noteq> 0"
    and wr: "content (outputBuffer t) \<noteq> [] \<Longrightarrow> isWriting ch"
  shows "\<exists>w' b ch' el'. buffer_rest K c s (int off) (int (length bs - off)) False w = Inr w' \<and>
     conn_view interest c (t\<lparr>outputBuffer := b\<rparr>) ch' el' w' \<and>
     sent (ch_fd ch) (os (wsys w')) = sent (ch_fd ch) (os (wsys w)) \<and>
     content b = content (outputBuffer t) @ drop off bs \<and> readerIndex b = readerIndex (outputBuffer t) \<and>
     (content b \<noteq> [] \<longrightarrow> isWriting ch') \<and> isReading ch' = isReading ch \<and> ch_revents ch' = ch_revents ch \<and>
     pendingFunctors el' = pendingFunctors el @ buffered_tasks c t (length bs - off) \<and>
     isInLoopThread el' w' = isInLoopThread el w \<and> isWriting ch' = (isWriting ch \<or> off < length bs)"
proof (cases "off = length bs")
  case True
  have "conn_view interest c (t\<lparr>outputBuffer := outputBuffer t\<rparr>) ch el w" using v by simp
  moreover have "buffer_rest K c s (int off) (int (length bs - off)) False w = Inr w"
    using True by (simp add: buffer_rest_def)
  ultimately show ?thesis using True wr
    by (intro exI [of _ w] exI [of _ "outputBuffer t"] exI [of _ ch] exI [of _ el])
      (auto simp: buffered_tasks_def)
next
  case False
  with off have n: "off + (length bs - off) = length bs" "0 < length bs - off" by simp_all
  from buffer_rest_view [OF K v s n _ reg] app n(2) show ?thesis by (fastforce simp: buffered_tasks_def)
qed

lemma sendInLoop_view:
  assumes K: "kernel_ok K interest sent" and v: "conn_view interest c t ch el w"
    and st: "conn_state t \<noteq> KDisconnected" and s: "strings w s = Some bs"
    and len: "length bs + length (buf_data (outputBuffer t)) < 2 ^ 62"
    and app: "appendable (length bs) (outputBuffer t)"
    and reg: "ch_index ch = kNew \<or> ch_events ch \<noteq> 0"
    and wr: "content (outputBuffer t) \<noteq> [] \<Longrightarrow> isWriting ch"
    and nf: "\<not> send_faults K ch t bs (os (wsys w))"
  shows "\<exists>w' b ch' el'. sendInLoop K c s (of_nat (length bs)) w = Inr w' \<and>
     conn_view interest c (t\<lparr>outputBuffer := b\<rparr>) ch' el' w' \<and>
     sent (ch_fd ch) (os (wsys w')) =
       sent (ch_fd ch) (os (wsys w)) @ map Byte (take (accepted K ch t bs (os (wsys w))) bs) \<and>
     content b = content (outputBuffer t) @ drop (accepted K ch t bs (os (wsys w))) bs \<and>
     readerIndex b = readerIndex (outputBuffer t) \<and>
     (content b \<noteq> [] \<longrightarrow> isWriting ch') \<and> isReading ch' = isReading ch \<and> ch_revents ch' = ch_revents ch \<and>
     pendingFunctors el' = pendingFunctors el @
       (if send_completes K ch t bs (os (wsys w)) then written_tasks c t else []) @
       buffered_tasks c t (length bs - accepted K ch t bs (os (wsys w))) \<and>
     isInLoopThread el' w' = isInLoopThread el w \<and>
     isWriting ch' = (isWriting ch \<or> accepted K ch t bs (os (wsys w)) < length bs)"
proof -
  have ok: "buffer_ok (outputBuffer t)" and t: "conns w c = Some t"
    and ch: "chans w (conn_channel t) = Some ch"
    using v by (simp_all add: conn_view_def)
  let ?L = "of_nat (length bs) :: size_t"
  have uL: "unat ?L = length bs" and sL: "sint ?L = int (length bs)"
    using len by (simp_all add: size_simps sint_of_nat_size)
  have test: "\<not> isWriting ch \<and> readableBytes (outputBuffer t) = 0 \<longleftrightarrow> direct_write ch t"
    using content_empty_iff [OF ok] by (simp add: direct_write_def)
  show ?thesis
  proof (cases "direct_write ch t")
    case False
    then have "sendInLoop K c s ?L w = buffer_rest K c s (int 0) (int (length bs - 0)) False w"
      using t st ch by (simp add: sendInLoop_def sL test)
    with buffer_rest_all [OF K v s le0 _ reg wr] app False show ?thesis
      by (simp add: accepted_def send_completes_def)
  next
    case True
    then have front: "\<And>n. n \<le> length bs \<Longrightarrow> appendable n (outputBuffer t)"
      using v len by (intro appendable_at_front [OF ok]) (auto simp: conn_view_def direct_write_def)
    obtain n e k' where call: "sys_write K (ch_fd ch) bs (os (wsys w)) = ((n, e), k')"
      by (metis prod.exhaust)
    let ?w1 = "put_sys ((wsys w)\<lparr>os := k'\<rparr>) w"
    have il: "interest ep k' = interest ep (os (wsys w))" for ep
      using epoll_frameD(1) [OF kernel_okD(3) [OF K], of ep "ch_fd ch" bs "os (wsys w)"] call by simp
    have v1: "conn_view interest c t ch el ?w1" by (rule put_sys_view [OF v]) (simp add: il)
    have s1: "strings ?w1 s = Some bs" using s by simp
    have sent1: "sent (ch_fd ch) (os (wsys ?w1)) = sent (ch_fd ch) (os (wsys w)) @ map Byte (take (nat n) bs)"
      using stream_writeD [OF kernel_okD(4) [OF K] call] by simp
    have msg: "string_range s 0 (unat ?L) w = Inr bs" using s uL by (simp add: string_range_def)
    have acc: "accepted K ch t bs (os (wsys w)) = nat n" using True call by (simp add: accepted_def)
    note unf = sendInLoop_def Let_def
    show ?thesis
    proof (cases "0 \<le> n")
      case False
      let ?w2 = "if e \<noteq> EWOULDBLOCK then log_err ''TcpConnection::sendInLoop'' ?w1 else ?w1"
      have v2: "conn_view interest c t ch el ?w2" using v1 log_err_view [OF v1] by simp
      have "\<not> (e = EPIPE \<or> e = ECONNRESET)" using nf True False call by (auto simp: send_faults_def)
      then have eq: "sendInLoop K c s ?L w = buffer_rest K c s (int 0) (int (length bs - 0)) False ?w2"
        using t st ch test True msg call False by (simp add: unf sL broken_pipe_def)
      have fields: "strings ?w2 s = Some bs" "os (wsys ?w2) = os (wsys ?w1)"
          "isInLoopThread el ?w2 = isInLoopThread el w"
        using s by simp_all
      have "\<not> send_completes K ch t bs (os (wsys w))" using False call by (simp add: send_completes_def)
      then show ?thesis
        using buffer_rest_all [OF K v2 fields(1) le0 _ reg wr] app sent1 acc False unfolding eq fields(2,3) by simp
    next
      case n0: True
      have nb: "nat n \<le> length bs" using write_contractD [OF kernel_okD(5) [OF K] call] by simp
      have "word_of_int n = (of_nat (nat n) :: size_t)" using n0 by simp
      then have rem: "sint (?L - word_of_int n) = int (length bs - nat n)"
        using sint_diff_size [OF nb] len by simp
      have eq: "sendInLoop K c s ?L w =
          bind_r (if length bs = nat n then notify_written K c t ?w1 else Inr ?w1)
            (buffer_rest K c s (int (nat n)) (int (length bs - nat n)) False)"
        using t st ch test True msg call n0 nb by (auto simp: unf rem)
      have comp: "send_completes K ch t bs (os (wsys w)) \<longleftrightarrow> length bs = nat n"
        using True call n0 by (auto simp: send_completes_def)
      show ?thesis
      proof (cases "length bs = nat n")
        case True
        obtain w2 where w2: "notify_written K c t ?w1 = Inr w2"
            "conn_view interest c t ch (el\<lparr>pendingFunctors := pendingFunctors el @ written_tasks c t\<rparr>) w2"
            "sent (ch_fd ch) (os (wsys w2)) = sent (ch_fd ch) (os (wsys ?w1))" "strings w2 = strings ?w1"
            "isInLoopThread el w2 = isInLoopThread el ?w1"
          using notify_written_view [OF K v1] by blast
        with buffer_rest_all [OF K w2(2) _ nb front reg wr] s1 eq True sent1 acc comp
        show ?thesis by simp
      next
        case False
        with buffer_rest_all [OF K v1 s1 nb front reg wr] eq sent1 acc comp show ?thesis by simp
      qed
    qed
  qed
qed

section \<open>Writing out and shutting down\<close>

lemma shutdownInLoop_view:
  assumes K: "kernel_ok K interest sent" and v: "conn_view interest c t ch el w"
  shows "\<exists>w'. shutdownInLoop K c w = Inr w' \<and> conn_view interest c t ch el w' \<and>
     conns w' = conns w \<and> chans w' = chans w \<and> (isWriting ch \<longrightarrow> w' = w) \<and>
     sent (ch_fd ch) (os (wsys w')) = sent (ch_fd ch) (os (wsys w)) @
       (if \<not> isWriting ch \<and> 0 \<le> fst (fst (sys_shutdown_wr K (ch_fd ch) (os (wsys w)))) then [Fin] else []) \<and>
     isInLoopThread el w' = isInLoopThread el w"
proof (cases "isWriting ch")
  case True
  then show ?thesis using v by (simp add: shutdownInLoop_def conn_view_def)
next
  case False
  let ?w' = "put_sys (shutdownWrite K (conn_socket t) (wsys w)) w"
  have fd: "sockfd (conn_socket t) = ch_fd ch" using v by (simp add: conn_view_def)
  obtain r e k' where call: "sys_shutdown_wr K (ch_fd ch) (os (wsys w)) = ((r, e), k')"
    by (metis prod.exhaust)
  have os: "os (wsys ?w') = k'" using call fd by simp
  have "shutdownInLoop K c w = Inr ?w'" using v False by (simp add: shutdownInLoop_def conn_view_def)
  moreover have "conn_view interest c t ch el ?w'"
    using epoll_frameD(4) [OF kernel_okD(3) [OF K], of _ "ch_fd ch" "os (wsys w)"] call fd
    by (intro put_sys_view [OF v]) simp
  ultimately show ?thesis
    using False stream_shutdownD [OF kernel_okD(4) [OF K] call, of "ch_fd ch"] call os by auto
qed

definition drained :: "tcp_connection \<Rightarrow> int \<Rightarrow> bool" where
  "drained t n \<longleftrightarrow> 0 < n \<and> n = int (length (content (outputBuffer t)))"

lemma readerIndex_reset:
  assumes "buffer_ok b" and "content (retrieve len b) = []" and "content b \<noteq> []"
  shows "readerIndex (retrieve len b) = KCheapPrend"
proof -
  have "length (content b) \<le> unat len" using assms by (simp add: content_retrieve)
  then have "\<not> len < readableBytes b" using length_content [OF assms(1)] by (simp add: size_less_iff)
  then show ?thesis by (simp add: retrieve_def retrieveAll_def)
qed

lemma only_writing: "isWriting ch \<Longrightarrow> ch_events ch AND kWriteEvent = kWriteEvent"
  by (rule bit_eqI) (auto simp: bit_and_iff kWriteEvent_bits isWriting_bits)

lemma handleWrite_view:
  assumes K: "kernel_ok K interest sent" and v: "conn_view interest c t ch el w" and wr: "isWriting ch"
    and call: "sys_write K (ch_fd ch) (content (outputBuffer t)) (os (wsys w)) = ((n, e), k')"
    and alive: "\<not> broken_pipe K n e"
  shows "\<exists>w' b ch' el'. conn_handleWrite K c w = Inr w' \<and>
     conn_view interest c (t\<lparr>outputBuffer := b\<rparr>) ch' el' w' \<and>
     sent (ch_fd ch) (os (wsys w')) =
       sent (ch_fd ch) (os (wsys w)) @ map Byte (take (nat n) (content (outputBuffer t))) \<and>
     content b = drop (nat n) (content (outputBuffer t)) \<and> isWriting ch' \<and>
     isReading ch' = (isReading ch \<and> \<not> drained t n) \<and>
     (drained t n \<longrightarrow> ch_events ch' = kWriteEvent \<and> ch_index ch' \<noteq> kNew) \<and>
     pendingFunctors el' = pendingFunctors el @ (if drained t n then written_tasks c t else []) \<and>
     isInLoopThread el' w' = isInLoopThread el w"
proof -
  have ok: "buffer_ok (outputBuffer t)" "buffer_ok (inputBuffer t)" and t: "conns w c = Some t"
    and ch: "chans w (conn_channel t) = Some ch"
    using v by (simp_all add: conn_view_def)
  let ?w1 = "put_sys ((wsys w)\<lparr>os := k'\<rparr>) w"
  have v1: "conn_view interest c t ch el ?w1"
    using epoll_frameD(1) [OF kernel_okD(3) [OF K], of _ "ch_fd ch" "content (outputBuffer t)" "os (wsys w)"] call
    by (intro put_sys_view [OF v]) simp
  have sent1: "sent (ch_fd ch) (os (wsys ?w1)) =
      sent (ch_fd ch) (os (wsys w)) @ map Byte (take (nat n) (content (outputBuffer t)))"
    using stream_writeD [OF kernel_okD(4) [OF K] call] by simp
  have wfd: "writeFd K (ch_fd ch) (outputBuffer t) (os (wsys w)) = Inr ((n, if n < 0 then Some e else None), k')"
    using writeFd_eq [OF ok(1) call] alive by simp
  show ?thesis
  proof (cases "0 < n")
    case False
    then have "conn_handleWrite K c w = Inr (log_err ''TcpConnection::handleWrite'' ?w1)"
      using t ch wr wfd by (simp add: conn_handleWrite_def Let_def)
    moreover have "conn_view interest c (t\<lparr>outputBuffer := outputBuffer t\<rparr>) ch el
        (log_err ''TcpConnection::handleWrite'' ?w1)"
      using log_err_view [OF v1] by simp
    ultimately show ?thesis using False sent1 wr by (fastforce simp: drained_def)
  next
    case True
    let ?b = "retrieve (word_of_int n) (outputBuffer t)"
    let ?t2 = "t\<lparr>outputBuffer := ?b\<rparr>" and ?w2 = "put_conn c (t\<lparr>outputBuffer := ?b\<rparr>) ?w1"
    have nb: "nat n \<le> length (content (outputBuffer t))"
      using write_contractD [OF kernel_okD(5) [OF K] call] by simp
    then have "content (outputBuffer t) \<noteq> []" using True by auto
    note reset = readerIndex_reset [OF ok(1) _ this, of "word_of_int n"]
    have "length (content (outputBuffer t)) < 2 ^ 62"
      using length_content [OF ok(1)] unat_readableBytes [OF ok(1)] buffer_okD [OF ok(1)] by simp
    then have "unat (of_nat (nat n) :: size_t) = nat n" using nb by (simp add: unat_of_nat_size)
    moreover have "word_of_int n = (of_nat (nat n) :: size_t)" using True by simp
    ultimately have "unat (word_of_int n :: size_t) = nat n" by simp
    then have cb: "content ?b = drop (nat n) (content (outputBuffer t))"
      using content_retrieve [OF ok(1)] by simp
    have v2: "conn_view interest c ?t2 ch el ?w2"
      using buffer_ok_retrieve [OF ok(1)] ok(2) reset by (intro put_conn_view [OF v1]) simp_all
    have empty: "readableBytes ?b = 0 \<longleftrightarrow> drained t n"
      using content_empty_iff [OF buffer_ok_retrieve [OF ok(1)]] cb nb True by (auto simp: drained_def)
    have eq: "conn_handleWrite K c w =
        (if drained t n
         then bind_r (Channel_request K DisableWriting (conn_channel t) ?w2) (\<lambda>w3.
              bind_r (notify_written K c t w3) (\<lambda>w4.
                if conn_state t = KDisconnecting then shutdownInLoop K c w4 else Inr w4))
         else Inr ?w2)"
      using t ch wr wfd True empty by (simp add: conn_handleWrite_def Let_def)
    show ?thesis
    proof (cases "drained t n")
      case False
      then show ?thesis using eq v2 sent1 cb wr by fastforce
    next
      case True
      have "ch_events ch \<noteq> 0" using wr by (auto simp: isWriting_def)
      then obtain w3 m p where w3: "Channel_request K DisableWriting (conn_channel ?t2) ?w2 = Inr w3"
          "conn_view interest c ?t2 (set_index m (request DisableWriting ch)) (el\<lparr>loop_poller := Some p\<rparr>) w3"
          "sent (ch_fd ch) (os (wsys w3)) = sent (ch_fd ch) (os (wsys ?w2))" "m \<noteq> kNew"
          "isInLoopThread (el\<lparr>loop_poller := Some p\<rparr>) w3 = isInLoopThread el ?w2"
        using request_view [OF K v2, of DisableWriting "ch_fd ch"] by blast
      have nw: "notify_written K c ?t2 w3 = notify_written K c t w3" "written_tasks c ?t2 = written_tasks c t"
        by (cases "writeCompleteCallback t"; simp add: notify_written_def written_tasks_def)+
      let ?el4 = "el\<lparr>loop_poller := Some p, pendingFunctors := pendingFunctors el @ written_tasks c t\<rparr>"
      obtain w4 where w4: "notify_written K c t w3 = Inr w4"
          "conn_view interest c ?t2 (set_index m (request DisableWriting ch)) ?el4 w4"
          "sent (ch_fd ch) (os (wsys w4)) = sent (ch_fd ch) (os (wsys w3))"
          "isInLoopThread (el\<lparr>loop_poller := Some p\<rparr>) w4 = isInLoopThread (el\<lparr>loop_poller := Some p\<rparr>) w3"
        using notify_written_view [OF K w3(2)] nw by auto
      have "isWriting (set_index m (request DisableWriting ch))" using wr by simp
      with shutdownInLoop_view [OF K w4(2)] have "shutdownInLoop K c w4 = Inr w4" by auto
      then have "conn_handleWrite K c w = Inr w4" using eq True w3(1) w4(1) by simp
      moreover have "ch_events (set_index m (request DisableWriting ch)) = kWriteEvent"
        using only_writing [OF wr] by simp
      moreover have "isInLoopThread ?el4 w4 = isInLoopThread (el\<lparr>loop_poller := Some p\<rparr>) w4"
        by (rule isInLoopThread_cong) simp_all
      ultimately show ?thesis using w4 w3 sent1 cb wr True by fastforce
    qed
  qed
qed

section \<open>Life cycle\<close>

lemma tie_fields [simp]:
  "ch_loop (tie c ch) = ch_loop ch" "ch_fd (tie c ch) = ch_fd ch" "ch_index (tie c ch) = ch_index ch"
  "ch_events (tie c ch) = ch_events ch" "ch_tied (tie c ch)" "ch_tie (tie c ch) = Some c"
  by (simp_all add: tie_def)

lemma established_view:
  assumes K: "kernel_ok K interest sent" and v: "conn_view interest c t ch el w"
    and reg: "ch_index ch = kNew \<or> ch_events ch \<noteq> 0"
  shows "\<exists>w1 n p. n \<noteq> kNew \<and>
     connectionEstablished K CB c w = invoke (connectionCallback t) (\<lambda>cb. call_connection CB cb c w1) \<and>
     conn_view interest c (set_conn_state KConnected t) (set_index n (request EnableReading (tie c ch)))
       (el\<lparr>loop_poller := Some p\<rparr>) w1 \<and>
     sent g (os (wsys w1)) = sent g (os (wsys w)) \<and> cworld.more w1 = cworld.more w"
proof -
  let ?t = "set_conn_state KConnected t" and ?w1 = "put_conn c (set_conn_state KConnected t) w"
  let ?w2 = "put_chan (conn_channel t) (tie c ch) ?w1"
  have v1: "conn_view interest c ?t ch el ?w1"
    using v by (intro put_conn_view [OF v]) (auto simp: conn_view_def)
  then have ok1: "loop_ok interest (conn_loop t) ?w1" and ch1: "chans ?w1 (conn_channel t) = Some ch"
    by (simp_all add: conn_view_def)
  have "conn_view interest c ?t (tie c ch) el ?w2"
    using v1 loop_ok_put_chan [OF ok1 ch1, of "tie c ch"] by (simp add: conn_view_def)
  from request_view [OF K this, of EnableReading g] reg obtain w3 n p where
    w3: "Channel_request K EnableReading (conn_channel t) ?w2 = Inr w3" "n \<noteq> kNew"
      "conn_view interest c ?t (set_index n (request EnableReading (tie c ch))) (el\<lparr>loop_poller := Some p\<rparr>) w3"
      "sent g (os (wsys w3)) = sent g (os (wsys ?w2))" "cworld.more w3 = cworld.more ?w2"
    by auto
  have "conns w c = Some t" "conns w3 c = Some ?t" using v w3(3) by (simp_all add: conn_view_def)
  then have "connectionEstablished K CB c w = invoke (connectionCallback t) (\<lambda>cb. call_connection CB cb c w3)"
    using ch1 w3(1) by (simp add: connectionEstablished_def Let_def)
  moreover have "cworld.more w3 = cworld.more w" using w3(5) by (simp add: put_conn_def put_chan_def)
  ultimately show ?thesis using w3(2-4) by (intro exI [of _ w3] exI [of _ n] exI [of _ p]) simp
qed

lemma disable_view:
  assumes K: "kernel_ok K interest sent" and v: "conn_view interest c t ch el w"
  shows "\<exists>w1 n p. n \<noteq> kNew \<and>
     Channel_request K DisableAll (conn_channel t) (put_conn c (set_conn_state KDisconnected t) w) = Inr w1 \<and>
     conn_view interest c (set_conn_state KDisconnected t) (set_index n (request DisableAll ch))
       (el\<lparr>loop_poller := Some p\<rparr>) w1 \<and>
     sent g (os (wsys w1)) = sent g (os (wsys w)) \<and> cworld.more w1 = cworld.more w \<and>
     isInLoopThread (el\<lparr>loop_poller := Some p\<rparr>) w1 = isInLoopThread el w"
proof -
  have "conn_view interest c (set_conn_state KDisconnected t) ch el (put_conn c (set_conn_state KDisconnected t) w)"
    using v by (intro put_conn_view [OF v]) (auto simp: conn_view_def)
  from request_view [OF K this, of DisableAll g] show ?thesis
    by (auto simp: kNoneEvent_def)
qed

lemma remove_view:
  assumes K: "kernel_ok K interest sent" and v: "conn_view interest c t ch el w"
  shows "\<exists>w'. Channel_remove K (conn_channel t) w = Inr w' \<and>
     loop_hasChannel (conn_loop t) (conn_channel t) w' = Inr False \<and> watched interest (conn_channel t) w' = None \<and>
     conns w' = conns w \<and> world.more w' = world.more w"
proof -
  have ch: "chans w (conn_channel t) = Some ch" and lp: "ch_loop ch = conn_loop t"
    and ok: "loop_ok interest (ch_loop ch) w"
    using v by (simp_all add: conn_view_def)
  from Channel_remove_step [OF kernel_okD(1) [OF K] ok ch] obtain w' where
    w': "Channel_remove K (conn_channel t) w = Inr w'" "loop_ok interest (conn_loop t) w'"
      "loop_hasChannel (conn_loop t) (conn_channel t) w' = Inr False" "world.more w' = world.more w"
    unfolding lp by blast
  obtain el' p where el': "loops w (ch_loop ch) = Some el'" "loop_poller el' = Some p"
    using ok by (rule loop_okE)
  have "chans w' (conn_channel t) = Some (set_index kNew ch)"
    using w'(1) ch unfolding Channel_remove_eq [OF ch el'] by (auto simp: bind_r_Inr_iff split: if_splits)
  from watched_eq(2) [of interest "set_index kNew ch" w', OF _ this] w'(2) lp
  have "watched interest (conn_channel t) w' = None" by simp
  then show ?thesis using w' more_conns [OF w'(4)] by blast
qed

section \<open>A concrete connection\<close>

text \<open>
  Connection 0 on loop 0 with descriptor 5, channel 1, registered for the events \<open>ev\<close> in the epoll
  instance 9, with \<open>out\<close> waiting in its output buffer and room for \<open>room\<close> more bytes in the socket.
\<close>

definition demo_buffer :: "byte list \<Rightarrow> buffer" where
  "demo_buffer bs = \<lparr>buf_data = replicate 8 0 @ bs @ replicate 8 0, readerIndex = KCheapPrend,
     writerIndex = KCheapPrend + of_nat (length bs)\<rparr>"

definition demo_conn :: "StateE \<Rightarrow> byte list \<Rightarrow> tcp_connection" where
  "demo_conn st out = \<lparr>connectionCallback = Some 1, messageCallback = Some 2, writeCompleteCallback = Some 3,
     highWaterMarkCallback = Some 4, conn_closeCallback = Some 5, conn_loop = 0, conn_name = ''c'',
     conn_state = st, reading = True, conn_socket = \<lparr>sockfd = 5\<rparr>, conn_channel = 1,
     localAddr = \<lparr>sock_addr = zero_sockaddr\<rparr>, peerAddr = \<lparr>sock_addr = zero_sockaddr\<rparr>,
     highWaterMark = 1, inputBuffer = demo_buffer [], outputBuffer = demo_buffer out\<rparr>"

definition demo_chan :: "c_int \<Rightarrow> channel" where
  "demo_chan ev = (conn_channel_init 0 0 5)\<lparr>ch_events := ev, ch_index := kAdded\<rparr>"

definition demo_cloop :: event_loop where
  "demo_cloop = demo_loop\<lparr>pendingFunctors := [], loop_poller := Some \<lparr>ownerLoop = 0,
     po_channels = (\<lambda>_. None)(5 \<mapsto> 1), epollfd = 9, po_events = replicate 16 zero_event\<rparr>\<rparr>"

definition demo_cworld :: "tcp_connection \<Rightarrow> c_int \<Rightarrow> nat \<Rightarrow> sim cworld" where
  "demo_cworld t ev room = \<lparr>wsys = \<lparr>os = sim0\<lparr>sim_room := room, sim_in := [7],
       sim_interest := (\<lambda>_ _. None)(9 := (\<lambda>_. None)(5 \<mapsto> \<lparr>ev_events = ev, ev_ptr = 1\<rparr>))\<rparr>, logs = []\<rparr>,
     chans = (\<lambda>_. None)(1 \<mapsto> demo_chan ev), loops = (\<lambda>_. None)(0 \<mapsto> demo_cloop), cachedTid = (\<lambda>_. 0),
     cur_thread = 7, loopInThread = (\<lambda>_. None), numCreated = 0, acceptor_obj = None, conns = (\<lambda>_. None)(0 \<mapsto> t),
     strings = (\<lambda>_. None)(0 \<mapsto> [1, 2, 3])\<rparr>"

abbreviation sim_watch :: "fd \<Rightarrow> sim \<Rightarrow> interest_list" where
  "sim_watch \<equiv> \<lambda>ep k. sim_interest k ep"

abbreviation sim_sent :: "fd \<Rightarrow> sim \<Rightarrow> stream_item list" where
  "sim_sent \<equiv> \<lambda>f k. sim_out k f"

lemma demo_buffer_writer: "length bs < 100 \<Longrightarrow> unat (KCheapPrend + of_nat (length bs)) = 8 + length bs"
  by (simp add: size_simps)

lemma demo_buffer_ok [simp]:
  assumes "length bs < 100"
  shows "buffer_ok (demo_buffer bs)" "content (demo_buffer bs) = bs" "readerIndex (demo_buffer bs) = KCheapPrend"
    "length (buf_data (demo_buffer bs)) = 16 + length bs"
  using demo_buffer_writer [OF assms] assms by (simp_all add: demo_buffer_def buffer_ok_def content_def)

lemma demo_view:
  assumes "length out < 100"
  shows "conn_view sim_watch 0 (demo_conn st out) (demo_chan ev) demo_cloop (demo_cworld (demo_conn st out) ev room)"
proof -
  let ?w = "demo_cworld (demo_conn st out) ev room"
  let ?p = "\<lparr>ownerLoop = 0, po_channels = (\<lambda>_. None)(5 \<mapsto> 1), epollfd = 9, po_events = replicate 16 zero_event\<rparr>"
  have own: "owned (chans ?w) 0 i c \<longleftrightarrow> i = 1 \<and> c = demo_chan ev" for i c
    by (auto simp: owned_def demo_cworld_def demo_chan_def conn_channel_init_def mk_Channel_def
        setErrorCallback_def setCloseCallback_def setWriteCallback_def setReadCallback_def)
  have ch: "ch_fd (demo_chan ev) = 5" "ch_loop (demo_chan ev) = 0" "ch_index (demo_chan ev) = kAdded"
      "ch_events (demo_chan ev) = ev"
    by (simp_all add: demo_chan_def conn_channel_init_def mk_Channel_def
        setErrorCallback_def setCloseCallback_def setWriteCallback_def setReadCallback_def)
  have "poller_wf (chans ?w, ?p, wsys ?w)" "interest_wf sim_watch (chans ?w, ?p, wsys ?w)"
    using own ch by (auto simp: fds_distinct_def index_wf_def map_wf_def chan_synced_def demo_cworld_def)
  moreover have "loops ?w 0 = Some demo_cloop" "loop_poller demo_cloop = Some ?p"
    by (simp_all add: demo_cworld_def demo_cloop_def)
  ultimately have "loop_ok sim_watch 0 ?w" unfolding loop_ok_def by (auto simp del: poller_wf.simps interest_wf.simps)
  then show ?thesis using ch assms
    by (simp add: conn_view_def demo_cworld_def demo_conn_def demo_cloop_def demo_loop_def)
qed

section \<open>Properties\<close>

text \<open>
  C7. No byte is lost, duplicated or reordered by \<^verbatim>\<open>sendInLoop\<close>, on a well-formed connection that is not
  \<^verbatim>\<open>kDisconnected\<close> (the message is dropped then), has write interest for what is buffered and a channel that, if it is
  registered, wants some event, and on a kernel that refuses no epoll_ctl,
  when the message fits the output buffer without compaction (\<open>appendable\<close>; otherwise see \<open>append_compaction_outcome\<close>)
  and the direct write does not fail with \<^verbatim>\<open>EPIPE\<close> or \<^verbatim>\<open>ECONNRESET\<close> (the message is dropped then): the call
  returns, what the kernel accepted followed by the output buffer is what it was followed by the
  message, and whatever is left in the buffer has write interest registered.
\<close>

theorem sendInLoop_conserves:
  assumes "kernel_ok K interest sent" and "conn_view interest c t ch el w"
    and "conn_state t \<noteq> KDisconnected" and "strings w s = Some bs"
    and "length bs + length (buf_data (outputBuffer t)) < 2 ^ 62"
    and "appendable (length bs) (outputBuffer t)"
    and "ch_index ch = kNew \<or> ch_events ch \<noteq> 0"
    and "content (outputBuffer t) \<noteq> [] \<Longrightarrow> isWriting ch"
    and "\<not> send_faults K ch t bs (os (wsys w))"
  shows "\<exists>w' t' ch' el'. sendInLoop K c s (of_nat (length bs)) w = Inr w' \<and>
     conn_view interest c t' ch' el' w' \<and> conn_state t' = conn_state t \<and>
     sent (ch_fd ch) (os (wsys w')) @ map Byte (content (outputBuffer t')) =
       sent (ch_fd ch) (os (wsys w)) @ map Byte (content (outputBuffer t) @ bs) \<and>
     (content (outputBuffer t') \<noteq> [] \<longrightarrow> isWriting ch')"
proof -
  let ?n = "accepted K ch t bs (os (wsys w))"
  obtain w' b ch' el' where w': "sendInLoop K c s (of_nat (length bs)) w = Inr w'"
      "conn_view interest c (t\<lparr>outputBuffer := b\<rparr>) ch' el' w'"
      "sent (ch_fd ch) (os (wsys w')) = sent (ch_fd ch) (os (wsys w)) @ map Byte (take ?n bs)"
      "content b = content (outputBuffer t) @ drop ?n bs" "content b \<noteq> [] \<longrightarrow> isWriting ch'"
    using sendInLoop_view [OF assms] by blast
  have "?n = 0 \<or> content (outputBuffer t) = []" by (simp add: accepted_def direct_write_def)
  then have "sent (ch_fd ch) (os (wsys w')) @ map Byte (content b) =
      sent (ch_fd ch) (os (wsys w)) @ map Byte (content (outputBuffer t) @ bs)"
    unfolding w'(3,4) by (elim disjE) (simp_all flip: map_append)
  with w' show ?thesis by (intro exI [of _ w'] exI [of _ "t\<lparr>outputBuffer := b\<rparr>"] exI [of _ ch'] exI [of _ el']) simp
qed

lemma demo_send_ok:
  assumes "w = demo_cworld (demo_conn KConnected []) kReadEvent 2"
  shows "strings w 0 = Some [1, 2, 3]" "conn_state (demo_conn KConnected []) \<noteq> KDisconnected"
    "length [1, 2, 3 :: byte] + length (buf_data (outputBuffer (demo_conn KConnected []))) < 2 ^ 62"
    "appendable (length [1, 2, 3 :: byte]) (outputBuffer (demo_conn KConnected []))"
    "ch_index (demo_chan kReadEvent) = kNew \<or> ch_events (demo_chan kReadEvent) \<noteq> 0"
    "content (outputBuffer (demo_conn KConnected [])) = []"
    "\<not> send_faults sim_kernel (demo_chan kReadEvent) (demo_conn KConnected []) [1, 2, 3] (os (wsys w))"
    "ch_fd (demo_chan kReadEvent) = 5" "os (wsys w) = (os (wsys w))\<lparr>sim_room := 2\<rparr>" "sim_out (os (wsys w)) = (\<lambda>_. [])"
    "\<not> isWriting (demo_chan kReadEvent)"
  using assms
  by (simp_all add: demo_cworld_def demo_conn_def appendable_at_front send_faults_def direct_write_def
      sim_kernel_def demo_chan_def event_defs isWriting_def conn_channel_init_def mk_Channel_def
      setErrorCallback_def setCloseCallback_def setWriteCallback_def setReadCallback_def sim0_def split: prod.splits)

theorem sendInLoop_conserves_witness:
  "\<exists>w' t' ch' el'. sendInLoop sim_kernel 0 0 3 (demo_cworld (demo_conn KConnected []) kReadEvent 2) = Inr w' \<and>
     conn_view sim_watch 0 t' ch' el' w' \<and>
     sim_out (os (wsys w')) 5 @ map Byte (content (outputBuffer t')) = [Byte 1, Byte 2, Byte 3]"
proof -
  let ?w = "demo_cworld (demo_conn KConnected []) kReadEvent 2"
  note d = demo_send_ok [OF refl]
  from sendInLoop_conserves [OF sim_kernel_ok demo_view d(2,1,3-5) _ d(7)] d(6,8,10)
  show ?thesis by fastforce
qed

text \<open>
  \<^verbatim>\<open>sendInLoop\<close> under the same conditions queues exactly the notifications it owes, behind the functors
  already pending: the write-complete callback if and only if the message was written at once in
  full, and the high-water-mark callback, with the new length, if and only if the bytes that had to
  be buffered take the output buffer from below the mark to the mark or above it.
\<close>

lemma sendInLoop_notifies:
  assumes "kernel_ok K interest sent" and "conn_view interest c t ch el w"
    and "conn_state t \<noteq> KDisconnected" and "strings w s = Some bs"
    and "length bs + length (buf_data (outputBuffer t)) < 2 ^ 62"
    and "appendable (length bs) (outputBuffer t)"
    and "ch_index ch = kNew \<or> ch_events ch \<noteq> 0"
    and "content (outputBuffer t) \<noteq> [] \<Longrightarrow> isWriting ch"
    and "\<not> send_faults K ch t bs (os (wsys w))"
  shows "\<exists>w' el'. sendInLoop K c s (of_nat (length bs)) w = Inr w' \<and> loops w' (conn_loop t) = Some el' \<and>
     pendingFunctors el' = pendingFunctors el @
       (if send_completes K ch t bs (os (wsys w)) then written_tasks c t else []) @
       buffered_tasks c t (length bs - accepted K ch t bs (os (wsys w)))"
proof -
  obtain w' b ch' el' where w': "sendInLoop K c s (of_nat (length bs)) w = Inr w'"
      "conn_view interest c (t\<lparr>outputBuffer := b\<rparr>) ch' el' w'"
      "pendingFunctors el' = pendingFunctors el @
       (if send_completes K ch t bs (os (wsys w)) then written_tasks c t else []) @
       buffered_tasks c t (length bs - accepted K ch t bs (os (wsys w)))"
    using sendInLoop_view [OF assms] by blast
  then show ?thesis by (auto simp: conn_view_def)
qed

lemma sendInLoop_notifies_witness:
  "\<exists>w' el'. sendInLoop sim_kernel 0 0 3 (demo_cworld (demo_conn KConnected []) kReadEvent 2) = Inr w' \<and>
     loops w' 0 = Some el' \<and> pendingFunctors el' = [HighWaterMark 4 0 1]"
proof -
  let ?w = "demo_cworld (demo_conn KConnected []) kReadEvent 2"
  note d = demo_send_ok [OF refl]
  have room: "sim_room (os (wsys ?w)) = 2" by (simp add: demo_cworld_def)
  have acc: "accepted sim_kernel (demo_chan kReadEvent) (demo_conn KConnected []) [1, 2, 3] (os (wsys ?w)) = 2"
      "\<not> send_completes sim_kernel (demo_chan kReadEvent) (demo_conn KConnected []) [1, 2, 3] (os (wsys ?w))"
    using d(6,11) room by (simp_all add: accepted_def send_completes_def direct_write_def sim_kernel_def)
  have tasks: "buffered_tasks 0 (demo_conn KConnected []) 1 = [HighWaterMark 4 0 1]"
    by (simp add: buffered_tasks_def high_water_tasks_def demo_conn_def)
  have "pendingFunctors demo_cloop = []" "conn_loop (demo_conn KConnected []) = 0"
    by (simp_all add: demo_cloop_def demo_conn_def)
  with sendInLoop_notifies [OF sim_kernel_ok demo_view d(2,1,3-5) _ d(7)] d(6) acc tasks
  show ?thesis by fastforce
qed

text \<open>
  C21. \<^verbatim>\<open>handleWrite\<close> on a channel with write interest, on a kernel that refuses no epoll_ctl: a write that fails with
  \<^verbatim>\<open>EPIPE\<close> kills the program unless \<^verbatim>\<open>SIGPIPE\<close> is ignored; in every other case the call returns, the bytes the kernel
  accepts leave the front of the output buffer and nothing else changes in the stream, and the
  write-complete callback is queued if and only if the buffer became empty.
\<close>

theorem handleWrite_conserves:
  assumes "kernel_ok K interest sent" and "conn_view interest c t ch el w" and "isWriting ch"
    and "sys_write K (ch_fd ch) (content (outputBuffer t)) (os (wsys w)) = ((n, e), k')"
  shows "if broken_pipe K n e then conn_handleWrite K c w = Inl Killed_SIGPIPE
     else \<exists>w' t' ch' el'. conn_handleWrite K c w = Inr w' \<and> conn_view interest c t' ch' el' w' \<and>
     sent (ch_fd ch) (os (wsys w')) @ map Byte (content (outputBuffer t')) =
       sent (ch_fd ch) (os (wsys w)) @ map Byte (content (outputBuffer t)) \<and>
     content (outputBuffer t') = drop (nat n) (content (outputBuffer t)) \<and>
     pendingFunctors el' = pendingFunctors el @ (if drained t n then written_tasks c t else [])"
proof (cases "broken_pipe K n e")
  case True
  then show ?thesis using assms writeFd_eq [OF _ assms(4)]
    by (simp add: conn_handleWrite_def conn_view_def)
next
  case False
  obtain w' b ch' el' where w': "conn_handleWrite K c w = Inr w'"
      "conn_view interest c (t\<lparr>outputBuffer := b\<rparr>) ch' el' w'"
      "sent (ch_fd ch) (os (wsys w')) =
         sent (ch_fd ch) (os (wsys w)) @ map Byte (take (nat n) (content (outputBuffer t)))"
      "content b = drop (nat n) (content (outputBuffer t))"
      "pendingFunctors el' = pendingFunctors el @ (if drained t n then written_tasks c t else [])"
    using handleWrite_view [OF assms False] by blast
  have "sent (ch_fd ch) (os (wsys w')) @ map Byte (content b) =
      sent (ch_fd ch) (os (wsys w)) @ map Byte (content (outputBuffer t))"
    unfolding w'(3,4) by (simp flip: map_append)
  with w' have "\<exists>w' t' ch' el'. conn_handleWrite K c w = Inr w' \<and> conn_view interest c t' ch' el' w' \<and>
     sent (ch_fd ch) (os (wsys w')) @ map Byte (content (outputBuffer t')) =
       sent (ch_fd ch) (os (wsys w)) @ map Byte (content (outputBuffer t)) \<and>
     content (outputBuffer t') = drop (nat n) (content (outputBuffer t)) \<and>
     pendingFunctors el' = pendingFunctors el @ (if drained t n then written_tasks c t else [])"
    by (intro exI [of _ w'] exI [of _ "t\<lparr>outputBuffer := b\<rparr>"] exI [of _ ch'] exI [of _ el']) simp
  then show ?thesis using False by simp
qed

lemma demo_write:
  assumes "length out < 100"
  shows "ch_fd (demo_chan ev) = 5" "content (outputBuffer (demo_conn st out)) = out"
    "conn_loop (demo_conn st out) = 0" "conn_channel (demo_conn st out) = 1"
    "isWriting (demo_chan (kReadEvent OR kWriteEvent))" "pendingFunctors demo_cloop = []"
    "sys_write sim_kernel 5 out (os (wsys (demo_cworld t ev room))) =
       ((int (min room (length out)), 0), snd (sys_write sim_kernel 5 out (os (wsys (demo_cworld t ev room)))))"
    "sim_out (os (wsys (demo_cworld t ev room))) = (\<lambda>_. [])" "conn_state (demo_conn st out) = st"
  using assms
  by (simp_all add: demo_cworld_def demo_conn_def demo_cloop_def Let_def
      sim_kernel_def demo_chan_def event_defs isWriting_def conn_channel_init_def mk_Channel_def
      setErrorCallback_def setCloseCallback_def setWriteCallback_def setReadCallback_def sim0_def)

theorem handleWrite_conserves_witness:
  "\<exists>w' t' ch' el'. conn_handleWrite sim_kernel 0
        (demo_cworld (demo_conn KConnected [1, 2]) (kReadEvent OR kWriteEvent) 1) = Inr w' \<and>
     conn_view sim_watch 0 t' ch' el' w' \<and> content (outputBuffer t') = [2] \<and>
     sim_out (os (wsys w')) 5 @ map Byte (content (outputBuffer t')) = [Byte 1, Byte 2]"
proof -
  have l: "length [1, 2 :: byte] < 100" by simp
  note d = demo_write [OF l]
  have call: "sys_write sim_kernel (ch_fd (demo_chan (kReadEvent OR kWriteEvent)))
      (content (outputBuffer (demo_conn KConnected [1, 2])))
      (os (wsys (demo_cworld (demo_conn KConnected [1, 2]) (kReadEvent OR kWriteEvent) 1))) =
      ((1, 0), snd (sys_write sim_kernel 5 [1, 2]
        (os (wsys (demo_cworld (demo_conn KConnected [1, 2]) (kReadEvent OR kWriteEvent) 1)))))"
    unfolding d(1,2) using d(7) [of "demo_conn KConnected [1, 2]" "kReadEvent OR kWriteEvent" 1] by simp
  have "\<not> broken_pipe sim_kernel 1 0" by simp
  with handleWrite_conserves [OF sim_kernel_ok demo_view [OF l] d(5) call]
  show ?thesis unfolding d(1,2,8) by fastforce
qed

text \<open>
  C34. Draining the output buffer stalls the connection: when \<^verbatim>\<open>handleWrite\<close> writes out the last bytes,
  \<^verbatim>\<open>disableWriting\<close> keeps write interest and drops read interest, so the kernel watches the descriptor
  for writing only. A connection that was shutting down therefore never ends its stream (only the
  bytes are added, no end of stream), nothing is read any more, and the next writable event finds
  nothing to write and only logs an error.
\<close>

theorem drained_write_stalls:
  assumes K: "kernel_ok K interest sent" and v: "conn_view interest c t ch el w" and wr: "isWriting ch"
    and call: "sys_write K (ch_fd ch) (content (outputBuffer t)) (os (wsys w)) = ((n, e), k')"
    and dr: "drained t n"
  shows "\<exists>w' t' ch' el'. conn_handleWrite K c w = Inr w' \<and> conn_view interest c t' ch' el' w' \<and>
     content (outputBuffer t') = [] \<and> watched interest (conn_channel t) w' = Some kWriteEvent \<and>
     sent (ch_fd ch) (os (wsys w')) = sent (ch_fd ch) (os (wsys w)) @ map Byte (content (outputBuffer t)) \<and>
     (\<forall>e2 k2. sys_write K (ch_fd ch) [] (os (wsys w')) = ((0, e2), k2) \<longrightarrow>
        conn_handleWrite K c w' =
          Inr (log_err ''TcpConnection::handleWrite'' (put_sys ((wsys w')\<lparr>os := k2\<rparr>) w')))"
proof -
  obtain w' b ch' el' where w': "conn_handleWrite K c w = Inr w'"
      "conn_view interest c (t\<lparr>outputBuffer := b\<rparr>) ch' el' w'"
      "sent (ch_fd ch) (os (wsys w')) =
         sent (ch_fd ch) (os (wsys w)) @ map Byte (take (nat n) (content (outputBuffer t)))"
      "content b = drop (nat n) (content (outputBuffer t))" "isWriting ch'"
      "ch_events ch' = kWriteEvent" "ch_index ch' \<noteq> kNew"
    using handleWrite_view [OF K v wr call] dr by (fastforce simp: drained_def)
  have n: "nat n = length (content (outputBuffer t))" using dr by (simp add: drained_def)
  have ok: "loop_ok interest (ch_loop ch') w'" "chans w' (conn_channel t) = Some ch'" "ch_fd ch' = ch_fd ch"
      "conns w' c = Some (t\<lparr>outputBuffer := b\<rparr>)" "buffer_ok b"
    using w'(2) v by (simp_all add: conn_view_def)
  have "watched interest (conn_channel t) w' = Some kWriteEvent"
    using watched_eq(1) [OF ok(1,2) w'(7)] w'(6) by (simp add: event_defs)
  moreover have "conn_handleWrite K c w' =
      Inr (log_err ''TcpConnection::handleWrite'' (put_sys ((wsys w')\<lparr>os := k2\<rparr>) w'))"
    if "sys_write K (ch_fd ch) [] (os (wsys w')) = ((0, e2), k2)" for e2 k2
  proof -
    have "writeFd K (ch_fd ch') b (os (wsys w')) = Inr ((0, None), k2)"
      using writeFd_eq [OF ok(5), of K "ch_fd ch" "os (wsys w')" 0 e2 k2] that w'(4) n ok(3) by simp
    then show ?thesis using ok w'(5) by (simp add: conn_handleWrite_def Let_def)
  qed
  ultimately show ?thesis using w' n
    by (intro exI [of _ w'] exI [of _ "t\<lparr>outputBuffer := b\<rparr>"] exI [of _ ch'] exI [of _ el']) simp
qed

theorem drained_write_stalls_witness:
  "\<exists>w' t' ch' el'. conn_handleWrite sim_kernel 0
        (demo_cworld (demo_conn KDisconnecting [1, 2]) (kReadEvent OR kWriteEvent) 10) = Inr w' \<and>
     conn_view sim_watch 0 t' ch' el' w' \<and> content (outputBuffer t') = [] \<and>
     watched sim_watch 1 w' = Some kWriteEvent \<and> sim_out (os (wsys w')) 5 = [Byte 1, Byte 2]"
proof -
  have l: "length [1, 2 :: byte] < 100" by simp
  note d = demo_write [OF l]
  have call: "sys_write sim_kernel (ch_fd (demo_chan (kReadEvent OR kWriteEvent)))
      (content (outputBuffer (demo_conn KDisconnecting [1, 2])))
      (os (wsys (demo_cworld (demo_conn KDisconnecting [1, 2]) (kReadEvent OR kWriteEvent) 10))) =
      ((2, 0), snd (sys_write sim_kernel 5 [1, 2]
        (os (wsys (demo_cworld (demo_conn KDisconnecting [1, 2]) (kReadEvent OR kWriteEvent) 10)))))"
    unfolding d(1,2) using d(7) [of "demo_conn KDisconnecting [1, 2]" "kReadEvent OR kWriteEvent" 10] by simp
  have "drained (demo_conn KDisconnecting [1, 2]) 2" unfolding drained_def d(2) by simp
  from drained_write_stalls [OF sim_kernel_ok demo_view [OF l] d(5) call this]
  show ?thesis unfolding d(1,2,4,8) by fastforce
qed

text \<open>
  \<^verbatim>\<open>shutdown()\<close> called in the loop thread of a connected connection never cuts off output: it moves to
  \<^verbatim>\<open>kDisconnecting\<close> and ends the stream at once if there is no write interest (then nothing is buffered),
  and otherwise leaves the stream open.
\<close>

lemma shutdown_keeps_output:
  assumes K: "kernel_ok K interest sent" and v: "conn_view interest c t ch el w"
    and st: "conn_state t = KConnected" and th: "isInLoopThread el w"
    and wr: "content (outputBuffer t) \<noteq> [] \<Longrightarrow> isWriting ch"
  shows "\<exists>w' t'. TcpConnection_shutdown K c w = Inr w' \<and> conn_view interest c t' ch el w' \<and>
     conn_state t' = KDisconnecting \<and> outputBuffer t' = outputBuffer t \<and>
     sent (ch_fd ch) (os (wsys w')) = sent (ch_fd ch) (os (wsys w)) @
       (if \<not> isWriting ch \<and> 0 \<le> fst (fst (sys_shutdown_wr K (ch_fd ch) (os (wsys w)))) then [Fin] else []) \<and>
     (Fin \<in> set (drop (length (sent (ch_fd ch) (os (wsys w)))) (sent (ch_fd ch) (os (wsys w')))) \<longrightarrow>
        content (outputBuffer t') = [])"
proof -
  let ?t = "set_conn_state KDisconnecting t" and ?w1 = "put_conn c (set_conn_state KDisconnecting t) w"
  have v1: "conn_view interest c ?t ch el ?w1"
    using v by (intro put_conn_view [OF v]) (auto simp: conn_view_def)
  have "isInLoopThread el ?w1"
    using th by (simp add: isInLoopThread_def tid_of_def cacheTid_def Let_def put_conn_def)
  then have "TcpConnection_shutdown K c w = shutdownInLoop K c ?w1"
    using v st by (simp add: TcpConnection_shutdown_def runInLoop_def conn_view_def)
  with shutdownInLoop_view [OF K v1] wr show ?thesis
    by (intro exI [of _ "projr (shutdownInLoop K c ?w1)"] exI [of _ ?t]) (auto split: if_splits)
qed

lemma shutdown_keeps_output_witness:
  "\<exists>w' t'. TcpConnection_shutdown sim_kernel 0 (demo_cworld (demo_conn KConnected []) kReadEvent 2) = Inr w' \<and>
     conns w' 0 = Some t' \<and> conn_state t' = KDisconnecting \<and> sim_out (os (wsys w')) 5 = [Fin]"
proof -
  let ?w = "demo_cworld (demo_conn KConnected []) kReadEvent 2"
  have l: "length ([] :: byte list) < 100" by simp
  note d = demo_write [OF l] and s = demo_send_ok [OF refl]
  have th: "isInLoopThread demo_cloop ?w"
    by (simp add: isInLoopThread_def tid_of_def cacheTid_def Let_def demo_cworld_def demo_cloop_def demo_loop_def)
  have "sys_shutdown_wr sim_kernel 5 k = ((0, 0), snd (sys_shutdown_wr sim_kernel 5 k))" for k
    by (simp add: sim_kernel_def)
  then have g: "0 \<le> fst (fst (sys_shutdown_wr sim_kernel 5 k))" for k by (metis fst_conv order_refl)
  from shutdown_keeps_output [OF sim_kernel_ok demo_view [OF l] d(9) th] d(2) s(11) g
  show ?thesis unfolding d(1,8) by (fastforce simp: conn_view_def)
qed

text \<open>
  \<^verbatim>\<open>connectionEstablished\<close> on a new or watched channel reaches the connection callback, with the state
  \<^verbatim>\<open>kConnected\<close>, the channel tied to the connection and the kernel watching the descriptor for reading;
  without a connection callback it throws \<^verbatim>\<open>bad_function_call\<close>.
\<close>

lemma connectionEstablished_watches:
  assumes K: "kernel_ok K interest sent" and v: "conn_view interest c t ch el w"
    and reg: "ch_index ch = kNew \<or> ch_events ch \<noteq> 0"
  shows "\<exists>w1 t' ch' el'.
     connectionEstablished K CB c w =
       (case connectionCallback t of Some cb \<Rightarrow> call_connection CB cb c w1 | None \<Rightarrow> Inl Bad_Function_Call) \<and>
     conn_view interest c t' ch' el' w1 \<and> conn_state t' = KConnected \<and> isReading ch' \<and>
     ch_tied ch' \<and> ch_tie ch' = Some c \<and>
     watched interest (conn_channel t) w1 = Some (ch_events ch OR kReadEvent)"
proof -
  let ?ch = "\<lambda>n. set_index n (request EnableReading (tie c ch))"
  obtain w1 n p where w1: "n \<noteq> kNew"
      "connectionEstablished K CB c w = invoke (connectionCallback t) (\<lambda>cb. call_connection CB cb c w1)"
      "conn_view interest c (set_conn_state KConnected t) (?ch n) (el\<lparr>loop_poller := Some p\<rparr>) w1"
    using established_view [OF K v reg] by blast
  have ok: "loop_ok interest (ch_loop (?ch n)) w1" "chans w1 (conn_channel t) = Some (?ch n)"
    using w1(3) by (simp_all add: conn_view_def)
  have "isReading (?ch n)" by simp
  then have "ch_events (?ch n) \<noteq> 0" unfolding isReading_bits by (metis bit_0_eq bot_apply bot_bool_def)
  then have "watched interest (conn_channel t) w1 = Some (ch_events (?ch n))"
    using watched_eq(1) [OF ok] w1(1) by simp
  then show ?thesis using w1
    by (intro exI [of _ w1] exI [of _ "set_conn_state KConnected t"] exI [of _ "?ch n"] exI)
      (auto simp: invoke_def split: option.split)
qed

definition demo_callbacks :: "sim cworld callbacks" where
  "demo_callbacks = \<lparr>call_connection = (\<lambda>_ _. Inr), call_close = (\<lambda>_ _. Inr), call_writeComplete = (\<lambda>_ _. Inr),
     call_message = (\<lambda>_ _ _. Inr), call_highWater = (\<lambda>_ _ _. Inr)\<rparr>"

lemma demo_registered: "ch_index (demo_chan kReadEvent) = kNew \<or> ch_events (demo_chan kReadEvent) \<noteq> 0"
  by (rule demo_send_ok(5) [OF refl])

lemma connectionEstablished_watches_witness:
  "\<exists>w1 t'. connectionEstablished sim_kernel demo_callbacks 0
        (demo_cworld (demo_conn KConnecting []) kReadEvent 2) = Inr w1 \<and>
     conns w1 0 = Some t' \<and> conn_state t' = KConnected \<and> watched sim_watch 1 w1 = Some (kReadEvent OR kReadEvent)"
proof -
  have l: "length ([] :: byte list) < 100" by simp
  have cb: "connectionCallback (demo_conn KConnecting []) = Some 1" "conn_channel (demo_conn KConnecting []) = 1"
      "ch_events (demo_chan kReadEvent) = kReadEvent"
    by (simp_all add: demo_conn_def demo_chan_def)
  from connectionEstablished_watches [OF sim_kernel_ok demo_view [OF l] demo_registered,
      of demo_callbacks KConnecting 2] cb
  show ?thesis by (auto simp: demo_callbacks_def conn_view_def)
qed

text \<open>
  Teardown. \<^verbatim>\<open>handleClose\<close> first makes the connection \<^verbatim>\<open>kDisconnected\<close> with no interest left, and in that
  state calls the connection callback and then the close callback. \<^verbatim>\<open>connectionDestroyed\<close> of a
  connection that is no longer \<^verbatim>\<open>kConnected\<close> returns, and leaves the channel unregistered and its
  descriptor out of the kernel's interest list.
\<close>

lemma close_and_destroy:
  assumes K: "kernel_ok K interest sent" and v: "conn_view interest c t ch el w"
  shows "(\<exists>w1 t1 ch1 el1.
       conn_handleClose K CB c w =
         bind_r (invoke (connectionCallback t) (\<lambda>cb. call_connection CB cb c w1)) (\<lambda>w2.
           with_conn c w2 (\<lambda>t2. invoke (conn_closeCallback t2) (\<lambda>cb. call_close CB cb c w2))) \<and>
       conn_view interest c t1 ch1 el1 w1 \<and> conn_state t1 = KDisconnected \<and> ch_events ch1 = kNoneEvent \<and>
       watched interest (conn_channel t) w1 \<in> {None, Some 0}) \<and>
     (conn_state t \<noteq> KConnected \<longrightarrow>
       (\<exists>w'. connectionDestroyed K CB c w = Inr w' \<and> watched interest (conn_channel t) w' = None \<and>
          loop_hasChannel (conn_loop t) (conn_channel t) w' = Inr False))"
proof (intro conjI impI)
  have t: "conns w c = Some t" using v by (simp add: conn_view_def)
  let ?t = "set_conn_state KDisconnected t"
  obtain w1 n p where w1: "n \<noteq> kNew"
      "Channel_request K DisableAll (conn_channel t) (put_conn c ?t w) = Inr w1"
      "conn_view interest c ?t (set_index n (request DisableAll ch)) (el\<lparr>loop_poller := Some p\<rparr>) w1"
    using disable_view [OF K v] by blast
  have ok: "loop_ok interest (ch_loop (set_index n (request DisableAll ch))) w1" "conns w1 c = Some ?t"
      "chans w1 (conn_channel t) = Some (set_index n (request DisableAll ch))"
    using w1(3) by (simp_all add: conn_view_def)
  have "watched interest (conn_channel t) w1 \<in> {None, Some 0}"
    using watched_eq(3) [OF ok(1,3)] by (simp add: kNoneEvent_def)
  moreover have "conn_handleClose K CB c w =
      bind_r (invoke (connectionCallback t) (\<lambda>cb. call_connection CB cb c w1)) (\<lambda>w2.
        with_conn c w2 (\<lambda>t2. invoke (conn_closeCallback t2) (\<lambda>cb. call_close CB cb c w2)))"
    using t w1(2) ok(2) by (simp add: conn_handleClose_def)
  ultimately show "\<exists>w1 t1 ch1 el1.
       conn_handleClose K CB c w =
         bind_r (invoke (connectionCallback t) (\<lambda>cb. call_connection CB cb c w1)) (\<lambda>w2.
           with_conn c w2 (\<lambda>t2. invoke (conn_closeCallback t2) (\<lambda>cb. call_close CB cb c w2))) \<and>
       conn_view interest c t1 ch1 el1 w1 \<and> conn_state t1 = KDisconnected \<and> ch_events ch1 = kNoneEvent \<and>
       watched interest (conn_channel t) w1 \<in> {None, Some 0}"
    using w1(3) by (intro exI [of _ w1] exI [of _ ?t] exI) (intro conjI, assumption+, simp_all)
  assume "conn_state t \<noteq> KConnected"
  then show "\<exists>w'. connectionDestroyed K CB c w = Inr w' \<and> watched interest (conn_channel t) w' = None \<and>
          loop_hasChannel (conn_loop t) (conn_channel t) w' = Inr False"
    using remove_view [OF K v] t by (simp add: connectionDestroyed_def) blast
qed

lemma close_and_destroy_witness:
  "\<exists>w'. connectionDestroyed sim_kernel demo_callbacks 0
        (demo_cworld (demo_conn KDisconnected []) kReadEvent 2) = Inr w' \<and> watched sim_watch 1 w' = None"
proof -
  have l: "length ([] :: byte list) < 100" by simp
  have "conn_state (demo_conn KDisconnected []) \<noteq> KConnected" "conn_channel (demo_conn KDisconnected []) = 1"
    by (simp_all add: demo_conn_def)
  with close_and_destroy [OF sim_kernel_ok demo_view [OF l], of demo_callbacks KDisconnected kReadEvent 2]
  show ?thesis by auto
qed

text \<open>
  C37. \<^verbatim>\<open>send\<close> from another thread only keeps the address of the caller's string: the call returns with the
  functor queued, and if the string no longer exists when the loop runs that functor on a connection
  that is still up, the message is read through a dangling pointer.
\<close>

theorem cross_thread_send_dangles:
  assumes t: "conns w c = Some t" "conn_state t = KConnected" and el: "loops w (conn_loop t) = Some el"
    and th: "\<not> isInLoopThread el w" and s: "strings w s = Some bs" "bs \<noteq> []" "length bs < 2 ^ 62"
    and K: "kernel_ok K interest sent" and later: "conn_view interest c t' ch' el' v"
      "conn_state t' \<noteq> KDisconnected" "strings v s = None"
  shows "(\<exists>w'. TcpConnection_send K c s w = Inr w' \<and>
       map_option pendingFunctors (loops w' (conn_loop t)) =
         Some (pendingFunctors el @ [SendInLoop c s (of_nat (length bs))])) \<and>
     sendInLoop K c s (of_nat (length bs)) v = Inl Null_Deref"
proof
  have "TcpConnection_send K c s w = queueInLoop K (conn_loop t) (SendInLoop c s (of_nat (length bs))) w"
    using t el th s by (simp add: TcpConnection_send_def runInLoop_def string_size_def)
  with queueInLoop_ok [OF el, of K "SendInLoop c s (of_nat (length bs))"]
  show "\<exists>w'. TcpConnection_send K c s w = Inr w' \<and>
       map_option pendingFunctors (loops w' (conn_loop t)) =
         Some (pendingFunctors el @ [SendInLoop c s (of_nat (length bs))])"
    by auto
  let ?L = "of_nat (length bs) :: size_t"
  have sL: "sint ?L = int (length bs)" using s(3) by (simp add: sint_of_nat_size)
  have t': "conns v c = Some t'" "chans v (conn_channel t') = Some ch'" using later(1) by (simp_all add: conn_view_def)
  have direct: "string_range s 0 (unat ?L) v = Inl Null_Deref" using later(3) by (simp add: string_range_def)
  obtain v1 where "notify_high_water K c t' (int (length bs)) v = Inr v1" "strings v1 = strings v"
    using notify_high_water_view [OF K later(1) s(3)] by blast
  then have "buffer_rest K c s 0 (int (length bs)) False v = Inl Null_Deref"
    using t' later(3) s(2) by (simp add: buffer_rest_def string_range_def)
  then show "sendInLoop K c s ?L v = Inl Null_Deref"
    using t' later(2) direct sL by (simp add: sendInLoop_def)
qed

theorem cross_thread_send_dangles_witness:
  "(\<exists>w'. TcpConnection_send sim_kernel 0 0 ((demo_cworld (demo_conn KConnected []) kReadEvent 2)\<lparr>cur_thread := 8\<rparr>) = Inr w' \<and>
       map_option pendingFunctors (loops w' 0) = Some [SendInLoop 0 0 3]) \<and>
     sendInLoop sim_kernel 0 0 3 ((demo_cworld (demo_conn KConnected []) kReadEvent 2)\<lparr>strings := (\<lambda>_. None)\<rparr>) =
       Inl Null_Deref"
proof -
  let ?t = "demo_conn KConnected []"
  let ?w = "demo_cworld ?t kReadEvent 2"
  let ?w8 = "?w\<lparr>cur_thread := 8\<rparr>" and ?v = "?w\<lparr>strings := (\<lambda>_. None)\<rparr>"
  have l: "length ([] :: byte list) < 100" by simp
  have w: "conns ?w8 0 = Some ?t" "conn_state ?t = KConnected" "loops ?w8 (conn_loop ?t) = Some demo_cloop"
      "\<not> isInLoopThread demo_cloop ?w8" "strings ?w8 0 = Some [1, 2, 3]" "strings ?v 0 = None"
      "pendingFunctors demo_cloop = []" "conn_loop ?t = 0"
    by (simp_all add: demo_cworld_def demo_conn_def isInLoopThread_def tid_of_def cacheTid_def Let_def
        demo_cloop_def demo_loop_def)
  have "conn_view sim_watch 0 ?t (demo_chan kReadEvent) demo_cloop ?v"
    using demo_view [OF l] by (rule strings_view)
  from cross_thread_send_dangles [OF w(1-5) _ _ sim_kernel_ok this _ w(6)] w(2,7,8)
  show ?thesis by simp
qed

definition input_iov :: "tcp_connection \<Rightarrow> nat list" where
  "input_iov t = (let writable = unat (writableBytes (inputBuffer t))
     in if writable < extrabuf_size then [writable, extrabuf_size] else [writable])"

lemma handleRead_view:
  assumes K: "kernel_ok K interest sent" "readv_contract K" and v: "conn_view interest c t ch el w"
    and front: "readerIndex (inputBuffer t) = KCheapPrend"
    and len: "length (buf_data (inputBuffer t)) + length bs < 2 ^ 62"
    and call: "sys_readv K (ch_fd ch) (input_iov t) (os (wsys w)) = ((n, e, bs), k')"
  shows "\<exists>w1 b. w1 = put_conn c (t\<lparr>inputBuffer := b\<rparr>) (put_sys ((wsys w)\<lparr>os := k'\<rparr>) w) \<and>
     conn_view interest c (t\<lparr>inputBuffer := b\<rparr>) ch el w1 \<and>
     content b = content (inputBuffer t) @ (if 0 < n then bs else []) \<and>
     conn_handleRead K CB tm c w =
       (if 0 < n then invoke (messageCallback t) (\<lambda>cb. call_message CB cb c tm w1)
        else if n = 0 then conn_handleClose K CB c w1
        else conn_handleError K c (log_err ''TcpConnection::handleRead'' w1))"
proof -
  have ok: "buffer_ok (inputBuffer t)" "buffer_ok (outputBuffer t)"
    and t: "conns w c = Some t" "chans w (conn_channel t) = Some ch"
    using v by (simp_all add: conn_view_def)
  have v1: "conn_view interest c t ch el (put_sys ((wsys w)\<lparr>os := k'\<rparr>) w)"
    using epoll_frameD(2) [OF kernel_okD(3) [OF K(1)], of _ "ch_fd ch" "input_iov t" "os (wsys w)"] call
    by (intro put_sys_view [OF v]) simp
  have call': "sys_readv K (ch_fd ch)
      (if unat (writableBytes (inputBuffer t)) < extrabuf_size
       then [unat (writableBytes (inputBuffer t)), extrabuf_size] else [unat (writableBytes (inputBuffer t))])
      (os (wsys w)) = ((n, e, bs), k')"
    using call by (simp add: input_iov_def Let_def)
  have "\<exists>b se. readFd K (ch_fd ch) (inputBuffer t) (os (wsys w)) = Inr ((n, se, b), k') \<and> buffer_ok b \<and>
      content b = content (inputBuffer t) @ (if 0 < n then bs else [])"
  proof (cases "0 \<le> n")
    case True
    then have "bs = []" if "n = 0" using readv_contractD [OF K(2) call] that by simp
    with readFd_at_front [OF K(2) ok(1) front len call' True] True show ?thesis by fastforce
  next
    case False
    with readFd_fail [OF call'] ok(1) show ?thesis by auto
  qed
  then obtain b se where b: "readFd K (ch_fd ch) (inputBuffer t) (os (wsys w)) = Inr ((n, se, b), k')"
      "buffer_ok b" "content b = content (inputBuffer t) @ (if 0 < n then bs else [])" by blast
  let ?w1 = "put_conn c (t\<lparr>inputBuffer := b\<rparr>) (put_sys ((wsys w)\<lparr>os := k'\<rparr>) w)"
  have "conn_view interest c (t\<lparr>inputBuffer := b\<rparr>) ch el ?w1"
    using ok b(2) v by (intro put_conn_view [OF v1]) (auto simp: conn_view_def)
  with b t show ?thesis by (intro exI [of _ ?w1] exI [of _ b]) (simp add: conn_handleRead_def Let_def)
qed

text \<open>
  C26. \<^verbatim>\<open>handleRead\<close> on a connection whose input buffer has its \<^verbatim>\<open>readerIndex_\<close> at \<^verbatim>\<open>kCheapPrepend\<close>, as a message callback
  leaves it that retrieves all (elsewhere the append may compact) and stays below 2 to the 62 bytes: bytes that arrive are appended to the input
  buffer, exactly and in order, before the message callback runs; end of file runs \<^verbatim>\<open>handleClose\<close>; an
  error is logged and handed to \<^verbatim>\<open>handleError\<close>.
\<close>

theorem handleRead_delivers:
  assumes K: "kernel_ok K interest sent" "readv_contract K" and v: "conn_view interest c t ch el w"
    and front: "readerIndex (inputBuffer t) = KCheapPrend"
    and len: "length (buf_data (inputBuffer t)) + length bs < 2 ^ 62"
    and call: "sys_readv K (ch_fd ch) (input_iov t) (os (wsys w)) = ((n, e, bs), k')"
  shows "\<exists>w1 b. conn_view interest c (t\<lparr>inputBuffer := b\<rparr>) ch el w1 \<and>
     content b = content (inputBuffer t) @ (if 0 < n then bs else []) \<and>
     conn_handleRead K CB tm c w =
       (if 0 < n then invoke (messageCallback t) (\<lambda>cb. call_message CB cb c tm w1)
        else if n = 0 then conn_handleClose K CB c w1
        else conn_handleError K c (log_err ''TcpConnection::handleRead'' w1))"
  using handleRead_view [OF assms] by blast

theorem handleRead_delivers_witness:
  "\<exists>w1 b. conn_handleRead sim_kernel (demo_callbacks\<lparr>call_message := (\<lambda>_ _ _. Inr)\<rparr>) Timestamp_zero 0
        (demo_cworld (demo_conn KConnected []) kReadEvent 2) = Inr w1 \<and>
     conns w1 0 = Some ((demo_conn KConnected [])\<lparr>inputBuffer := b\<rparr>) \<and> content b = [7]"
proof -
  let ?t = "demo_conn KConnected []"
  let ?w = "demo_cworld ?t kReadEvent 2"
  have l: "length ([] :: byte list) < 100" by simp
  have t: "inputBuffer ?t = demo_buffer []" "messageCallback ?t = Some 2" by (simp_all add: demo_conn_def)
  have front: "readerIndex (inputBuffer ?t) = KCheapPrend" "content (inputBuffer ?t) = []"
      "length (buf_data (inputBuffer ?t)) + length [7 :: byte] < 2 ^ 62"
    unfolding t by simp_all
  have in7: "sim_in (os (wsys ?w)) = [7]" by (simp add: demo_cworld_def)
  have "length (sim_in (os (wsys ?w))) \<le> sum_list (input_iov ?t)"
    unfolding in7 by (simp add: input_iov_def Let_def extrabuf_size_def)
  from sim_readv_all [OF this, of 5]
  have call: "sys_readv sim_kernel (ch_fd (demo_chan kReadEvent)) (input_iov ?t) (os (wsys ?w)) =
      ((1, 0, [7]), (os (wsys ?w))\<lparr>sim_in := []\<rparr>)"
    unfolding demo_write(1) [OF l] in7 by simp
  from handleRead_delivers [OF sim_kernel_ok sim_readv_contract demo_view [OF l] front(1,3) call,
      of "demo_callbacks\<lparr>call_message := (\<lambda>_ _ _. Inr)\<rparr>" Timestamp_zero] front(2) t(2)
  show ?thesis by (auto simp: invoke_def conn_view_def)
qed

end
