(* ===== verification/ConnectionStream.thy ===== *)
theory ConnectionStream
  imports TcpConnection Transition
begin

text \<open>
  A connection over its whole life as a sender, in the thread of its loop: any sequence of \<^verbatim>\<open>send()\<close> calls,
  \<^verbatim>\<open>shutdown()\<close> calls and writable events. The specification is a byte stream that accepts messages
  while it is open; the simulation shows that the connection delivers that stream.
\<close>

section \<open>The specification\<close>

datatype conn_event = Send "byte list" | Writable | Shutdown

text \<open>Everything accepted so far, and whether the stream still accepts.\<close>

type_synonym byte_stream = "byte list \<times> bool"

fun stream_step :: "conn_event \<Rightarrow> byte_stream \<Rightarrow> byte_stream" where
  "stream_step (Send bs) (acc, True) = (acc @ bs, True)"
| "stream_step (Send bs) (acc, False) = (acc, False)"
| "stream_step Writable a = a"
| "stream_step Shutdown (acc, _) = (acc, False)"

section \<open>The connection\<close>

text \<open>The caller's message is a string object that lives until \<^verbatim>\<open>send\<close> returns.\<close>

definition send_message :: "'k kernel \<Rightarrow> str_id \<Rightarrow> conn_id \<Rightarrow> byte list \<Rightarrow>
    ('k, 'm) cworld_scheme \<Rightarrow> ('k, 'm) cworld_scheme res" where
  "send_message K s c bs w =
     bind_r (TcpConnection_send K c s (w\<lparr>strings := (strings w)(s \<mapsto> bs)\<rparr>)) (\<lambda>w'.
       Inr (w'\<lparr>strings := (strings w')(s := None)\<rparr>))"

fun conn_step :: "'k kernel \<Rightarrow> str_id \<Rightarrow> conn_id \<Rightarrow> conn_event \<Rightarrow>
    ('k, 'm) cworld_scheme \<Rightarrow> ('k, 'm) cworld_scheme res" where
  "conn_step K s c (Send bs) w = send_message K s c bs w"
| "conn_step K s c Writable w = conn_handleWrite K c w"
| "conn_step K s c Shutdown w = TcpConnection_shutdown K c w"

text \<open>
  What a send on an open connection needs: the message fits the output buffer without compaction, and
  the write does not show that the peer is gone; and what a writable event needs: its write does not raise
  \<^verbatim>\<open>SIGPIPE\<close>.
\<close>

fun event_ok :: "'k kernel \<Rightarrow> conn_id \<Rightarrow> conn_event \<Rightarrow> ('k, 'm) cworld_scheme \<Rightarrow> bool" where
  "event_ok K c (Send bs) w \<longleftrightarrow>
     (case conns w c of
        Some t \<Rightarrow> conn_state t = KConnected \<longrightarrow>
          length bs + length (buf_data (outputBuffer t)) < 2 ^ 62 \<and> appendable (length bs) (outputBuffer t) \<and>
          (case chans w (conn_channel t) of
             Some ch \<Rightarrow> \<not> send_faults K ch t bs (os (wsys w)) | None \<Rightarrow> False)
      | None \<Rightarrow> False)"
| "event_ok K c Writable w \<longleftrightarrow>
     (case conns w c of
        Some t \<Rightarrow> (case chans w (conn_channel t) of
             Some ch \<Rightarrow> isWriting ch \<longrightarrow>
               (case fst (sys_write K (ch_fd ch) (content (outputBuffer t)) (os (wsys w))) of (n, e) \<Rightarrow> \<not> broken_pipe K n e)
           | None \<Rightarrow> False)
      | None \<Rightarrow> False)"
| "event_ok K c Shutdown w \<longleftrightarrow> True"

section \<open>The simulation\<close>

text \<open>
  The bytes added to the stream of the descriptor since the start, followed by the output buffer, are the
  bytes accepted; what is buffered has write interest; an end of stream was added only after the last
  byte, and only when the stream no longer accepts.
\<close>

definition conn_sim_at :: "(fd \<Rightarrow> 'k \<Rightarrow> interest_list) \<Rightarrow> (fd \<Rightarrow> 'k \<Rightarrow> stream_item list) \<Rightarrow> conn_id \<Rightarrow> fd \<Rightarrow>
    stream_item list \<Rightarrow> byte_stream \<Rightarrow> ('k, 'm) cworld_scheme \<Rightarrow> tcp_connection \<Rightarrow> channel \<Rightarrow> event_loop \<Rightarrow>
    byte list \<Rightarrow> stream_item list \<Rightarrow> bool" where
  "conn_sim_at interest sent c f start a w t ch el out fin \<longleftrightarrow>
     conn_view interest c t ch el w \<and> ch_fd ch = f \<and> isInLoopThread el w \<and>
     conn_state t = (if snd a then KConnected else KDisconnecting) \<and> (isReading ch \<or> isWriting ch) \<and>
     sent f (os (wsys w)) = start @ map Byte out @ fin \<and> out @ content (outputBuffer t) = fst a \<and>
     (content (outputBuffer t) \<noteq> [] \<longrightarrow> isWriting ch) \<and>
     (fin = [] \<or> fin = [Fin] \<and> content (outputBuffer t) = [] \<and> \<not> snd a \<and> \<not> isWriting ch)"

definition conn_sim :: "(fd \<Rightarrow> 'k \<Rightarrow> interest_list) \<Rightarrow> (fd \<Rightarrow> 'k \<Rightarrow> stream_item list) \<Rightarrow> conn_id \<Rightarrow> fd \<Rightarrow>
    stream_item list \<Rightarrow> byte_stream \<Rightarrow> ('k, 'm) cworld_scheme \<Rightarrow> bool" where
  "conn_sim interest sent c f start a w \<longleftrightarrow>
     (\<exists>t ch el out fin. conn_sim_at interest sent c f start a w t ch el out fin)"

lemma conn_sim_atD:
  assumes "conn_sim_at interest sent c f start (acc, op) w t ch el out fin"
  shows "conn_view interest c t ch el w" "ch_fd ch = f" "isInLoopThread el w"
    "conn_state t = (if op then KConnected else KDisconnecting)" "isReading ch \<or> isWriting ch"
    "sent f (os (wsys w)) = start @ map Byte out @ fin" "out @ content (outputBuffer t) = acc"
    "content (outputBuffer t) \<noteq> [] \<longrightarrow> isWriting ch"
    "fin = [] \<or> fin = [Fin] \<and> content (outputBuffer t) = [] \<and> \<not> op \<and> \<not> isWriting ch"
  using assms unfolding conn_sim_at_def fst_conv snd_conv by blast+

lemma conn_sim_atI:
  assumes "conn_view interest c t ch el w" "ch_fd ch = f" "isInLoopThread el w"
    "conn_state t = (if op then KConnected else KDisconnecting)" "isReading ch \<or> isWriting ch"
    "sent f (os (wsys w)) = start @ map Byte out @ fin" "out @ content (outputBuffer t) = acc"
    "content (outputBuffer t) \<noteq> [] \<longrightarrow> isWriting ch"
    "fin = [] \<or> fin = [Fin] \<and> content (outputBuffer t) = [] \<and> \<not> op \<and> \<not> isWriting ch"
  shows "conn_sim interest sent c f start (acc, op) w"
  using assms unfolding conn_sim_def conn_sim_at_def fst_conv snd_conv by blast

lemma interest_nonzero: "isReading ch \<or> isWriting ch \<Longrightarrow> ch_events ch \<noteq> 0"
  by (auto simp: isReading_def isWriting_def)

lemma send_closed:
  assumes "conns w c = Some t" and "conn_state t \<noteq> KConnected"
  shows "send_message K s c bs w = Inr (w\<lparr>strings := (strings w)(s := None)\<rparr>)"
  using assms by (simp add: send_message_def TcpConnection_send_def)

lemma send_sim:
  assumes K: "kernel_ok K interest sent" and R: "conn_sim interest sent c f start (acc, op) w"
    and ok: "event_ok K c (Send bs) w"
  shows "\<exists>w'. send_message K s c bs w = Inr w' \<and>
     conn_sim interest sent c f start (stream_step (Send bs) (acc, op)) w'"
proof -
  from R obtain t ch el out fin where at: "conn_sim_at interest sent c f start (acc, op) w t ch el out fin"
    unfolding conn_sim_def by blast
  note d = conn_sim_atD [OF at]
  note v = d(1) and f = d(2) and th = d(3) and st = d(4) and rw = d(5) and so = d(6) and acc = d(7)
    and wr = d(8) and fin = d(9)
  have t: "conns w c = Some t" "chans w (conn_channel t) = Some ch" "loops w (conn_loop t) = Some el"
    using v by (simp_all add: conn_view_def)
  show ?thesis
  proof (cases op)
    case False
    let ?w' = "w\<lparr>strings := (strings w)(s := None)\<rparr>"
    have "conn_sim interest sent c f start (acc, op) ?w'"
      using strings_view [OF v] f th st rw so acc wr fin by (intro conn_sim_atI [of _ _ t ch el _ _ _ _ _ out fin]) simp_all
    then show ?thesis using send_closed [OF t(1), of K s bs] st False by auto
  next
    case True
    let ?w1 = "w\<lparr>strings := (strings w)(s \<mapsto> bs)\<rparr>"
    have v1: "conn_view interest c t ch el ?w1" by (rule strings_view [OF v])
    have pre: "conn_state t \<noteq> KDisconnected" "strings ?w1 s = Some bs"
        "length bs + length (buf_data (outputBuffer t)) < 2 ^ 62" "appendable (length bs) (outputBuffer t)"
        "\<not> send_faults K ch t bs (os (wsys ?w1))" "ch_index ch = kNew \<or> ch_events ch \<noteq> 0"
      using st True ok t interest_nonzero [OF rw] by auto
    have os1: "os (wsys ?w1) = os (wsys w)" by simp
    let ?n = "accepted K ch t bs (os (wsys w))"
    obtain w2 b ch2 el2 where w2: "sendInLoop K c s (of_nat (length bs)) ?w1 = Inr w2"
        "conn_view interest c (t\<lparr>outputBuffer := b\<rparr>) ch2 el2 w2"
        "sent (ch_fd ch) (os (wsys w2)) = sent (ch_fd ch) (os (wsys w)) @ map Byte (take ?n bs)"
        "content b = content (outputBuffer t) @ drop ?n bs" "content b \<noteq> [] \<longrightarrow> isWriting ch2"
        "isReading ch2 = isReading ch" "isInLoopThread el2 w2 = isInLoopThread el ?w1"
        "isWriting ch2 = (isWriting ch \<or> ?n < length bs)"
      using sendInLoop_view [OF K v1 pre(1-4,6) _ pre(5)] wr unfolding os1 by blast
    have n0: "?n = 0" if "content (outputBuffer t) \<noteq> []"
      using that by (simp add: accepted_def direct_write_def)
    have send: "TcpConnection_send K c s ?w1 = Inr w2"
      using v1 st True th w2(1) by (simp add: TcpConnection_send_def conn_view_def string_size_def)
    let ?w3 = "w2\<lparr>strings := (strings w2)(s := None)\<rparr>"
    have fd2: "ch_fd ch2 = f" using w2(2) v f by (simp add: conn_view_def)
    have nofin: "fin = []" using fin True by simp
    have "sent f (os (wsys ?w3)) = start @ map Byte (out @ take ?n bs) @ []"
      using w2(3) so f nofin by simp
    moreover have "(out @ take ?n bs) @ content b = acc @ bs"
      using w2(4) acc n0 by (cases "content (outputBuffer t) = []") auto
    ultimately have "conn_sim interest sent c f start (acc @ bs, True) ?w3"
      using strings_view [OF w2(2)] fd2 w2(5-8) th st True rw
      by (intro conn_sim_atI [of _ _ "t\<lparr>outputBuffer := b\<rparr>" ch2 el2 _ _ _ _ _ "out @ take ?n bs" "[]"]) auto
    then show ?thesis using send True by (simp add: send_message_def)
  qed
qed

lemma writable_sim:
  assumes K: "kernel_ok K interest sent" and R: "conn_sim interest sent c f start (acc, op) w"
    and ok: "event_ok K c Writable w"
  shows "\<exists>w'. conn_handleWrite K c w = Inr w' \<and> conn_sim interest sent c f start (acc, op) w'"
proof -
  from R obtain t ch el out fin where at: "conn_sim_at interest sent c f start (acc, op) w t ch el out fin"
    unfolding conn_sim_def by blast
  note d = conn_sim_atD [OF at]
  show ?thesis
  proof (cases "isWriting ch")
    case False
    let ?w' = "log_err ''TcpConnection::handleWrite fd = %d is down, no more writing'' w"
    have "conn_handleWrite K c w = Inr ?w'" using d(1) False by (simp add: conn_handleWrite_def conn_view_def)
    moreover have "conn_sim interest sent c f start (acc, op) ?w'"
      using log_err_view [OF d(1)] d by (intro conn_sim_atI [of _ _ t ch el _ _ _ _ _ out fin]) simp_all
    ultimately show ?thesis by blast
  next
    case True
    obtain n e k' where call: "sys_write K (ch_fd ch) (content (outputBuffer t)) (os (wsys w)) = ((n, e), k')"
      by (metis prod.exhaust)
    have alive: "\<not> broken_pipe K n e" using ok d(1) True call by (simp add: conn_view_def)
    obtain w' b ch' el' where w': "conn_handleWrite K c w = Inr w'"
        "conn_view interest c (t\<lparr>outputBuffer := b\<rparr>) ch' el' w'"
        "sent (ch_fd ch) (os (wsys w')) =
           sent (ch_fd ch) (os (wsys w)) @ map Byte (take (nat n) (content (outputBuffer t)))"
        "content b = drop (nat n) (content (outputBuffer t))" "isWriting ch'"
        "isInLoopThread el' w' = isInLoopThread el w"
      using handleWrite_view [OF K d(1) True call alive] by blast
    have fd: "ch_fd ch' = f" using w'(2) d(1,2) by (simp add: conn_view_def)
    have nofin: "fin = []" using d(9) True by blast
    let ?out = "out @ take (nat n) (content (outputBuffer t))"
    have "conn_sim interest sent c f start (acc, op) w'"
    proof (rule conn_sim_atI [OF w'(2) fd])
      show "sent f (os (wsys w')) = start @ map Byte ?out @ []" using w'(3) d(2,6) nofin by simp
      show "?out @ content (outputBuffer (t\<lparr>outputBuffer := b\<rparr>)) = acc" using w'(4) d(7) by simp
    qed (use w'(5,6) d(3,4) in auto)
    with w'(1) show ?thesis by blast
  qed
qed

lemma shutdown_sim:
  assumes K: "kernel_ok K interest sent" and R: "conn_sim interest sent c f start (acc, op) w"
  shows "\<exists>w'. TcpConnection_shutdown K c w = Inr w' \<and> conn_sim interest sent c f start (acc, False) w'"
proof -
  from R obtain t ch el out fin where at: "conn_sim_at interest sent c f start (acc, op) w t ch el out fin"
    unfolding conn_sim_def by blast
  note d = conn_sim_atD [OF at]
  show ?thesis
  proof (cases op)
    case False
    then have "TcpConnection_shutdown K c w = Inr w"
      using d(1,4) by (simp add: TcpConnection_shutdown_def conn_view_def)
    then show ?thesis using R False by simp
  next
    case True
    let ?t = "set_conn_state KDisconnecting t"
    have v1: "conn_view interest c ?t ch el (put_conn c ?t w)"
      using d(1) by (intro put_conn_view [OF d(1)]) (auto simp: conn_view_def)
    obtain w' where w': "shutdownInLoop K c (put_conn c ?t w) = Inr w'" "conn_view interest c ?t ch el w'"
        "sent (ch_fd ch) (os (wsys w')) = sent (ch_fd ch) (os (wsys (put_conn c ?t w))) @
           (if \<not> isWriting ch \<and> 0 \<le> fst (fst (sys_shutdown_wr K (ch_fd ch) (os (wsys (put_conn c ?t w)))))
            then [Fin] else [])" "isInLoopThread el w' = isInLoopThread el (put_conn c ?t w)"
      using shutdownInLoop_view [OF K v1] by blast
    let ?fin = "if \<not> isWriting ch \<and> 0 \<le> fst (fst (sys_shutdown_wr K f (os (wsys w)))) then [Fin] else []"
    have "TcpConnection_shutdown K c w = Inr w'"
      using d(1,3,4) True w'(1) by (simp add: TcpConnection_shutdown_def runInLoop_def conn_view_def)
    moreover have "conn_sim interest sent c f start (acc, False) w'"
    proof (rule conn_sim_atI [OF w'(2) d(2)])
      show "sent f (os (wsys w')) = start @ map Byte out @ ?fin" using w'(3) d(2,6,9) True by simp
      show "out @ content (outputBuffer ?t) = acc" using d(7) by simp
    qed (use w'(4) d(3,5,8) in auto)
    ultimately show ?thesis by blast
  qed
qed

interpretation cs: op_simulation "event_ok K c" "conn_step K s c" stream_step
  "\<lambda>a w. kernel_ok K interest sent \<and> conn_sim interest sent c f start a w" for K interest sent s c f start
proof
  fix a w e
  assume R: "kernel_ok K interest sent \<and> conn_sim interest sent c f start a w" and ok: "event_ok K c e w"
  obtain acc op where a: "a = (acc, op)" by fastforce
  show "\<exists>w'. conn_step K s c e w = Inr w' \<and>
      kernel_ok K interest sent \<and> conn_sim interest sent c f start (stream_step e a) w'"
  proof (cases e)
    case (Send bs)
    then show ?thesis using send_sim [of K interest sent c f start acc op w bs s] R ok a by auto
  next
    case Writable
    then show ?thesis using writable_sim [of K interest sent c f start acc op w] R ok a by auto
  next
    case Shutdown
    then show ?thesis using shutdown_sim R a by fastforce
  qed
qed

section \<open>Property\<close>

text \<open>
  C3. A connection is a byte stream as long as its peer is there and its buffer need not compact: from an open
  connection, watched for reading, with nothing buffered and no end of stream sent, on a kernel that refuses no epoll_ctl, every
  sequence of \<^verbatim>\<open>send()\<close>, \<^verbatim>\<open>shutdown()\<close> and writable events in the loop's thread, in which each message fits the output
  buffer without compaction, no direct write of \<^verbatim>\<open>send()\<close> fails with \<^verbatim>\<open>EPIPE\<close> or \<^verbatim>\<open>ECONNRESET\<close> (\<^verbatim>\<open>sendInLoop\<close> drops the
  message then) and no writable event raises \<^verbatim>\<open>SIGPIPE\<close>, runs to the end; the bytes the
  peer gets followed by the bytes still buffered are the messages sent before the first \<^verbatim>\<open>shutdown()\<close>, in
  order, and an end of stream comes at most once, behind all of them.
\<close>

theorem connection_stream:
  assumes K: "kernel_ok K interest sent" and v: "conn_view interest c t ch el w" and th: "isInLoopThread el w"
    and st: "conn_state t = KConnected" and idle: "content (outputBuffer t) = []" and rd: "isReading ch"
    and fits: "run_fits (event_ok K c) (conn_step K s c) es w"
  shows "\<exists>w' t' out fin. fold_r (conn_step K s c) es w = Inr w' \<and> conns w' c = Some t' \<and>
     sent (ch_fd ch) (os (wsys w')) = sent (ch_fd ch) (os (wsys w)) @ map Byte out @ fin \<and>
     out @ content (outputBuffer t') = fst (fold stream_step es ([], True)) \<and>
     (fin = [] \<or> fin = [Fin] \<and> content (outputBuffer t') = [] \<and> \<not> snd (fold stream_step es ([], True)))"
proof -
  have "conn_sim interest sent c (ch_fd ch) (sent (ch_fd ch) (os (wsys w))) ([], True) w"
    by (rule conn_sim_atI [OF v refl th, of _ _ _ _ "[]" "[]"]) (use st idle rd in auto)
  with K cs.sim_run [OF _ fits] obtain w' where w': "fold_r (conn_step K s c) es w = Inr w'"
      "conn_sim interest sent c (ch_fd ch) (sent (ch_fd ch) (os (wsys w))) (fold stream_step es ([], True)) w'"
    by blast
  obtain acc op where a: "fold stream_step es ([], True) = (acc, op)" by fastforce
  from w'(2) obtain t' ch' el' out fin where
    at: "conn_sim_at interest sent c (ch_fd ch) (sent (ch_fd ch) (os (wsys w))) (acc, op) w' t' ch' el' out fin"
    unfolding conn_sim_def a by blast
  note d = conn_sim_atD [OF at]
  have "conns w' c = Some t'" using d(1) by (simp add: conn_view_def)
  then show ?thesis using w'(1) d(6,7,9) unfolding a fst_conv snd_conv by blast
qed

lemma demo_stream_send:
  "\<exists>w'. conn_step sim_kernel 1 0 (Send [1, 2, 3]) (demo_cworld (demo_conn KConnected []) kReadEvent 2) = Inr w' \<and>
     conns w' 0 \<noteq> None \<and> (\<forall>t. conns w' 0 = Some t \<longrightarrow> chans w' (conn_channel t) \<noteq> None)"
proof -
  let ?w = "demo_cworld (demo_conn KConnected []) kReadEvent 2"
  have l: "length ([] :: byte list) < 100" by simp
  note d = demo_send_ok [OF refl] and e = demo_write [OF l]
  have at: "conn_sim sim_watch (\<lambda>f k. sim_out k f) 0 5 (sim_out (os (wsys ?w)) 5) ([], True) ?w"
    by (rule conn_sim_atI [OF demo_view [OF l], where out = "[]" and fin = "[]"])
      (use e(1) d(6) in \<open>simp_all add: isInLoopThread_def tid_of_def cacheTid_def Let_def demo_cworld_def demo_cloop_def demo_loop_def
        demo_chan_def isReading_def event_defs demo_conn_def\<close>)
  have "conns ?w 0 = Some (demo_conn KConnected [])" "chans ?w (conn_channel (demo_conn KConnected [])) = Some (demo_chan kReadEvent)"
    by (simp_all add: demo_cworld_def demo_conn_def)
  with d(3,4,7) have "event_ok sim_kernel 0 (Send [1, 2, 3]) ?w" by simp
  from send_sim [OF sim_kernel_ok at this, of 1] show ?thesis
    by (auto simp: conn_sim_def conn_sim_at_def conn_view_def)
qed

lemma demo_stream_fits:
  "run_fits (event_ok sim_kernel 0) (conn_step sim_kernel 1 0) [Send [1, 2, 3], Writable, Shutdown]
     (demo_cworld (demo_conn KConnected []) kReadEvent 2)"
proof -
  let ?w = "demo_cworld (demo_conn KConnected []) kReadEvent 2"
  note d = demo_send_ok [OF refl]
  have "conns ?w 0 = Some (demo_conn KConnected [])" "chans ?w (conn_channel (demo_conn KConnected [])) = Some (demo_chan kReadEvent)"
    by (simp_all add: demo_cworld_def demo_conn_def)
  with d(3,4,7) have send: "event_ok sim_kernel 0 (Send [1, 2, 3]) ?w" by simp
  obtain w' where w': "conn_step sim_kernel 1 0 (Send [1, 2, 3]) ?w = Inr w'" "conns w' 0 \<noteq> None"
      "\<And>t. conns w' 0 = Some t \<Longrightarrow> chans w' (conn_channel t) \<noteq> None"
    using demo_stream_send by blast
  then have "event_ok sim_kernel 0 Writable w'"
    by (auto split: prod.split dest!: sim_no_broken_pipe [where K = sim_kernel])
  with send w'(1) show ?thesis by (simp del: event_ok.simps(1,2) conn_step.simps split: sum.split)
qed

theorem connection_stream_witness:
  "\<exists>w' t' out fin. fold_r (conn_step sim_kernel 1 0) [Send [1, 2, 3], Writable, Shutdown]
        (demo_cworld (demo_conn KConnected []) kReadEvent 2) = Inr w' \<and>
     conns w' 0 = Some t' \<and> sim_out (os (wsys w')) 5 = map Byte out @ fin \<and>
     out @ content (outputBuffer t') = [1, 2, 3]"
proof -
  let ?w = "demo_cworld (demo_conn KConnected []) kReadEvent 2"
  have l: "length ([] :: byte list) < 100" by simp
  note d = demo_send_ok [OF refl] and e = demo_write [OF l]
  have th: "isInLoopThread demo_cloop ?w"
    by (simp add: isInLoopThread_def tid_of_def cacheTid_def Let_def demo_cworld_def demo_cloop_def demo_loop_def)
  have rd: "isReading (demo_chan kReadEvent)" by (simp add: demo_chan_def isReading_def event_defs)
  from connection_stream [OF sim_kernel_ok demo_view [OF l] th e(9) d(6) rd demo_stream_fits]
  show ?thesis unfolding d(8,10) by auto
qed

end
