(* ===== verification/TcpServer.thy ===== *)
theory TcpServer
  imports TcpConnection EventLoopThread "HOL-Library.AList"
begin

text \<open>
  \<^verbatim>\<open>src/TcpServer.{h,cc}\<close>: the server object, which owns the acceptor, the thread pool and the map of
  connections by name. The program state is extended by the server object. The file also ties the
  knot: what the functors a loop runs and the handlers a channel calls mean in a program with this
  server. Identities of new objects are arguments, chosen by the allocator.
\<close>

section \<open>Data\<close>

record tcp_server =
  srv_connectionCallback :: "cb_ref option"
  srv_messageCallback :: "cb_ref option"
  srv_threadInitCallback :: "cb_ref option"
  srv_writeCompleteCallback :: "cb_ref option"
  srv_loop :: loop_id
  ipPort :: string
  srv_name :: string
  threadPool :: thread_pool
  srv_started :: c_int
  nextConnId :: int
  connections :: "(string \<times> conn_id) list"

record 'k sworld = "'k cworld" +
  server :: "tcp_server option"

definition with_server :: "('k, 'm) sworld_scheme \<Rightarrow> (tcp_server \<Rightarrow> 'r res) \<Rightarrow> 'r res" where
  "with_server w f = (case server w of None \<Rightarrow> Inl Null_Deref | Some v \<Rightarrow> f v)"

definition put_server :: "tcp_server \<Rightarrow> ('k, 'm) sworld_scheme \<Rightarrow> ('k, 'm) sworld_scheme" where
  "put_server v w = w\<lparr>server := Some v\<rparr>"

text \<open>The references of the two member functions the server binds as callbacks.\<close>

definition newConnection_ref :: cb_ref where "newConnection_ref = 0"
definition removeConnection_ref :: cb_ref where "removeConnection_ref = 0"

section \<open>Construction and configuration\<close>

text \<open>
  \<open>started0\<close> is whatever \<^verbatim>\<open>started_\<close> holds after construction: the constructor does not initialise it, and
  in C++11 the default constructor of an atomic does not either.
\<close>

definition mk_TcpServer :: "'k kernel \<Rightarrow> loop_id option \<Rightarrow> InetAddress \<Rightarrow> string \<Rightarrow> bool \<Rightarrow> chan_id \<Rightarrow> c_int \<Rightarrow>
    ('k, 'm) sworld_scheme \<Rightarrow> ('k, 'm) sworld_scheme res" where
  "mk_TcpServer K lo listenAddr nameArg reusePort ch started0 w =
     bind_r (CheckLoopNotNull lo) (\<lambda>l.
     bind_r (toIpPort listenAddr) (\<lambda>ip.
     bind_r (mk_Acceptor K l ch listenAddr reusePort w) (\<lambda>w1.
       setNewConnectionCallback newConnection_ref
         (put_server \<lparr>srv_connectionCallback = None, srv_messageCallback = None,
            srv_threadInitCallback = None, srv_writeCompleteCallback = None, srv_loop = l, ipPort = ip, srv_name = nameArg,
            threadPool = mk_EventLoopThreadPool l nameArg, srv_started = started0, nextConnId = 1,
            connections = []\<rparr> w1))))"

definition setThreadInitCallback :: "cb_ref \<Rightarrow> tcp_server \<Rightarrow> tcp_server" where
  "setThreadInitCallback cb v = v\<lparr>srv_threadInitCallback := Some cb\<rparr>"

definition srv_setConnectionCallback :: "cb_ref \<Rightarrow> tcp_server \<Rightarrow> tcp_server" where
  "srv_setConnectionCallback cb v = v\<lparr>srv_connectionCallback := Some cb\<rparr>"

definition srv_setMessageCallback :: "cb_ref \<Rightarrow> tcp_server \<Rightarrow> tcp_server" where
  "srv_setMessageCallback cb v = v\<lparr>srv_messageCallback := Some cb\<rparr>"

definition srv_setWriteCompleteCallback :: "cb_ref \<Rightarrow> tcp_server \<Rightarrow> tcp_server" where
  "srv_setWriteCompleteCallback cb v = v\<lparr>srv_writeCompleteCallback := Some cb\<rparr>"

definition TcpServer_setThreadNum :: "'k kernel \<Rightarrow> int \<Rightarrow> ('k, 'm) sworld_scheme \<Rightarrow> ('k, 'm) sworld_scheme res" where
  "TcpServer_setThreadNum K n w = with_server w (\<lambda>v.
     runInLoop K (srv_loop v) (Acceptor_listen K) AcceptorListen
       (put_server (v\<lparr>threadPool := setThreadNum n (threadPool v)\<rparr>) w))"

text \<open>\<^verbatim>\<open>started_\<close> is atomic, so it wraps around. The pool is started without the init callback the user may
  have set.\<close>

definition TcpServer_start :: "'k kernel \<Rightarrow> bool \<Rightarrow> (nat \<Rightarrow> thread_ids) \<Rightarrow>
    ('k, 'm) sworld_scheme \<Rightarrow> ('k, 'm) sworld_scheme res" where
  "TcpServer_start K use_poll ids w = with_server w (\<lambda>v.
     let v1 = v\<lparr>srv_started := srv_started v + 1\<rparr>; w1 = put_server v1 w
     in if srv_started v = 0
        then bind_r (pool_start K use_poll None ids (threadPool v1, w1)) (\<lambda>(p, w2).
               with_server w2 (\<lambda>v2. Inr (put_server (v2\<lparr>threadPool := p\<rparr>) w2)))
        else Inr w1)"

section \<open>Connections\<close>

text \<open>\<^verbatim>\<open>char buf[64]\<close> and \<^verbatim>\<open>snprintf(buf, sizeof buf, "-%s#%d", ...)\<close>.\<close>

definition connName :: "tcp_server \<Rightarrow> int \<Rightarrow> string" where
  "connName v n = srv_name v @ snprintf 64 (''-'' @ ipPort v @ ''#'' @ fmt_d n)"

text \<open>All of \<^verbatim>\<open>newConnection\<close> up to handing the connection to its loop; the loop is the result.\<close>

definition register_connection :: "'k kernel \<Rightarrow> conn_id \<Rightarrow> chan_id \<Rightarrow> fd \<Rightarrow> InetAddress \<Rightarrow>
    ('k, 'm) sworld_scheme \<Rightarrow> (loop_id \<times> ('k, 'm) sworld_scheme) res" where
  "register_connection K c ch f peer w = with_server w (\<lambda>v.
     bind_r (getNextLoop (threadPool v)) (\<lambda>(ioLoop, p).
     if nextConnId v = 2 ^ 31 - 1 then Inl Signed_Overflow
     else
       let name = connName v (nextConnId v);
           v1 = v\<lparr>threadPool := p, nextConnId := nextConnId v + 1\<rparr>
       in bind_r (toIpPort peer) (\<lambda>_.
          case call_os (sys_getsockname K f) (wsys w) of ((r, e, a), \<sigma>') \<Rightarrow>
            let local = (if r = - 1 then zero_sockaddr else a);
                w1 = put_server v1 (put_sys \<sigma>' w);
                w2 = (if r = - 1 then log_err ''TcpServer::newConnection getsockname error'' w1 else w1)
            in if f < 0 then Inl Assert_Failed
               else bind_r (mk_TcpConnection K c ch (Some ioLoop) name f (InetAddress_of local) peer w2) (\<lambda>w3.
                    with_conn c w3 (\<lambda>t.
                      let v2 = v1\<lparr>connections := AList.update name c (connections v1)\<rparr>;
                          t1 = conn_setCloseCallback (Some removeConnection_ref)
                                 (setWriteCompleteCallback (srv_writeCompleteCallback v2)
                                   (setMessageCallback (srv_messageCallback v2)
                                     (setConnectionCallback (srv_connectionCallback v2) t)))
                      in Inr (ioLoop, put_conn c t1 (put_server v2 w3)))))))"

definition newConnection :: "'k kernel \<Rightarrow> ('k, 'm) sworld_scheme callbacks \<Rightarrow> conn_id \<Rightarrow> chan_id \<Rightarrow> fd \<Rightarrow>
    InetAddress \<Rightarrow> ('k, 'm) sworld_scheme \<Rightarrow> ('k, 'm) sworld_scheme res" where
  "newConnection K CB c ch f peer w =
     bind_r (register_connection K c ch f peer w) (\<lambda>(ioLoop, w').
       runInLoop K ioLoop (connectionEstablished K CB c) (ConnectionEstablished c) w')"

definition removeConnectionInLoop :: "'k kernel \<Rightarrow> conn_id \<Rightarrow> ('k, 'm) sworld_scheme \<Rightarrow> ('k, 'm) sworld_scheme res" where
  "removeConnectionInLoop K c w = with_server w (\<lambda>v. with_conn c w (\<lambda>t.
     bind_r (toIpPort (peerAddr t)) (\<lambda>_.
       queueInLoop K (conn_loop t) (ConnectionDestroyed c)
         (put_server (v\<lparr>connections := AList.delete (conn_name t) (connections v)\<rparr>) w))))"

definition removeConnection :: "'k kernel \<Rightarrow> conn_id \<Rightarrow> ('k, 'm) sworld_scheme \<Rightarrow> ('k, 'm) sworld_scheme res" where
  "removeConnection K c w = with_server w (\<lambda>v.
     runInLoop K (srv_loop v) (removeConnectionInLoop K c) (RemoveConnectionInLoop c) w)"

text \<open>The body of the destructor; each connection's own reference in the map is dropped first.\<close>

definition destroy_connections :: "'k kernel \<Rightarrow> ('k, 'm) sworld_scheme callbacks \<Rightarrow>
    ('k, 'm) sworld_scheme \<Rightarrow> ('k, 'm) sworld_scheme res" where
  "destroy_connections K CB w = with_server w (\<lambda>v.
     fold_r (\<lambda>(name, c) u. with_conn c u (\<lambda>t.
               runInLoop K (conn_loop t) (connectionDestroyed K CB c) (ConnectionDestroyed c) u))
       (connections v) w)"

text \<open>
  The whole destruction: the body, then the members that act, the pool (when the server holds the last
  reference to it, with what its threads still do) and the acceptor.
\<close>

definition destroy_TcpServer :: "'k kernel \<Rightarrow> ('k, 'm) sworld_scheme callbacks \<Rightarrow>
    (loop_id \<Rightarrow> ('k, 'm) sworld_scheme \<Rightarrow> ('k, 'm) sworld_scheme res option) \<Rightarrow> ('k, 'm) sworld_scheme \<Rightarrow> ('k, 'm) sworld_scheme res" where
  "destroy_TcpServer K CB rest w =
     bind_r (destroy_connections K CB w) (\<lambda>w1. with_server w1 (\<lambda>v.
     bind_r (destroy_EventLoopThreadPool K rest (threadPool v) w1) (\<lambda>w2.
     bind_r (destroy_Acceptor K w2) (\<lambda>w3. Inr (w3\<lparr>server := None\<rparr>)))))"

section \<open>What functors and handlers mean\<close>

text \<open>The server binds the close callback of its connections to \<^verbatim>\<open>removeConnection\<close>.\<close>

definition server_callbacks :: "'k kernel \<Rightarrow> ('k, 'm) sworld_scheme callbacks \<Rightarrow> ('k, 'm) sworld_scheme callbacks" where
  "server_callbacks K U = U\<lparr>call_close := (\<lambda>_. removeConnection K)\<rparr>"

fun run_task :: "'k kernel \<Rightarrow> ('k, 'm) sworld_scheme callbacks \<Rightarrow>
    (nat \<Rightarrow> ('k, 'm) sworld_scheme \<Rightarrow> ('k, 'm) sworld_scheme res) \<Rightarrow> task \<Rightarrow>
    ('k, 'm) sworld_scheme \<Rightarrow> ('k, 'm) sworld_scheme res" where
  "run_task K CB user (ConnectionEstablished c) w = connectionEstablished K CB c w"
| "run_task K CB user (ConnectionDestroyed c) w = connectionDestroyed K CB c w"
| "run_task K CB user (SendInLoop c s len) w = sendInLoop K c s len w"
| "run_task K CB user (ShutdownInLoop c) w = shutdownInLoop K c w"
| "run_task K CB user (WriteComplete cb c) w = call_writeComplete CB cb c w"
| "run_task K CB user (HighWaterMark cb c n) w = call_highWater CB cb c n w"
| "run_task K CB user (RemoveConnectionInLoop c) w = removeConnectionInLoop K c w"
| "run_task K CB user AcceptorListen w = Acceptor_listen K w"
| "run_task K CB user (UserTask n) w = user n w"

text \<open>\<open>alloc\<close> gives the identities of a new connection and of its channel.\<close>

fun dispatch :: "'k kernel \<Rightarrow> ('k, 'm) sworld_scheme callbacks \<Rightarrow> (('k, 'm) sworld_scheme \<Rightarrow> conn_id \<times> chan_id) \<Rightarrow>
    (string \<Rightarrow> 32 word) \<Rightarrow> Timestamp \<Rightarrow> handler \<Rightarrow> ('k, 'm) sworld_scheme \<Rightarrow> ('k, 'm) sworld_scheme res" where
  "dispatch K CB alloc ia tm (LoopHandleRead l) w = loop_handleRead K l w"
| "dispatch K CB alloc ia tm AcceptorHandleRead w =
     Acceptor_handleRead K (\<lambda>_ f peer u. newConnection K CB (fst (alloc u)) (snd (alloc u)) f peer u) ia w"
| "dispatch K CB alloc ia tm (ConnHandleRead c) w = conn_handleRead K CB tm c w"
| "dispatch K CB alloc ia tm (ConnHandleWrite c) w = conn_handleWrite K c w"
| "dispatch K CB alloc ia tm (ConnHandleClose c) w = conn_handleClose K CB c w"
| "dispatch K CB alloc ia tm (ConnHandleError c) w = conn_handleError K c w"

definition conn_alive :: "conn_id \<Rightarrow> ('k, 'm) sworld_scheme \<Rightarrow> bool" where
  "conn_alive c w \<longleftrightarrow> conns w c \<noteq> None"

definition server_loop :: "'k kernel \<Rightarrow> ('k, 'm) sworld_scheme callbacks \<Rightarrow>
    (nat \<Rightarrow> ('k, 'm) sworld_scheme \<Rightarrow> ('k, 'm) sworld_scheme res) \<Rightarrow> (('k, 'm) sworld_scheme \<Rightarrow> conn_id \<times> chan_id) \<Rightarrow>
    (string \<Rightarrow> 32 word) \<Rightarrow> loop_id \<Rightarrow> ('k, 'm) sworld_scheme \<Rightarrow> ('k, 'm) sworld_scheme res option" where
  "server_loop K U user alloc ia l w =
     EventLoop_loop K (dispatch K (server_callbacks K U) alloc ia) conn_alive
       (run_task K (server_callbacks K U) user) l w"

section \<open>The registry of connections\<close>

text \<open>
  The contract of a registry whose keys come from a counter: different counter values that can occur
  give different keys.
\<close>

definition reg_wf :: "(int \<Rightarrow> 'n) \<Rightarrow> int \<Rightarrow> ('n \<Rightarrow> 'c option) \<Rightarrow> bool" where
  "reg_wf key n m \<longleftrightarrow> (\<forall>k. m k \<noteq> None \<longrightarrow> (\<exists>i. 1 \<le> i \<and> i < n \<and> k = key i))"

locale id_registry =
  fixes key :: "int \<Rightarrow> 'n" and valid :: "int \<Rightarrow> bool"
  assumes key_inj: "valid i \<Longrightarrow> valid j \<Longrightarrow> key i = key j \<Longrightarrow> i = j"
    and valid_below: "valid n \<Longrightarrow> 1 \<le> i \<Longrightarrow> i < n \<Longrightarrow> valid i"
begin

lemma fresh_key:
  assumes "reg_wf key n m" and "valid n"
  shows "m (key n) = None"
proof (rule ccontr)
  assume "m (key n) \<noteq> None"
  with assms(1) obtain i where i: "1 \<le> i" "i < n" "key n = key i" unfolding reg_wf_def by blast
  with key_inj [OF assms(2) valid_below [OF assms(2)]] show False by auto
qed

lemma register_wf: "reg_wf key n m \<Longrightarrow> 1 \<le> n \<Longrightarrow> reg_wf key (n + 1) (m(key n \<mapsto> c))"
  unfolding reg_wf_def by (auto simp: zless_add1_eq) (metis less_irrefl zle_add1_eq_le order_less_imp_le)+

lemma unregister_wf: "reg_wf key n m \<Longrightarrow> reg_wf key n (m(k := None))"
  unfolding reg_wf_def by simp

lemma register_remove:
  "reg_wf key n m \<Longrightarrow> valid n \<Longrightarrow> (m(key n \<mapsto> c))(key n := None) = m"
  using fresh_key [of n m] by (auto simp: fun_upd_idem_iff)

end

definition valid_id :: "int \<Rightarrow> bool" where
  "valid_id n \<longleftrightarrow> 1 \<le> n \<and> n < 2 ^ 31"

definition conn_key :: "string \<Rightarrow> InetAddress \<Rightarrow> int \<Rightarrow> string" where
  "conn_key name addr n =
     name @ snprintf 64 (''-'' @ (toIp addr @ '':'' @ dec (unat (toPort addr))) @ ''#'' @ fmt_d n)"

lemma conn_key_eq:
  assumes "valid_id n"
  shows "conn_key name addr n =
     name @ ''-'' @ (toIp addr @ '':'' @ dec (unat (toPort addr))) @ ''#'' @ dec (nat n)"
proof -
  have "length (dec (nat n)) \<le> 10" using assms by (intro length_dec) (auto simp: valid_id_def)
  moreover have "length (toIp addr @ '':'' @ dec (unat (toPort addr))) \<le> 21"
    using length_toIpPort [of addr] by (simp add: toIpPort_eq)
  ultimately show ?thesis using assms by (simp add: conn_key_def snprintf_short valid_id_def)
qed

interpretation cn: id_registry "conn_key name addr" valid_id for name addr
proof
  fix i j assume v: "valid_id i" "valid_id j" and eq: "conn_key name addr i = conn_key name addr j"
  then have "dec (nat i) = dec (nat j)" by (simp add: conn_key_eq)
  then show "i = j" using v by (auto simp: valid_id_def)
next
  fix n i assume "valid_id n" "1 \<le> i" "i < n"
  then show "valid_id i" by (simp add: valid_id_def)
qed

section \<open>Well-formed servers\<close>

definition server_wf :: "InetAddress \<Rightarrow> tcp_server \<Rightarrow> bool" where
  "server_wf addr v \<longleftrightarrow> toIpPort addr = Inr (ipPort v) \<and> pool_ok (threadPool v) \<and> 1 \<le> nextConnId v \<and>
     reg_wf (connName v) (nextConnId v) (map_of (connections v))"

lemma connName_key: "toIpPort addr = Inr (ipPort v) \<Longrightarrow> connName v n = conn_key (srv_name v) addr n"
  by (simp add: connName_def conn_key_def toIpPort_eq)

lemma connName_key_fun: "toIpPort addr = Inr (ipPort v) \<Longrightarrow> connName v = conn_key (srv_name v) addr"
  using connName_key by (intro ext)

lemma server_frame [simp]:
  "server (put_server v w) = Some v" "server (put_sys \<sigma> w) = server w" "server (put_chan i x w) = server w"
  "server (put_conn c t w) = server w" "server (log_err msg w) = server w" "server (put_loop l el w) = server w"
  "conns (put_server v w) = conns w" "chans (put_server v w) = chans w" "wsys (put_server v w) = wsys w"
  "loops (put_server v w) = loops w" "cur_thread (put_server v w) = cur_thread w"
  "cachedTid (put_server v w) = cachedTid w" "strings (put_server v w) = strings w"
  by (simp_all add: put_server_def put_sys_def put_chan_def put_conn_def log_err_def put_loop_def)

lemma with_server_Some [simp]: "server w = Some v \<Longrightarrow> with_server w f = f v"
  by (simp add: with_server_def)

lemma more_server:
  fixes w w' :: "('k, 'm) sworld_scheme"
  shows "world.more w' = world.more w \<Longrightarrow> server w' = server w"
  by (cases w; cases w'; simp)

text \<open>The connection \<^verbatim>\<open>newConnection\<close> has built when it hands it to its loop.\<close>

definition new_connection :: "tcp_server \<Rightarrow> loop_id \<Rightarrow> chan_id \<Rightarrow> fd \<Rightarrow> InetAddress \<Rightarrow> tcp_connection \<Rightarrow> bool" where
  "new_connection v l ch f peer t \<longleftrightarrow>
     conn_state t = KConnecting \<and> conn_name t = connName v (nextConnId v) \<and> conn_loop t = l \<and>
     conn_socket t = \<lparr>sockfd = f\<rparr> \<and> conn_channel t = ch \<and> peerAddr t = peer \<and>
     connectionCallback t = srv_connectionCallback v \<and> messageCallback t = srv_messageCallback v \<and>
     writeCompleteCallback t = srv_writeCompleteCallback v \<and>
     conn_closeCallback t = Some removeConnection_ref \<and>
     buffer_ok (inputBuffer t) \<and> buffer_ok (outputBuffer t) \<and>
     content (inputBuffer t) = [] \<and> content (outputBuffer t) = [] \<and>
     readerIndex (inputBuffer t) = KCheapPrend \<and> readerIndex (outputBuffer t) = KCheapPrend"

definition next_loop :: "tcp_server \<Rightarrow> loop_id" where
  "next_loop v = getAllLoops (threadPool v) ! nat (pool_next (threadPool v))"

lemma mk_Buffer_initial:
  "\<exists>b. mk_Buffer kInitialSize = Inr b \<and> buffer_ok b \<and> content b = [] \<and> readerIndex b = KCheapPrend"
  unfolding mk_Buffer_default by (simp add: buffer_ok_def content_def KCheapPrend_def)

lemma register_ok:
  assumes v: "server w = Some v" and wf: "server_wf addr v" and id: "nextConnId v < 2 ^ 31 - 1" and f: "0 \<le> f"
  shows "\<exists>w' t v' k'. register_connection K c ch f peer w = Inr (next_loop v, w') \<and>
     server w' = Some v' \<and> nextConnId v' = nextConnId v + 1 \<and> srv_name v' = srv_name v \<and> ipPort v' = ipPort v \<and>
     connections v' = AList.update (connName v (nextConnId v)) c (connections v) \<and> pool_ok (threadPool v') \<and>
     conns w' c = Some t \<and> (\<forall>d. d \<noteq> c \<longrightarrow> conns w' d = conns w d) \<and> new_connection v (next_loop v) ch f peer t \<and>
     chans w' = (chans w)(ch \<mapsto> conn_channel_init c (next_loop v) f) \<and> loops w' = loops w \<and>
     k' = snd (sys_getsockname K f (os (wsys w))) \<and>
     os (wsys w') = snd (sys_setsockopt K f SO_KEEPALIVE (optval True) k') \<and>
     cur_thread w' = cur_thread w \<and> cachedTid w' = cachedTid w \<and> strings w' = strings w"
proof -
  have pok: "pool_ok (threadPool v)" using wf by (simp add: server_wf_def)
  obtain p where p: "getNextLoop (threadPool v) = Inr (next_loop v, p)" "pool_ok p"
    using rr.pick_law [OF pok] unfolding next_loop_def by blast
  obtain b where b: "mk_Buffer kInitialSize = Inr b" "buffer_ok b" "content b = []" "readerIndex b = KCheapPrend"
    using mk_Buffer_initial by blast
  obtain r e a k1 where call: "sys_getsockname K f (os (wsys w)) = ((r, e, a), k1)" by (metis prod.exhaust)
  show ?thesis
    using v p b id f call
    by (simp add: register_connection_def toIpPort_eq call_os_os Let_def mk_TcpConnection_def CheckLoopNotNull_def
        new_connection_def conn_setCloseCallback_def setWriteCompleteCallback_def setMessageCallback_def
        setConnectionCallback_def)
qed

lemma cmore_server:
  fixes w w' :: "('k, 'm) sworld_scheme"
  shows "cworld.more w' = cworld.more w \<Longrightarrow> server w' = server w"
  by (cases w; cases w'; simp)

lemma reg_wf_update:
  assumes wf: "server_wf addr v" and id: "nextConnId v < 2 ^ 31 - 1"
  shows "map_of (connections v) (connName v (nextConnId v)) = None"
    and "reg_wf (connName v) (nextConnId v + 1)
      (map_of (AList.update (connName v (nextConnId v)) c (connections v)))"
proof -
  have key: "connName v = conn_key (srv_name v) addr"
    using wf by (intro connName_key_fun) (simp add: server_wf_def)
  have reg: "reg_wf (conn_key (srv_name v) addr) (nextConnId v) (map_of (connections v))" "1 \<le> nextConnId v"
    using wf by (simp_all add: server_wf_def key)
  have "valid_id (nextConnId v)" using reg(2) id by (simp add: valid_id_def)
  with cn.fresh_key [OF reg(1)] show "map_of (connections v) (connName v (nextConnId v)) = None"
    by (simp add: key)
  show "reg_wf (connName v) (nextConnId v + 1)
      (map_of (AList.update (connName v (nextConnId v)) c (connections v)))"
    unfolding key update_conv' using cn.register_wf [OF reg] .
qed

lemma server_wf_delete:
  assumes "server_wf addr v"
  shows "server_wf addr (v\<lparr>connections := AList.delete name (connections v)\<rparr>)"
proof -
  have "connName (v\<lparr>connections := AList.delete name (connections v)\<rparr>) = connName v"
    by (intro ext) (simp add: connName_def)
  with assms show ?thesis by (auto simp: server_wf_def delete_conv' reg_wf_def)
qed

lemma new_conn_channel_fields [simp]:
  "ch_fd (conn_channel_init c l f) = f" "ch_loop (conn_channel_init c l f) = l"
  "ch_index (conn_channel_init c l f) = kNew" "ch_events (conn_channel_init c l f) = 0"
  by (simp_all add: conn_channel_init_def mk_Channel_def kNew_def setErrorCallback_def setCloseCallback_def
      setWriteCallback_def setReadCallback_def)

text \<open>Starting threads does not touch the objects above the loops.\<close>

lemma Channel_request_more: "Channel_request K r i w = Inr w' \<Longrightarrow> world.more w' = world.more w"
  by (auto simp: Channel_request_def Channel_update_def loop_updateChannel_def lift_poller_def with_chan_def
      with_loop_def bind_r_Inr_iff split: option.splits)

lemma mk_EventLoop_more: "mk_EventLoop K up l ch w = Inr w' \<Longrightarrow> world.more w' = world.more w"
  by (auto simp: mk_EventLoop_def bind_r_Inr_iff Let_def dest!: Channel_request_more split: if_splits)

lemma startLoop_more: "startLoop K up None ids e w = Inr (l, e', w') \<Longrightarrow> world.more w' = world.more w"
  by (auto simp: startLoop_def threadFunc_init_def enter_thread_def bind_r_Inr_iff dest!: mk_EventLoop_more split: prod.splits)

lemma pool_start_more: "pool_start K up None ids (p, w) = Inr (p', w') \<Longrightarrow> world.more w' = world.more w"
proof -
  assume "pool_start K up None ids (p, w) = Inr (p', w')"
  then obtain p1 where "fold_r (start_thread K up None ids) [0..<nat (numThreads p)] (p\<lparr>pool_started := True\<rparr>, w) =
      Inr (p1, w')"
    by (auto simp: pool_start_def bind_r_Inr_iff split: if_splits)
  note run = this
  have step: "(\<lambda>(q, u). world.more u = world.more w) s'"
    if "(\<lambda>(q, u). world.more u = world.more w) s" "start_thread K up None ids i s = Inr s'" for i s s'
    using that by (auto simp: start_thread_def mk_EventLoopThread_def mk_Thread_def bind_r_Inr_iff Let_def split: prod.splits dest!: startLoop_more)
  from fold_r_invariant [where I = "\<lambda>(q, u). world.more u = world.more w", OF step _ run] show ?thesis by simp
qed

section \<open>A concrete server\<close>

definition demo_server :: tcp_server where
  "demo_server = \<lparr>srv_connectionCallback = Some 1, srv_messageCallback = Some 2, srv_threadInitCallback = None,
     srv_writeCompleteCallback = None,
     srv_loop = 0, ipPort = projr (toIpPort (InetAddress_of zero_sockaddr)), srv_name = ''s'',
     threadPool = mk_EventLoopThreadPool 0 ''s'', srv_started = 0, nextConnId = 1, connections = []\<rparr>"

definition demo_sworld :: "sim sworld" where
  "demo_sworld = cworld.extend (demo_cworld (demo_conn KConnected []) kReadEvent 2) \<lparr>server = Some demo_server\<rparr>"

lemma demo_sworld_fields:
  "server demo_sworld = Some demo_server" "loops demo_sworld = (\<lambda>_. None)(0 \<mapsto> demo_cloop)"
  "chans demo_sworld = (\<lambda>_. None)(1 \<mapsto> demo_chan kReadEvent)" "conns demo_sworld = (\<lambda>_. None)(0 \<mapsto> demo_conn KConnected [])"
  "wsys demo_sworld = wsys (demo_cworld (demo_conn KConnected []) kReadEvent 2)"
  "cur_thread demo_sworld = 7" "cachedTid demo_sworld = (\<lambda>_. 0)" "acceptor_obj demo_sworld = None"
  "loopInThread demo_sworld = (\<lambda>_. None)"
  by (simp_all add: demo_sworld_def demo_cworld_def cworld.defs)

lemma demo_server_wf: "server_wf (InetAddress_of zero_sockaddr) demo_server"
  by (simp add: server_wf_def demo_server_def toIpPort_eq pool_ok_def mk_EventLoopThreadPool_def reg_wf_def)

lemma demo_sworld_ok: "loop_ok sim_watch 0 demo_sworld"
proof -
  have "length ([] :: byte list) < 100" by simp
  from demo_view [OF this, of KConnected kReadEvent 2]
  have "loop_ok sim_watch 0 (demo_cworld (demo_conn KConnected []) kReadEvent 2)"
    by (simp add: conn_view_def demo_conn_def)
  from loop_ok_cong [OF this, of demo_sworld] show ?thesis
    by (simp add: demo_sworld_fields) (simp add: demo_cworld_def)
qed

section \<open>Properties\<close>

text \<open>
  A new connection never displaces another: on a well-formed server \<^verbatim>\<open>newConnection\<close> for an accepted
  descriptor always gets as far as handing the connection to its loop; the name it builds (within its
  64-byte array) is not in the map yet, exactly that entry is added, the connection is
  \<^verbatim>\<open>kConnecting\<close> with empty buffers and the server's callbacks on the loop whose turn it is, and the
  server is well formed again.
\<close>

lemma newConnection_registers:
  assumes "server w = Some v" and "server_wf addr v" and "nextConnId v < 2 ^ 31 - 1" and "0 \<le> f"
  shows "\<exists>w' t v'. register_connection K c ch f peer w = Inr (next_loop v, w') \<and>
     conns w' c = Some t \<and> new_connection v (next_loop v) ch f peer t \<and> (\<forall>d. d \<noteq> c \<longrightarrow> conns w' d = conns w d) \<and>
     map_of (connections v) (conn_name t) = None \<and> server w' = Some v' \<and>
     map_of (connections v') = (map_of (connections v))(conn_name t \<mapsto> c) \<and> server_wf addr v'"
proof -
  obtain w' t v' where w': "register_connection K c ch f peer w = Inr (next_loop v, w')" "server w' = Some v'"
      "nextConnId v' = nextConnId v + 1" "srv_name v' = srv_name v" "ipPort v' = ipPort v"
      "connections v' = AList.update (connName v (nextConnId v)) c (connections v)" "pool_ok (threadPool v')"
      "conns w' c = Some t" "\<forall>d. d \<noteq> c \<longrightarrow> conns w' d = conns w d" "new_connection v (next_loop v) ch f peer t"
    using register_ok [OF assms(1-4), of K c ch peer] by blast
  have name: "conn_name t = connName v (nextConnId v)" using w'(10) by (simp add: new_connection_def)
  have "connName v' = connName v" using w'(4,5) by (intro ext) (simp add: connName_def)
  then have "server_wf addr v'"
    using reg_wf_update(2) [OF assms(2,3), of c] assms(2) w'(3,5,6,7) by (simp add: server_wf_def)
  moreover have "map_of (connections v') = (map_of (connections v))(conn_name t \<mapsto> c)"
    unfolding w'(6) name by (rule update_conv')
  ultimately show ?thesis using w' reg_wf_update(1) [OF assms(2,3)] name by auto
qed

lemma newConnection_registers_witness:
  "\<exists>w' t v'. register_connection sim_kernel 3 4 8 (InetAddress_of zero_sockaddr) demo_sworld = Inr (0, w') \<and>
     conns w' 3 = Some t \<and> server w' = Some v' \<and> map_of (connections v') (conn_name t) = Some 3"
proof -
  have id: "nextConnId demo_server < 2 ^ 31 - 1" and l: "next_loop demo_server = 0"
    by (simp_all add: demo_server_def next_loop_def getAllLoops_def mk_EventLoopThreadPool_def)
  from newConnection_registers [OF demo_sworld_fields(1) demo_server_wf id, of 8 sim_kernel 3 4 "InetAddress_of zero_sockaddr"]
  show ?thesis unfolding l by fastforce
qed

text \<open>
  \<^verbatim>\<open>removeConnectionInLoop\<close> always returns: it takes exactly the connection's name out of the map, leaves
  the connection objects alone, queues its \<^verbatim>\<open>connectionDestroyed\<close> on the connection's own loop and keeps
  the server well formed.
\<close>

lemma removeConnectionInLoop_ok:
  assumes v: "server w = Some v" and wf: "server_wf addr v" and t: "conns w c = Some t"
    and el: "loops w (conn_loop t) = Some el"
  shows "\<exists>w' v'. removeConnectionInLoop K c w = Inr w' \<and> server w' = Some v' \<and> server_wf addr v' \<and>
     map_of (connections v') = (map_of (connections v))(conn_name t := None) \<and> conns w' = conns w \<and>
     loops w' = (loops w)(conn_loop t \<mapsto> el\<lparr>pendingFunctors := pendingFunctors el @ [ConnectionDestroyed c]\<rparr>)"
proof -
  let ?v = "v\<lparr>connections := AList.delete (conn_name t) (connections v)\<rparr>"
  have "loops (put_server ?v w) (conn_loop t) = Some el" using el by simp
  from queueInLoop_ok [OF this, of K "ConnectionDestroyed c"] obtain w' where
    w': "queueInLoop K (conn_loop t) (ConnectionDestroyed c) (put_server ?v w) = Inr w'"
      "loops w' = (loops w)(conn_loop t \<mapsto> el\<lparr>pendingFunctors := pendingFunctors el @ [ConnectionDestroyed c]\<rparr>)"
      "world.more w' = world.more (put_server ?v w)"
    by auto
  have "server w' = Some ?v" "conns w' = conns w"
    using more_server [OF w'(3)] more_conns(1) [OF w'(3)] by simp_all
  moreover have "server_wf addr ?v" by (rule server_wf_delete [OF wf])
  moreover have "removeConnectionInLoop K c w = Inr w'"
    using v t w'(1) by (simp add: removeConnectionInLoop_def toIpPort_eq)
  ultimately show ?thesis using w'(2) by (intro exI [of _ w'] exI [of _ ?v]) (simp add: delete_conv')
qed

lemma removeConnectionInLoop_ok_witness:
  "\<exists>w' v'. removeConnectionInLoop sim_kernel 0 demo_sworld = Inr w' \<and> server w' = Some v' \<and>
     map_of (connections v') ''c'' = None \<and>
     map_option pendingFunctors (loops w' 0) = Some [ConnectionDestroyed 0]"
proof -
  have w: "conns demo_sworld 0 = Some (demo_conn KConnected [])"
      "loops demo_sworld (conn_loop (demo_conn KConnected [])) = Some demo_cloop"
      "conn_loop (demo_conn KConnected []) = 0" "conn_name (demo_conn KConnected []) = ''c''"
      "pendingFunctors demo_cloop = []"
    by (simp_all add: demo_sworld_fields demo_conn_def demo_cloop_def)
  from removeConnectionInLoop_ok [OF demo_sworld_fields(1) demo_server_wf w(1,2), of sim_kernel] w(3-5)
  show ?thesis by auto
qed

text \<open>
  \<^verbatim>\<open>start()\<close> never makes the server listen: if it returns, the acceptor is as it was. When \<^verbatim>\<open>started_\<close> is not
  0 (after an earlier start, or because the constructor left it uninitialised), \<^verbatim>\<open>start()\<close> returns
  having done nothing but count.
\<close>

lemma start_never_listens:
  assumes "server w = Some v"
  shows "(\<forall>w'. TcpServer_start K up ids w = Inr w' \<longrightarrow> acceptor_obj w' = acceptor_obj w) \<and>
     (srv_started v \<noteq> 0 \<longrightarrow> TcpServer_start K up ids w = Inr (put_server (v\<lparr>srv_started := srv_started v + 1\<rparr>) w))"
proof (intro conjI allI impI)
  fix w' assume st: "TcpServer_start K up ids w = Inr w'"
  show "acceptor_obj w' = acceptor_obj w"
  proof (cases "srv_started v = 0")
    case False
    with st assms show ?thesis by (auto simp: TcpServer_start_def Let_def put_server_def)
  next
    case True
    let ?w1 = "put_server (v\<lparr>srv_started := srv_started v + 1\<rparr>) w"
    from st True assms obtain p w2 v2 where w2: "pool_start K up None ids (threadPool v, ?w1) = Inr (p, w2)"
        "w' = put_server v2 w2"
      by (auto simp: TcpServer_start_def Let_def bind_r_Inr_iff with_server_def split: option.splits)
    have "acceptor_obj w2 = acceptor_obj ?w1" using more_acceptor [OF pool_start_more [OF w2(1)]] .
    then show ?thesis unfolding w2(2) by (simp add: put_server_def)
  qed
next
  assume "srv_started v \<noteq> 0"
  then show "TcpServer_start K up ids w = Inr (put_server (v\<lparr>srv_started := srv_started v + 1\<rparr>) w)"
    using assms by (simp add: TcpServer_start_def Let_def)
qed

lemma start_never_listens_witness:
  "TcpServer_start sim_kernel False demo_ids (put_server (demo_server\<lparr>srv_started := 5\<rparr>) demo_sworld) =
     Inr (put_server (demo_server\<lparr>srv_started := 6\<rparr>) (put_server (demo_server\<lparr>srv_started := 5\<rparr>) demo_sworld))"
proof -
  let ?w = "put_server (demo_server\<lparr>srv_started := 5\<rparr>) demo_sworld"
  have "server ?w = Some (demo_server\<lparr>srv_started := 5\<rparr>)" by simp
  from start_never_listens [OF this, of sim_kernel False demo_ids] show ?thesis by simp
qed

text \<open>
  A connection accepted in the thread of its loop comes up in one call: if the loop whose turn it is
  is well formed and knows neither the channel nor the descriptor, and a connection callback is set,
  \<^verbatim>\<open>newConnection\<close> reaches that callback with the connection \<^verbatim>\<open>kConnected\<close>, watched for reading by the kernel
  and found in the server's map under its name.
\<close>

lemma newConnection_connects:
  assumes K: "kernel_ok K interest sent" and v: "server w = Some v" and wf: "server_wf addr v" and id: "nextConnId v < 2 ^ 31 - 1" and f: "0 \<le> f"
    and el: "loops w (next_loop v) = Some el" and th: "isInLoopThread el w" and ok: "loop_ok interest (next_loop v) w"
    and new: "wakeupFd el \<noteq> f" "chans w ch = None"
      "\<forall>i d. owned (chans w) (next_loop v) i d \<longrightarrow> ch_fd d \<noteq> f"
      "\<forall>p. loop_poller el = Some p \<longrightarrow> interest (epollfd p) (os (wsys w)) f = None"
    and cb: "srv_connectionCallback v = Some cb"
  shows "\<exists>w1 t1 ch1 el1 v1. newConnection K CB c ch f peer w = call_connection CB cb c w1 \<and>
     conn_view interest c t1 ch1 el1 w1 \<and> conn_state t1 = KConnected \<and> conn_name t1 = connName v (nextConnId v) \<and>
     conn_channel t1 = ch \<and> conn_loop t1 = next_loop v \<and> conn_socket t1 = \<lparr>sockfd = f\<rparr> \<and> peerAddr t1 = peer \<and>
     ch_index ch1 \<noteq> kNew \<and> ch_events ch1 = kReadEvent \<and> pendingFunctors el1 = pendingFunctors el \<and>
     watched interest ch w1 = Some kReadEvent \<and>
     server w1 = Some v1 \<and> map_of (connections v1) = (map_of (connections v))(conn_name t1 \<mapsto> c)"
proof -
  let ?l = "next_loop v" and ?ch = "conn_channel_init c (next_loop v) f"
  obtain w' t v' k' where w': "register_connection K c ch f peer w = Inr (?l, w')" "server w' = Some v'"
      "connections v' = AList.update (connName v (nextConnId v)) c (connections v)"
      "conns w' c = Some t" "new_connection v ?l ch f peer t" "chans w' = (chans w)(ch \<mapsto> ?ch)" "loops w' = loops w"
      "k' = snd (sys_getsockname K f (os (wsys w)))"
      "os (wsys w') = snd (sys_setsockopt K f SO_KEEPALIVE (optval True) k')"
      "cur_thread w' = cur_thread w" "cachedTid w' = cachedTid w"
    using register_ok [OF v wf id f, of K c ch peer] by blast
  note fr = epoll_frameD [OF kernel_okD(3) [OF K]]
  have il: "interest ep (os (wsys w')) = interest ep (os (wsys w))" for ep
    unfolding w'(9) fr(5) w'(8) fr(6) ..
  have "loop_ok interest ?l (put_chan ch ?ch w)"
    using new el by (intro loop_ok_new_chan [OF ok]) simp_all
  then have "loop_ok interest ?l w'"
    by (rule loop_ok_cong) (use w'(6,7) il in simp_all)
  then have view: "conn_view interest c t ?ch el w'"
    using w'(4,5,6,7) el new(1) by (simp add: conn_view_def new_connection_def)
  have "isInLoopThread el w'" using th isInLoopThread_cong [of el el w' w] w'(10,11) by simp
  then have eq: "newConnection K CB c ch f peer w = connectionEstablished K CB c w'"
    using w'(1,7) el by (simp add: newConnection_def runInLoop_def)
  obtain w1 n p where w1: "n \<noteq> kNew"
      "connectionEstablished K CB c w' = invoke (connectionCallback t) (\<lambda>cb. call_connection CB cb c w1)"
      "conn_view interest c (set_conn_state KConnected t) (set_index n (request EnableReading (tie c ?ch)))
         (el\<lparr>loop_poller := Some p\<rparr>) w1" "cworld.more w1 = cworld.more w'"
    using established_view [OF K view, of CB f] by auto
  have t: "connectionCallback t = Some cb" "conn_channel t = ch" "conn_name t = connName v (nextConnId v)"
      "conn_loop t = ?l" "conn_socket t = \<lparr>sockfd = f\<rparr>" "peerAddr t = peer"
    using w'(5) cb by (simp_all add: new_connection_def)
  have "loop_ok interest (ch_loop (set_index n (request EnableReading (tie c ?ch)))) w1"
      "chans w1 ch = Some (set_index n (request EnableReading (tie c ?ch)))"
    using w1(3) t(2) by (simp_all add: conn_view_def)
  from watched_eq(1) [OF this] w1(1) have "watched interest ch w1 = Some kReadEvent"
    by (simp add: event_defs)
  moreover have "map_of (connections v') = (map_of (connections v))(conn_name t \<mapsto> c)"
    unfolding w'(3) t(3) by (rule update_conv')
  moreover have "ch_events (set_index n (request EnableReading (tie c ?ch))) = kReadEvent" by (simp add: event_defs)
  ultimately show ?thesis using eq w1 t w'(2) cmore_server [OF w1(4)]
    by (intro exI [of _ w1] exI [of _ "set_conn_state KConnected t"] exI) (auto simp: invoke_def set_conn_state_def)
qed

definition quiet_callbacks :: "sim sworld callbacks" where
  "quiet_callbacks = \<lparr>call_connection = (\<lambda>_ _. Inr), call_close = (\<lambda>_ _. Inr), call_writeComplete = (\<lambda>_ _. Inr),
     call_message = (\<lambda>_ _ _. Inr), call_highWater = (\<lambda>_ _ _. Inr)\<rparr>"

lemma newConnection_connects_witness:
  "\<exists>w1 v1. newConnection sim_kernel quiet_callbacks 3 4 8 (InetAddress_of zero_sockaddr) demo_sworld = Inr w1 \<and>
     watched sim_watch 4 w1 = Some kReadEvent \<and> server w1 = Some v1 \<and>
     map_of (connections v1) (connName demo_server 1) = Some 3"
proof -
  have l: "next_loop demo_server = 0" "srv_connectionCallback demo_server = Some 1" "nextConnId demo_server = 1"
    by (simp_all add: demo_server_def next_loop_def getAllLoops_def mk_EventLoopThreadPool_def)
  have id: "nextConnId demo_server < 2 ^ 31 - 1" by (simp add: l(3))
  have w: "loops demo_sworld (next_loop demo_server) = Some demo_cloop" "wakeupFd demo_cloop \<noteq> 8"
      "chans demo_sworld 4 = None" "isInLoopThread demo_cloop demo_sworld"
    unfolding l by (simp_all add: demo_sworld_fields demo_cloop_def demo_loop_def isInLoopThread_def tid_of_def
        cacheTid_def Let_def)
  have own: "\<forall>i d. owned (chans demo_sworld) (next_loop demo_server) i d \<longrightarrow> ch_fd d \<noteq> 8"
    by (auto simp: owned_def demo_sworld_fields demo_chan_def)
  have il: "\<forall>p. loop_poller demo_cloop = Some p \<longrightarrow> sim_interest (os (wsys demo_sworld)) (epollfd p) 8 = None"
    by (auto simp: demo_sworld_fields demo_cworld_def demo_cloop_def)
  have ok: "loop_ok sim_watch (next_loop demo_server) demo_sworld" using demo_sworld_ok l by simp
  from newConnection_connects [OF sim_kernel_ok demo_sworld_fields(1) demo_server_wf id _ w(1,4) ok w(2,3) own il l(2),
      of quiet_callbacks 3 "InetAddress_of zero_sockaddr"] l(3)
  show ?thesis by (auto simp: quiet_callbacks_def)
qed

end
