(* ===== verification/ServerRegistry.thy ===== *)
theory ServerRegistry
  imports TcpServer Transition
begin

text \<open>
  The server's map of connections over any sequence of accepted and removed connections, on a server
  whose connections live in loops of other threads (a started thread pool). The specification is the
  set of live connections.
\<close>

section \<open>The specification and the operations\<close>

datatype server_event = Accepted conn_id chan_id fd InetAddress | Removed conn_id

fun live_step :: "server_event \<Rightarrow> conn_id set \<Rightarrow> conn_id set" where
  "live_step (Accepted c ch f peer) S = insert c S"
| "live_step (Removed c) S = S - {c}"

fun server_step :: "'k kernel \<Rightarrow> ('k, 'm) sworld_scheme callbacks \<Rightarrow> server_event \<Rightarrow>
    ('k, 'm) sworld_scheme \<Rightarrow> ('k, 'm) sworld_scheme res" where
  "server_step K CB (Accepted c ch f peer) w = newConnection K CB c ch f peer w"
| "server_step K CB (Removed c) w = removeConnectionInLoop K c w"

text \<open>
  A new connection is a new object for an accepted descriptor, the id counter is not exhausted, and the
  loop whose turn it is runs in another thread. A connection that is removed is in the map.
\<close>

fun server_event_ok :: "server_event \<Rightarrow> ('k, 'm) sworld_scheme \<Rightarrow> bool" where
  "server_event_ok (Accepted c ch f peer) w \<longleftrightarrow>
     conns w c = None \<and> 0 \<le> f \<and>
     (case server w of
        Some v \<Rightarrow> nextConnId v < 2 ^ 31 - 1 \<and>
          (case loops w (next_loop v) of Some el \<Rightarrow> \<not> isInLoopThread el w | None \<Rightarrow> False)
      | None \<Rightarrow> False)"
| "server_event_ok (Removed c) w \<longleftrightarrow>
     (case (server w, conns w c) of
        (Some v, Some t) \<Rightarrow> map_of (connections v) (conn_name t) = Some c
      | _ \<Rightarrow> False)"

section \<open>The simulation\<close>

text \<open>The map holds exactly the live connections, each under its own name and with a loop that exists.\<close>

definition registered :: "tcp_server \<Rightarrow> ('k, 'm) sworld_scheme \<Rightarrow> string \<Rightarrow> conn_id \<Rightarrow> bool" where
  "registered v w name c \<longleftrightarrow> map_of (connections v) name = Some c \<and>
     (\<exists>t. conns w c = Some t \<and> conn_name t = name \<and> loops w (conn_loop t) \<noteq> None)"

definition registry_sim :: "InetAddress \<Rightarrow> conn_id set \<Rightarrow> ('k, 'm) sworld_scheme \<Rightarrow> bool" where
  "registry_sim addr S w \<longleftrightarrow> (\<exists>v. server w = Some v \<and> server_wf addr v \<and>
     (\<forall>name c. map_of (connections v) name = Some c \<longrightarrow> c \<in> S \<and> registered v w name c) \<and>
     (\<forall>c \<in> S. \<exists>name. registered v w name c))"

lemma registry_simE:
  assumes "registry_sim addr S w"
  obtains v where "server w = Some v" "server_wf addr v"
    "\<And>name c. map_of (connections v) name = Some c \<Longrightarrow> c \<in> S \<and> registered v w name c"
    "\<And>c. c \<in> S \<Longrightarrow> \<exists>name. registered v w name c"
  using assms unfolding registry_sim_def by blast

lemma newConnection_queued:
  assumes v: "server w = Some v" and wf: "server_wf addr v" and id: "nextConnId v < 2 ^ 31 - 1" and f: "0 \<le> f"
    and el: "loops w (next_loop v) = Some el" and th: "\<not> isInLoopThread el w"
  shows "\<exists>w' v' t. newConnection K CB c ch f peer w = Inr w' \<and> server w' = Some v' \<and> server_wf addr v' \<and>
     conns w' = (conns w)(c \<mapsto> t) \<and> conn_name t = connName v (nextConnId v) \<and> conn_loop t = next_loop v \<and>
     new_connection v (next_loop v) ch f peer t \<and>
     map_of (connections v') = (map_of (connections v))(conn_name t \<mapsto> c) \<and>
     map_of (connections v) (conn_name t) = None \<and>
     loops w' = (loops w)(next_loop v \<mapsto> el\<lparr>pendingFunctors := pendingFunctors el @ [ConnectionEstablished c]\<rparr>) \<and>
     cur_thread w' = cur_thread w \<and> cachedTid w' = cachedTid w"
proof -
  obtain w1 t v' where w1: "register_connection K c ch f peer w = Inr (next_loop v, w1)" "server w1 = Some v'"
      "nextConnId v' = nextConnId v + 1" "srv_name v' = srv_name v" "ipPort v' = ipPort v"
      "connections v' = AList.update (connName v (nextConnId v)) c (connections v)" "pool_ok (threadPool v')"
      "conns w1 c = Some t" "\<forall>d. d \<noteq> c \<longrightarrow> conns w1 d = conns w d" "new_connection v (next_loop v) ch f peer t"
      "loops w1 = loops w" "cur_thread w1 = cur_thread w" "cachedTid w1 = cachedTid w"
    using register_ok [OF v wf id f, of K c ch peer] by blast
  have el1: "loops w1 (next_loop v) = Some el" using w1(11) el by simp
  have th1: "\<not> isInLoopThread el w1" using th isInLoopThread_cong [of el el w1 w] w1(12,13) by simp
  obtain w' where w': "queueInLoop K (next_loop v) (ConnectionEstablished c) w1 = Inr w'"
      "loops w' = (loops w1)(next_loop v \<mapsto> el\<lparr>pendingFunctors := pendingFunctors el @ [ConnectionEstablished c]\<rparr>)"
      "world.more w' = world.more w1" "cur_thread w' = cur_thread w1" "cachedTid w' = cachedTid w1"
    using queueInLoop_ok [OF el1] by blast
  have "newConnection K CB c ch f peer w = Inr w'"
    using w1(1) el1 th1 w'(1) by (simp add: newConnection_def runInLoop_def)
  moreover have "server w' = Some v'" using more_server [OF w'(3)] w1(2) by simp
  moreover have "conns w' = (conns w)(c \<mapsto> t)" using more_conns(1) [OF w'(3)] w1(8,9) by (intro ext) auto
  moreover have name: "conn_name t = connName v (nextConnId v)" "conn_loop t = next_loop v"
    using w1(10) by (simp_all add: new_connection_def)
  moreover have "connName v' = connName v" using w1(4,5) by (intro ext) (simp add: connName_def)
  then have "server_wf addr v'"
    using reg_wf_update(2) [OF wf id, of c] wf w1(3,5,6,7) by (simp add: server_wf_def)
  moreover have "map_of (connections v') = (map_of (connections v))(conn_name t \<mapsto> c)"
    unfolding w1(6) name by (rule update_conv')
  ultimately show ?thesis using reg_wf_update(1) [OF wf id] w'(2,4,5) w1(10-13) by auto
qed

lemma accepted_sim:
  assumes R: "registry_sim addr S w" and ok: "server_event_ok (Accepted c ch f peer) w"
  shows "\<exists>w'. newConnection K CB c ch f peer w = Inr w' \<and> registry_sim addr (insert c S) w'"
proof -
  from R obtain v where v: "server w = Some v" "server_wf addr v"
      "\<And>name d. map_of (connections v) name = Some d \<Longrightarrow> d \<in> S \<and> registered v w name d"
      "\<And>d. d \<in> S \<Longrightarrow> \<exists>name. registered v w name d" by (rule registry_simE) blast
  from ok v(1) obtain el where pre: "conns w c = None" "0 \<le> f" "nextConnId v < 2 ^ 31 - 1"
      "loops w (next_loop v) = Some el" "\<not> isInLoopThread el w" by (auto split: option.splits)
  from newConnection_queued [OF v(1,2) pre(3,2,4,5), of K CB c ch peer] obtain w' v' t where
    w': "newConnection K CB c ch f peer w = Inr w'" "server w' = Some v'" "server_wf addr v'"
      "conns w' = (conns w)(c \<mapsto> t)" "conn_loop t = next_loop v"
      "map_of (connections v') = (map_of (connections v))(conn_name t \<mapsto> c)" "map_of (connections v) (conn_name t) = None"
      "loops w' = (loops w)(next_loop v \<mapsto> el\<lparr>pendingFunctors := pendingFunctors el @ [ConnectionEstablished c]\<rparr>)"
    by blast
  have new: "registered v' w' (conn_name t) c" using w'(4-6,8) by (simp add: registered_def)
  have old: "registered v' w' name d" if "registered v w name d" for name d
  proof -
    from that obtain u where u: "map_of (connections v) name = Some d" "conns w d = Some u" "conn_name u = name"
        "loops w (conn_loop u) \<noteq> None" by (auto simp: registered_def)
    then have "d \<noteq> c" "name \<noteq> conn_name t" using pre(1) w'(7) by auto
    then show ?thesis using u w'(4,6,8) by (simp add: registered_def)
  qed
  have "registry_sim addr (insert c S) w'"
    unfolding registry_sim_def
  proof (intro exI [of _ v'] conjI allI impI ballI)
    fix name d assume m: "map_of (connections v') name = Some d"
    show "d \<in> insert c S" "registered v' w' name d"
      using m new old v(3) unfolding w'(6) by (auto split: if_splits)
  next
    fix d assume "d \<in> insert c S"
    then show "\<exists>name. registered v' w' name d" using new old v(4) by blast
  qed (rule w'(2), rule w'(3))
  with w'(1) show ?thesis by blast
qed

lemma removed_sim:
  assumes R: "registry_sim addr S w" and ok: "server_event_ok (Removed c) w"
  shows "\<exists>w'. removeConnectionInLoop K c w = Inr w' \<and> registry_sim addr (S - {c}) w'"
proof -
  from R obtain v where v: "server w = Some v" "server_wf addr v"
      "\<And>name d. map_of (connections v) name = Some d \<Longrightarrow> d \<in> S \<and> registered v w name d"
      "\<And>d. d \<in> S \<Longrightarrow> \<exists>name. registered v w name d" by (rule registry_simE) blast
  from ok v(1) obtain t where t: "conns w c = Some t" "map_of (connections v) (conn_name t) = Some c"
    by (auto split: option.splits)
  from v(3) [OF t(2)] t(1) obtain el where el: "loops w (conn_loop t) = Some el" by (auto simp: registered_def)
  from removeConnectionInLoop_ok [OF v(1,2) t(1) el, of K] obtain w' v' where
    w': "removeConnectionInLoop K c w = Inr w'" "server w' = Some v'" "server_wf addr v'"
      "map_of (connections v') = (map_of (connections v))(conn_name t := None)" "conns w' = conns w"
      "loops w' = (loops w)(conn_loop t \<mapsto> el\<lparr>pendingFunctors := pendingFunctors el @ [ConnectionDestroyed c]\<rparr>)"
    by blast
  have keep: "registered v' w' name d \<longleftrightarrow> registered v w name d \<and> d \<noteq> c" for name d
    using w'(4-6) t el by (auto simp: registered_def)
  have "registry_sim addr (S - {c}) w'"
    unfolding registry_sim_def
  proof (intro exI [of _ v'] conjI allI impI ballI)
    fix name d assume "map_of (connections v') name = Some d"
    then have m: "map_of (connections v) name = Some d" "name \<noteq> conn_name t"
      unfolding w'(4) by (auto split: if_splits)
    then have "d \<noteq> c" using v(3) [OF m(1)] t(1) by (auto simp: registered_def)
    then show "d \<in> S - {c}" "registered v' w' name d" using v(3) [OF m(1)] keep by auto
  next
    fix d assume "d \<in> S - {c}"
    then show "\<exists>name. registered v' w' name d" using v(4) keep by blast
  qed (rule w'(2), rule w'(3))
  with w'(1) show ?thesis by blast
qed

interpretation sr: op_simulation server_event_ok "server_step K CB" live_step "registry_sim addr"
  for K :: "'k kernel" and CB :: "('k, 'm) sworld_scheme callbacks" and addr
proof
  fix S e and w :: "('k, 'm) sworld_scheme"
  assume "registry_sim addr S w" "server_event_ok e w"
  note R = this
  show "\<exists>w'. server_step K CB e w = Inr w' \<and> registry_sim addr (live_step e S) w'"
  proof (cases e)
    case (Accepted c ch f peer)
    then show ?thesis using accepted_sim [OF R(1), of c ch f peer K CB] R(2) by simp
  next
    case (Removed c)
    then show ?thesis using removed_sim [OF R(1), of c K] R(2) by simp
  qed
qed

section \<open>Property\<close>

text \<open>
  C17. The server's map is the set of live connections, for a server whose pool threads take the connections: from a
  well-formed server without connections, every
  sequence of accepted and removed connections in which each loop whose turn it is runs in another thread than the
  server's, the connection number stays below its overflow and only connections that the map holds at that time are
  removed, runs to the end, keeps the server well formed, and
  leaves in the map exactly the connections accepted and not removed, each under its own name: no
  name clashes, and a removal takes out no other connection.
\<close>

theorem server_registry:
  assumes v: "server w = Some v" and wf: "server_wf addr v" and none: "connections v = []"
    and fits: "run_fits server_event_ok (server_step K CB) es w"
  shows "\<exists>w' v'. fold_r (server_step K CB) es w = Inr w' \<and> server w' = Some v' \<and> server_wf addr v' \<and>
     ran (map_of (connections v')) = fold live_step es {} \<and>
     (\<forall>name c. map_of (connections v') name = Some c \<longrightarrow> (\<exists>t. conns w' c = Some t \<and> conn_name t = name))"
proof -
  have "registry_sim addr {} w" using v wf none by (simp add: registry_sim_def)
  from sr.sim_run [OF this fits] obtain w' where
    w': "fold_r (server_step K CB) es w = Inr w'" "registry_sim addr (fold live_step es {}) w'" by blast
  from w'(2) obtain v' where v': "server w' = Some v'" "server_wf addr v'"
      "\<And>name d. map_of (connections v') name = Some d \<Longrightarrow> d \<in> fold live_step es {} \<and> registered v' w' name d"
      "\<And>d. d \<in> fold live_step es {} \<Longrightarrow> \<exists>name. registered v' w' name d" by (rule registry_simE) blast
  have "ran (map_of (connections v')) = fold live_step es {}"
    using v'(3,4) unfolding ran_def registered_def by blast
  moreover have "\<forall>name c. map_of (connections v') name = Some c \<longrightarrow> (\<exists>t. conns w' c = Some t \<and> conn_name t = name)"
    using v'(3) by (auto simp: registered_def)
  ultimately show ?thesis using w'(1) v'(1,2) by blast
qed

text \<open>The server of the examples, called from a thread that is not its loop's.\<close>

definition demo_remote :: "sim sworld" where
  "demo_remote = demo_sworld\<lparr>cur_thread := 8\<rparr>"

lemma demo_remote_fields:
  "server demo_remote = Some demo_server" "loops demo_remote (next_loop demo_server) = Some demo_cloop"
  "conns demo_remote 3 = None" "\<not> isInLoopThread demo_cloop demo_remote" "nextConnId demo_server < 2 ^ 31 - 1"
  "connections demo_server = []"
  by (simp_all add: demo_remote_def demo_sworld_fields demo_server_def next_loop_def getAllLoops_def
      mk_EventLoopThreadPool_def isInLoopThread_def tid_of_def cacheTid_def Let_def demo_cloop_def demo_loop_def)

lemma demo_remote_fits:
  "run_fits server_event_ok (server_step sim_kernel quiet_callbacks)
     [Accepted 3 4 8 (InetAddress_of zero_sockaddr), Removed 3] demo_remote"
proof -
  note d = demo_remote_fields
  from newConnection_queued [OF d(1) demo_server_wf d(5) _ d(2,4),
      of 8 sim_kernel quiet_callbacks 3 4 "InetAddress_of zero_sockaddr"]
  obtain w' v' t where "newConnection sim_kernel quiet_callbacks 3 4 8 (InetAddress_of zero_sockaddr) demo_remote = Inr w'"
      "server w' = Some v'" "conns w' = (conns demo_remote)(3 \<mapsto> t)"
      "map_of (connections v') = (map_of (connections demo_server))(conn_name t \<mapsto> 3)" by auto
  then show ?thesis using d by (simp split: sum.split)
qed

theorem server_registry_witness:
  "\<exists>w' v'. fold_r (server_step sim_kernel quiet_callbacks)
        [Accepted 3 4 8 (InetAddress_of zero_sockaddr), Removed 3] demo_remote = Inr w' \<and>
     server w' = Some v' \<and> ran (map_of (connections v')) = {}"
  using server_registry [OF demo_remote_fields(1) demo_server_wf demo_remote_fields(6) demo_remote_fits] by fastforce

end
