(* ===== verification/LoopPass.thy ===== *)
theory LoopPass
  imports TcpServer
begin

text \<open>
  One pass of a loop that serves a connection: the poller reports an event on the connection's channel,
  the channel calls the connection's handler, the pending functors run. Composes the poller, the
  channel, the loop, the connection and the server.
\<close>

section \<open>Polling\<close>

lemma loop_ok_polled:
  assumes ok: "loop_ok interest l w" and el: "loops w l = Some el" "loop_poller el = Some p"
    and c: "chans w i = Some ch"
    and w': "loops w' = (loops w)(l \<mapsto> el')" "loop_poller el' = Some p'" "chans w' = (chans w)(i \<mapsto> set_revents r ch)"
    and p': "po_channels p' = po_channels p" "ownerLoop p' = ownerLoop p" "epollfd p' = epollfd p"
    and il: "\<And>ep. interest ep (os (wsys w')) = interest ep (os (wsys w))"
  shows "loop_ok interest l w'"
proof -
  have "loop_ok interest l (put_chan i (set_revents r ch) w)"
    by (rule loop_ok_put_chan [OF ok c]) (simp_all add: set_revents_def)
  then obtain el0 p0 where p0: "loops w l = Some el0" "loop_poller el0 = Some p0" "ownerLoop p0 = l"
      "poller_wf ((chans w)(i \<mapsto> set_revents r ch), p0, wsys w)"
      "interest_wf interest ((chans w)(i \<mapsto> set_revents r ch), p0, wsys w)"
    by (rule loop_okE) (simp add: put_chan_def)
  then have "p0 = p" using el by simp
  with p0 w' p' il show ?thesis
    by (auto simp: loop_ok_def index_wf_def map_wf_def)
qed

text \<open>A wait that reports one event, on the channel of the connection.\<close>

definition reports :: "'k kernel \<Rightarrow> epoll_poller \<Rightarrow> chan_id \<Rightarrow> c_int \<Rightarrow> 'k \<Rightarrow> 'k \<Rightarrow> bool" where
  "reports K p i r k k' \<longleftrightarrow> (\<exists>e. sys_epoll_wait K (epollfd p) (length (po_events p)) kPollTimeoutMs k =
     ((1, e, [\<lparr>ev_events = r, ev_ptr = i\<rparr>]), k'))"

lemma poll_view:
  assumes K: "kernel_ok K interest sent" "epoll_wait_contract K" and v: "conn_view interest c t ch el w"
    and p: "loop_poller el = Some p" and wait: "reports K p (conn_channel t) r (os (wsys w)) k'"
  shows "\<exists>w1 p' now. loop_poll K (conn_loop t) w = Inr w1 \<and>
     conn_view interest c t (set_revents r ch)
       (el\<lparr>loop_poller := Some p', activeChannels := [conn_channel t], pollReturnTime := now\<rparr>) w1 \<and>
     world.more w1 = world.more w \<and> cur_thread w1 = cur_thread w \<and> cachedTid w1 = cachedTid w \<and> os (wsys w1) = k' \<and>
     sent g k' = sent g (os (wsys w))"
proof -
  let ?ev = "\<lparr>ev_events = r, ev_ptr = conn_channel t\<rparr>"
  from wait obtain e where call: "sys_epoll_wait K (epollfd p) (length (po_events p)) kPollTimeoutMs (os (wsys w)) =
      ((1, e, [?ev]), k')" unfolding reports_def by blast
  have t: "chans w (conn_channel t) = Some ch" "loops w (conn_loop t) = Some el" "loop_ok interest (conn_loop t) w"
    using v by (simp_all add: conn_view_def)
  have one: "(0 :: int) < 1" and ptrs: "\<forall>ev \<in> set [?ev]. chans w (ev_ptr ev) \<noteq> None" using t(1) by simp_all
  from poll_events [OF K(2) call one ptrs, of "[]"] obtain cs' p' where
    poll: "EPollPoller_poll K kPollTimeoutMs [] (chans w, p, wsys w) =
        Inr (Timestamp_now (sys_time K k'), [conn_channel t], (cs', p', (wsys w)\<lparr>os := k'\<rparr>))"
      "fillActiveChannels [?ev] (chans w) [] = Inr (cs', [conn_channel t])"
      "po_channels p' = po_channels p" "ownerLoop p' = ownerLoop p" "epollfd p' = epollfd p" by auto
  have cs: "cs' = (chans w)(conn_channel t \<mapsto> set_revents r ch)" using poll(2) t(1) by simp
  let ?el = "el\<lparr>loop_poller := Some p', activeChannels := [conn_channel t],
      pollReturnTime := Timestamp_now (sys_time K k')\<rparr>"
  let ?w1 = "put_loop (conn_loop t) ?el (w\<lparr>chans := cs', wsys := (wsys w)\<lparr>os := k'\<rparr>\<rparr>)"
  have il: "interest ep k' = interest ep (os (wsys w))" for ep
    using epoll_frameD(7) [OF kernel_okD(3) [OF K(1)], of ep "epollfd p" "length (po_events p)" kPollTimeoutMs "os (wsys w)"]
      call by simp
  have snt: "sent g k' = sent g (os (wsys w))"
    using stream_otherD(4) [OF kernel_okD(4) [OF K(1)], of g "epollfd p" "length (po_events p)" kPollTimeoutMs "os (wsys w)"]
      call by simp
  have "loop_ok interest (conn_loop t) ?w1"
    by (rule loop_ok_polled [OF t(3,2) p t(1), of _ ?el p' r]) (simp_all add: cs poll(3-5) il)
  then have "conn_view interest c t (set_revents r ch) ?el ?w1"
    using v by (simp add: conn_view_def cs set_revents_def put_loop_def)
  moreover have "loop_poll K (conn_loop t) w = Inr ?w1"
    using t(2) p poll(1) by (simp add: loop_poll_def del: EPollPoller_poll.simps)
  ultimately show ?thesis using snt by (intro exI [of _ ?w1] exI [of _ p'] exI) (auto simp: put_loop_def)
qed

section \<open>Handling a readable event\<close>

lemma handleEvent_readable:
  assumes "getc w = Some ch" "ch_tied ch" "ch_tie ch = Some c" "alive c w" "ch_revents ch = EPOLLIN"
    and "readCallback ch = Some h" "disp h w = Inr w'" "getc w' = Some ch'" "ch_revents ch' = EPOLLIN"
  shows "handleEvent getc alive disp w = Inr w'"
  using assms
  by (simp add: handleEvent_def handleEventWithGuard_def call_if_def wants_close_def wants_error_def wants_read_def
      wants_write_def event_defs)

lemma loop_iter_one:
  assumes poll: "loop_poll K l w = Inr w1" and el: "loops w1 l = Some el" "activeChannels el = [i]"
    and ev: "handleEvent (\<lambda>v. chans v i) alive (disp (pollReturnTime el)) w1 = Inr w2"
  shows "loop_iter K disp alive run l w = doPendingFunctors run l w2"
  using assms by (simp add: loop_iter_def)

section \<open>Running the functors\<close>

lemma put_loop_view:
  assumes v: "conn_view interest c t ch el w" and el': "loop_poller el' = loop_poller el" "wakeupFd el' = wakeupFd el"
  shows "conn_view interest c t ch el' (put_loop (conn_loop t) el' w)"
  using v el' loop_ok_cong [of interest "conn_loop t" w "put_loop (conn_loop t) el' w"] by (simp add: conn_view_def)

section \<open>A concrete readable connection\<close>

text \<open>
  The demonstration server's connection with its channel tied and reported readable; \<open>bs\<close> waits in the
  socket.
\<close>

definition demo_ready :: "tcp_connection \<Rightarrow> bool" where
  "demo_ready t \<longleftrightarrow> conn_channel t = 1 \<and> conn_loop t = 0 \<and> conn_socket t = \<lparr>sockfd = 5\<rparr> \<and>
     inputBuffer t = demo_buffer [] \<and> outputBuffer t = demo_buffer []"

definition demo_ready_world :: "tcp_connection \<Rightarrow> byte list \<Rightarrow> sim sworld" where
  "demo_ready_world t bs = put_conn 0 t (put_chan 1 (tie 0 (demo_chan kReadEvent))
     (put_sys ((wsys demo_sworld)\<lparr>os := (os (wsys demo_sworld))\<lparr>sim_in := bs,
        sim_ready := [\<lparr>ev_events = EPOLLIN, ev_ptr = 1\<rparr>]\<rparr>\<rparr>) demo_sworld))"

abbreviation demo_ready_poller :: epoll_poller where
  "demo_ready_poller \<equiv>
     \<lparr>ownerLoop = 0, po_channels = (\<lambda>_. None)(5 \<mapsto> 1), epollfd = 9, po_events = replicate 16 zero_event\<rparr>"

lemma demo_ready_view:
  assumes "demo_ready t"
  shows "conn_view sim_watch 0 t (tie 0 (demo_chan kReadEvent)) demo_cloop (demo_ready_world t bs)"
proof -
  let ?w = "put_sys ((wsys demo_sworld)\<lparr>os := (os (wsys demo_sworld))\<lparr>sim_in := bs,
        sim_ready := [\<lparr>ev_events = EPOLLIN, ev_ptr = 1\<rparr>]\<rparr>\<rparr>) demo_sworld"
  have "loop_ok sim_watch 0 ?w" by (rule loop_ok_cong [OF demo_sworld_ok]) simp_all
  then have "loop_ok sim_watch 0 (put_chan 1 (tie 0 (demo_chan kReadEvent)) ?w)"
    by (rule loop_ok_put_chan) (simp_all add: demo_sworld_fields)
  then have "loop_ok sim_watch 0 (demo_ready_world t bs)"
    unfolding demo_ready_world_def by (rule loop_ok_cong) simp_all
  moreover have "ch_loop (demo_chan kReadEvent) = 0"
    by (simp add: demo_chan_def conn_channel_init_def mk_Channel_def setReadCallback_def setWriteCallback_def
        setCloseCallback_def setErrorCallback_def)
  ultimately show ?thesis
    using demo_send_ok(8) [OF refl] assms
    by (simp add: conn_view_def demo_ready_def demo_ready_world_def demo_sworld_fields demo_cloop_def demo_loop_def)
qed

lemma demo_ready_facts:
  assumes t: "demo_ready t"
  shows "conn_view sim_watch 0 t (tie 0 (demo_chan kReadEvent)) demo_cloop (demo_ready_world t bs)"
    and "isInLoopThread demo_cloop (demo_ready_world t bs)" "pendingFunctors demo_cloop = []"
    and "ch_tied (tie 0 (demo_chan kReadEvent))" "ch_tie (tie 0 (demo_chan kReadEvent)) = Some 0"
      "readCallback (tie 0 (demo_chan kReadEvent)) = Some (ConnHandleRead 0)"
    and "readerIndex (inputBuffer t) = KCheapPrend" "length (buf_data (inputBuffer t)) < 2 ^ 62"
    and "sim_in (os (wsys (demo_ready_world t bs))) = bs"
    and "loop_poller demo_cloop = Some demo_ready_poller"
    and "reports sim_kernel demo_ready_poller (conn_channel t) EPOLLIN (os (wsys (demo_ready_world t bs)))
      ((os (wsys (demo_ready_world t bs)))\<lparr>sim_ready := []\<rparr>)"
proof -
  show "conn_view sim_watch 0 t (tie 0 (demo_chan kReadEvent)) demo_cloop (demo_ready_world t bs)"
    by (rule demo_ready_view [OF t])
  show "isInLoopThread demo_cloop (demo_ready_world t bs)" "pendingFunctors demo_cloop = []"
    "loop_poller demo_cloop = Some demo_ready_poller"
    by (simp_all add: demo_ready_world_def demo_sworld_fields isInLoopThread_def tid_of_def cacheTid_def Let_def
        demo_cloop_def demo_loop_def)
  show "ch_tied (tie 0 (demo_chan kReadEvent))" "ch_tie (tie 0 (demo_chan kReadEvent)) = Some 0"
    "readCallback (tie 0 (demo_chan kReadEvent)) = Some (ConnHandleRead 0)"
    by (simp_all add: tie_def demo_chan_def conn_channel_init_def setReadCallback_def setWriteCallback_def
        setCloseCallback_def setErrorCallback_def)
  show "readerIndex (inputBuffer t) = KCheapPrend" "length (buf_data (inputBuffer t)) < 2 ^ 62"
    using t by (simp_all add: demo_ready_def)
  show "sim_in (os (wsys (demo_ready_world t bs))) = bs" by (simp add: demo_ready_world_def)
  show "reports sim_kernel demo_ready_poller (conn_channel t) EPOLLIN (os (wsys (demo_ready_world t bs)))
      ((os (wsys (demo_ready_world t bs)))\<lparr>sim_ready := []\<rparr>)"
    using t by (simp add: reports_def sim_kernel_def demo_ready_world_def demo_ready_def)
qed

end
