(* ===== verification/ServerLife.thy ===== *)
theory ServerLife
  imports LoopPass
begin

text \<open>
  The end of a connection across the components: the peer closes, the loop's pass reads end of file,
  the connection goes down, the server takes it out of its map, and the functor it queued takes the
  channel out of the poller. Also the server's configuration and destruction.
\<close>

section \<open>Closing\<close>

lemma put_server_view:
  "conn_view interest c t ch el w \<Longrightarrow> conn_view interest c t ch el (put_server v w)"
  using loop_ok_cong [of interest "conn_loop t" w "put_server v w"] by (simp add: conn_view_def)

lemma isInLoopThread_put_server [simp]: "isInLoopThread el (put_server v w) = isInLoopThread el w"
  by (rule isInLoopThread_cong) simp_all

text \<open>\<open>serves\<close>: the connection belongs to the server, which lives in the same loop and closes it through its map.\<close>

definition serves :: "tcp_server \<Rightarrow> ('k, 'm) sworld_scheme callbacks \<Rightarrow> conn_id \<Rightarrow> tcp_connection \<Rightarrow> bool" where
  "serves v U c t \<longleftrightarrow> srv_loop v = conn_loop t \<and> conn_closeCallback t = Some removeConnection_ref \<and>
     (\<exists>cb. connectionCallback t = Some cb \<and> (\<forall>u. call_connection U cb c u = Inr u))"

lemma handleClose_removes:
  assumes K: "kernel_ok K interest sent" and v: "conn_view interest c t ch el w" and th: "isInLoopThread el w"
    and s: "server w = Some v" "server_wf addr v" "serves v U c t"
  shows "\<exists>w' t' n p. conn_handleClose K (server_callbacks K U) c w = Inr w' \<and> n \<noteq> kNew \<and>
     t' = set_conn_state KDisconnected t \<and>
     conn_view interest c t' (set_index n (request DisableAll ch))
       (el\<lparr>loop_poller := Some p, pendingFunctors := pendingFunctors el @ [ConnectionDestroyed c]\<rparr>) w' \<and>
     server w' = Some (v\<lparr>connections := AList.delete (conn_name t) (connections v)\<rparr>)"
proof -
  let ?t = "set_conn_state KDisconnected t"
  let ?v = "v\<lparr>connections := AList.delete (conn_name t) (connections v)\<rparr>"
  obtain w1 n p where w1: "n \<noteq> kNew"
      "Channel_request K DisableAll (conn_channel t) (put_conn c ?t w) = Inr w1"
      "conn_view interest c ?t (set_index n (request DisableAll ch)) (el\<lparr>loop_poller := Some p\<rparr>) w1"
      "cworld.more w1 = cworld.more w" "isInLoopThread (el\<lparr>loop_poller := Some p\<rparr>) w1 = isInLoopThread el w"
    using disable_view [OF K v] by blast
  let ?el = "el\<lparr>loop_poller := Some p\<rparr>"
  have t: "conns w c = Some t" "conns w1 c = Some ?t" "loops w1 (conn_loop t) = Some ?el"
    using v w1(3) by (simp_all add: conn_view_def)
  have nm: "conn_name ?t = conn_name t" by (simp add: set_conn_state_def)
  have s1: "server w1 = Some v" using cmore_server [OF w1(4)] s(1) by simp
  have v2: "conn_view interest c ?t (set_index n (request DisableAll ch)) ?el (put_server ?v w1)"
    by (rule put_server_view [OF w1(3)])
  from queueInLoop_view [OF K v2, of "ConnectionDestroyed c"] obtain w' where
    w': "queueInLoop K (conn_loop t) (ConnectionDestroyed c) (put_server ?v w1) = Inr w'"
      "conn_view interest c ?t (set_index n (request DisableAll ch))
         (?el\<lparr>pendingFunctors := pendingFunctors ?el @ [ConnectionDestroyed c]\<rparr>) w'" by auto
  have "loops (put_server ?v w1) (conn_loop t) = Some ?el" using t(3) by simp
  from queueInLoop_ok [OF this, of K "ConnectionDestroyed c"] w'(1)
  have "world.more w' = world.more (put_server ?v w1)" by auto
  then have s': "server w' = Some ?v" using more_server by fastforce
  have rm: "removeConnection K c w1 = Inr w'"
    using s1 s(3) t(2,3) w1(5) th w'(1)
    by (simp add: removeConnection_def removeConnectionInLoop_def runInLoop_def toIpPort_eq serves_def nm)
  obtain cb where cb: "connectionCallback t = Some cb" "\<And>u. call_connection U cb c u = Inr u"
      "conn_closeCallback t = Some removeConnection_ref" using s(3) by (auto simp: serves_def)
  have "conn_handleClose K (server_callbacks K U) c w = Inr w'"
    using t(1,2) w1(2) cb rm by (simp add: conn_handleClose_def server_callbacks_def invoke_def)
  with w1(1) w'(2) s' show ?thesis by (intro exI [of _ w'] exI [of _ ?t] exI [of _ n] exI [of _ p]) simp
qed

text \<open>The functor runs alone; the loop's own flag is set and cleared around it.\<close>

lemma destroyed_functor:
  assumes K: "kernel_ok K interest sent" and v: "conn_view interest c t ch el w"
    and down: "conn_state t = KDisconnected" and pend: "pendingFunctors el = [ConnectionDestroyed c]"
  shows "\<exists>w'. doPendingFunctors (run_task K CB user) (conn_loop t) w = Inr w' \<and>
     watched interest (conn_channel t) w' = None \<and> loop_hasChannel (conn_loop t) (conn_channel t) w' = Inr False \<and>
     conns w' = conns w \<and> server w' = server w"
proof -
  let ?el1 = "el\<lparr>callingPendingFunctors := True, pendingFunctors := []\<rparr>"
  let ?w1 = "put_loop (conn_loop t) ?el1 w"
  have v1: "conn_view interest c t ch ?el1 ?w1" by (rule put_loop_view [OF v]) simp_all
  from remove_view [OF K v1] obtain w2 where w2: "Channel_remove K (conn_channel t) ?w1 = Inr w2"
      "loop_hasChannel (conn_loop t) (conn_channel t) w2 = Inr False" "watched interest (conn_channel t) w2 = None"
      "conns w2 = conns ?w1" "world.more w2 = world.more ?w1" by blast
  from w2(2) obtain el2 where el2: "loops w2 (conn_loop t) = Some el2"
    by (cases "loops w2 (conn_loop t)") (auto simp: loop_hasChannel_def)
  let ?w' = "put_loop (conn_loop t) (el2\<lparr>callingPendingFunctors := False\<rparr>) w2"
  have t: "conns w c = Some t" "loops w (conn_loop t) = Some el" using v by (simp_all add: conn_view_def)
  have "connectionDestroyed K CB c ?w1 = Inr w2" using t(1) down w2(1) by (simp add: connectionDestroyed_def)
  then have "doPendingFunctors (run_task K CB user) (conn_loop t) w = Inr ?w'"
    using t(2) pend el2 by (simp add: doPendingFunctors_def Let_def)
  moreover have "watched interest (conn_channel t) ?w' = None"
    using w2(3) watched_put_loop [OF el2] by simp
  moreover have "loop_hasChannel (conn_loop t) (conn_channel t) ?w' = Inr False"
    using w2(2) el2 by (simp add: loop_hasChannel_def split: option.splits)
  moreover have "conns ?w' = conns w" "server ?w' = server w"
    using w2(4) more_server [OF w2(5)] by simp_all
  ultimately show ?thesis by blast
qed

section \<open>Properties\<close>

text \<open>
  C9. When the peer closes, one pass of the loop ends the connection, if the server lives in the connection's own
  loop (a server without pool threads), the connection is well formed and its channel tied to it, no functor is pending, the input was consumed, the connection callback leaves
  the program state alone and the kernel refuses no epoll_ctl: a pass in which
  the poller reports the connection's channel, and only it, readable and the read finds end of file returns; the
  connection is \<^verbatim>\<open>kDisconnected\<close>, gone from the server's map (and no other with it), its channel is not
  registered with the poller and its descriptor is not watched by the kernel.
\<close>

theorem peer_close_removes:
  assumes K: "kernel_ok K interest sent" "readv_contract K" "epoll_wait_contract K"
    and v: "conn_view interest c t ch el w" and th: "isInLoopThread el w" and pend: "pendingFunctors el = []"
    and tied: "ch_tied ch" "ch_tie ch = Some c" "readCallback ch = Some (ConnHandleRead c)"
    and front: "readerIndex (inputBuffer t) = KCheapPrend" and len: "length (buf_data (inputBuffer t)) < 2 ^ 62"
    and s: "server w = Some v" "server_wf addr v" "serves v U c t"
    and p: "loop_poller el = Some p" and wait: "reports K p (conn_channel t) EPOLLIN (os (wsys w)) k1"
    and eof: "sys_readv K (ch_fd ch) (input_iov t) k1 = ((0, e, []), k2)"
  shows "\<exists>w' v' t'. loop_iter K (dispatch K (server_callbacks K U) alloc ia) conn_alive
        (run_task K (server_callbacks K U) user) (conn_loop t) w = Inr w' \<and>
     conns w' c = Some t' \<and> conn_state t' = KDisconnected \<and> server w' = Some v' \<and> server_wf addr v' \<and>
     map_of (connections v') = (map_of (connections v))(conn_name t := None) \<and>
     loop_hasChannel (conn_loop t) (conn_channel t) w' = Inr False \<and> watched interest (conn_channel t) w' = None"
proof -
  let ?CB = "server_callbacks K U" and ?ch = "set_revents EPOLLIN ch"
  obtain w1 p1 now where w1: "loop_poll K (conn_loop t) w = Inr w1"
      "conn_view interest c t ?ch
         (el\<lparr>loop_poller := Some p1, activeChannels := [conn_channel t], pollReturnTime := now\<rparr>) w1"
      "world.more w1 = world.more w" "cur_thread w1 = cur_thread w" "cachedTid w1 = cachedTid w" "os (wsys w1) = k1"
    using poll_view [OF K(1,3) v p wait] by blast
  let ?el1 = "el\<lparr>loop_poller := Some p1, activeChannels := [conn_channel t], pollReturnTime := now\<rparr>"
  have eof1: "sys_readv K (ch_fd ?ch) (input_iov t) (os (wsys w1)) = ((0, e, []), k2)"
    using eof w1(6) by (simp add: set_revents_def)
  have len1: "length (buf_data (inputBuffer t)) + length ([] :: byte list) < 2 ^ 62" using len by simp
  obtain w2 b where w2: "w2 = put_conn c (t\<lparr>inputBuffer := b\<rparr>) (put_sys ((wsys w1)\<lparr>os := k2\<rparr>) w1)"
      "conn_view interest c (t\<lparr>inputBuffer := b\<rparr>) ?ch ?el1 w2"
      "conn_handleRead K ?CB now c w1 = conn_handleClose K ?CB c w2"
    using handleRead_view [OF K(1,2) w1(2) front len1 eof1, of ?CB now] by auto
  have th2: "isInLoopThread ?el1 w2"
    using th isInLoopThread_cong [of ?el1 el w2 w] w1(4,5) unfolding w2(1) by simp
  have s2: "server w2 = Some v" "serves v U c (t\<lparr>inputBuffer := b\<rparr>)"
    using s(1,3) more_server [OF w1(3)] unfolding w2(1) by (simp_all add: serves_def)
  let ?v = "v\<lparr>connections := AList.delete (conn_name t) (connections v)\<rparr>"
  let ?t3 = "set_conn_state KDisconnected (t\<lparr>inputBuffer := b\<rparr>)"
  obtain w3 n p3 where w3: "conn_handleClose K ?CB c w2 = Inr w3"
      "conn_view interest c ?t3 (set_index n (request DisableAll ?ch))
         (?el1\<lparr>loop_poller := Some p3, pendingFunctors := [ConnectionDestroyed c]\<rparr>) w3" "server w3 = Some ?v"
    using handleClose_removes [OF K(1) w2(2) th2 s2(1) s(2) s2(2)] pend by auto
  have chans: "chans w1 (conn_channel t) = Some ?ch" "chans w3 (conn_channel t) = Some (set_index n (request DisableAll ?ch))"
      "loops w1 (conn_loop t) = Some ?el1" "conns w1 c = Some t"
    using w1(2) w3(2) by (simp_all add: conn_view_def)
  have "handleEvent (\<lambda>u. chans u (conn_channel t)) conn_alive (dispatch K ?CB alloc ia now) w1 = Inr w3"
    using chans tied w2(3) w3(1)
    by (intro handleEvent_readable [of _ _ ?ch c _ "ConnHandleRead c" _ _ "set_index n (request DisableAll ?ch)"])
      (simp_all add: set_revents_def conn_alive_def request_def set_index_def)
  then have iter: "loop_iter K (dispatch K ?CB alloc ia) conn_alive (run_task K ?CB user) (conn_loop t) w =
      doPendingFunctors (run_task K ?CB user) (conn_loop t) w3"
    by (intro loop_iter_one [OF w1(1) chans(3)]) simp_all
  have t3: "conn_loop ?t3 = conn_loop t" "conn_channel ?t3 = conn_channel t" "conns w3 c = Some ?t3"
    using w3(2) by (simp_all add: conn_view_def)
  from destroyed_functor [OF K(1) w3(2), of ?CB user] obtain w4 where
    "doPendingFunctors (run_task K ?CB user) (conn_loop t) w3 = Inr w4" "watched interest (conn_channel t) w4 = None"
    "loop_hasChannel (conn_loop t) (conn_channel t) w4 = Inr False" "conns w4 = conns w3" "server w4 = server w3"
    by auto
  then show ?thesis using iter t3 w3(3) server_wf_delete [OF s(2)]
    by (intro exI [of _ w4] exI [of _ ?v] exI [of _ ?t3]) (simp add: delete_conv')
qed

text \<open>A connection of the demonstration server at end of file.\<close>

definition demo_closing :: tcp_connection where
  "demo_closing = conn_setCloseCallback (Some removeConnection_ref) (demo_conn KConnected [])"

lemma demo_closing_ready: "demo_ready demo_closing"
  by (simp add: demo_ready_def demo_closing_def conn_setCloseCallback_def demo_conn_def)

theorem peer_close_removes_witness:
  "\<exists>w' v' t'. loop_iter sim_kernel (dispatch sim_kernel (server_callbacks sim_kernel quiet_callbacks) (\<lambda>_. (1, 2)) (\<lambda>_. 0))
        conn_alive (run_task sim_kernel (server_callbacks sim_kernel quiet_callbacks) (\<lambda>_. Inr)) 0
        (demo_ready_world demo_closing []) = Inr w' \<and>
     conns w' 0 = Some t' \<and> conn_state t' = KDisconnected \<and> server w' = Some v' \<and>
     map_of (connections v') ''c'' = None \<and> watched sim_watch 1 w' = None"
proof -
  let ?w = "demo_ready_world demo_closing []"
  note d = demo_ready_facts [OF demo_closing_ready]
  have f: "conn_name demo_closing = ''c''" "conn_channel demo_closing = 1" "conn_loop demo_closing = 0"
    by (simp_all add: demo_closing_def conn_setCloseCallback_def demo_conn_def)
  have s: "server ?w = Some demo_server" "serves demo_server quiet_callbacks 0 demo_closing"
    by (simp_all add: demo_ready_world_def demo_sworld_fields serves_def demo_server_def quiet_callbacks_def
        demo_closing_def conn_setCloseCallback_def demo_conn_def)
  have eof: "sys_readv sim_kernel (ch_fd (tie 0 (demo_chan kReadEvent))) (input_iov demo_closing)
      ((os (wsys ?w))\<lparr>sim_ready := []\<rparr>) = ((0, 0, []), (os (wsys ?w))\<lparr>sim_ready := [], sim_in := []\<rparr>)"
    by (simp add: sim_kernel_def d(9))
  from peer_close_removes [OF sim_kernel_ok sim_readv_contract sim_epoll_wait_contract d(1-6) d(7,8)
      s(1) demo_server_wf s(2) d(10,11) eof, of "\<lambda>_. (1, 2)" "\<lambda>_. 0" "\<lambda>_. Inr"]
  show ?thesis unfolding f by fastforce
qed

end
