(* ===== verification/LiveKernel.thy ===== *)
theory LiveKernel
  imports SimKernel
begin

text \<open>
  The concrete kernel with the books a whole program needs: descriptors are given out from 3 upwards and
  closed, a closed descriptor leaves every interest list, a wait takes the next event of \<open>sim_ready\<close> and reports it if
  its channel is watched.
\<close>

definition live_fresh :: "sim \<Rightarrow> int \<times> sim" where
  "live_fresh k =
     (int (sim_next k + 3),
      k\<lparr>sim_next := sim_next k + 1, sim_closed := removeAll (int (sim_next k + 3)) (sim_closed k)\<rparr>)"

definition live_reported :: "fd \<Rightarrow> sim \<Rightarrow> epoll_event \<Rightarrow> bool" where
  "live_reported ep k ev \<longleftrightarrow>
     list_ex (\<lambda>n. case sim_interest k ep (int n) of Some en \<Rightarrow> ev_ptr en = ev_ptr ev | None \<Rightarrow> False) [0..<sim_next k + 3]"

definition live_kernel :: "sim kernel" where
  "live_kernel = sim_kernel
     \<lparr>sys_close := (\<lambda>f k. k\<lparr>sim_closed := sim_closed k @ [f], sim_interest := (\<lambda>ep. (sim_interest k ep)(f := None))\<rparr>),
      sys_eventfd := (\<lambda>k. case live_fresh k of (f, k') \<Rightarrow> ((f, 0), k')),
      sys_epoll_create1 := (\<lambda>k. case live_fresh k of (f, k') \<Rightarrow>
          ((f, 0), k'\<lparr>sim_interest := (sim_interest k')(f := (\<lambda>_. None))\<rparr>)),
      sys_socket := (\<lambda>k. case live_fresh k of (f, k') \<Rightarrow> ((f, 0), k')),
      sys_accept4 := (\<lambda>f k. case live_fresh k of (r, k') \<Rightarrow> ((r, 0, zero_sockaddr), k')),
      sys_epoll_wait := (\<lambda>ep m t k. let evs = filter (live_reported ep k) (take (min m 1) (sim_ready k)) in
          ((int (length evs), 0, evs), k\<lparr>sim_ready := drop 1 (sim_ready k)\<rparr>))\<rparr>"

lemma live_calls:
  "sys_eventfd live_kernel k = ((int (sim_next k + 3), 0), snd (live_fresh k))"
  "sys_epoll_create1 live_kernel k = ((int (sim_next k + 3), 0), (snd (live_fresh k))
     \<lparr>sim_interest := (sim_interest k)(int (sim_next k + 3) := (\<lambda>_. None))\<rparr>)"
  "sys_socket live_kernel k = ((int (sim_next k + 3), 0), snd (live_fresh k))"
  "sys_accept4 live_kernel f k = ((int (sim_next k + 3), 0, zero_sockaddr), snd (live_fresh k))"
  "sys_epoll_ctl live_kernel = sim_ctl" "sys_bind live_kernel f a k = ((0, 0), k)" "sys_listen live_kernel f b k = ((0, 0), k)"
  "sys_setsockopt live_kernel f opt v k = ((0, 0), k)" "sys_getsockname live_kernel f k = ((0, 0, zero_sockaddr), k)"
  "sys_time live_kernel k = 0"
  "sys_epoll_wait live_kernel ep m t k = (let evs = filter (live_reported ep k) (take (min m 1) (sim_ready k)) in
     ((int (length evs), 0, evs), k\<lparr>sim_ready := drop 1 (sim_ready k)\<rparr>))"
  "sys_readv live_kernel f lens k = (let bs = take (sum_list lens) (sim_in k) in
     ((int (length bs), 0, bs), k\<lparr>sim_in := drop (sum_list lens) (sim_in k)\<rparr>))"
  by (simp_all add: live_kernel_def sim_kernel_def live_fresh_def)

definition sim_opened :: "sim \<Rightarrow> fd set" where
  "sim_opened k = {f. 3 \<le> f \<and> f < int (sim_next k + 3) \<and> f \<notin> set (sim_closed k)}"

abbreviation sim_watched :: "fd \<Rightarrow> sim \<Rightarrow> interest_list" where
  "sim_watched ep k \<equiv> sim_interest k ep"

end
