(* ===== verification/NetInvariant.thy ===== *)
theory NetInvariant
  imports EventLoop LiveKernel
begin

text \<open>
  The invariant of the objects below the connections: every loop of the program has a poller that
  agrees with the kernel, different loops have different epoll instances, different channels have
  different descriptors, all of them open, and an interest list names live channels of its loop
  only. The operations of channels and loops keep it and return, except for the exit of \<^verbatim>\<open>LOG_FATAL\<close> when the
  kernel refuses a resource.
\<close>

section \<open>Further documented behaviour of the system calls\<close>

text \<open>
  open(2), close(2): \<open>opened k\<close> is the set of open descriptors. A call that creates a descriptor returns
  one that was not open; close(2) frees one and drops it from every interest list; no other call
  changes the set.
\<close>

definition creates :: "('k \<Rightarrow> fd set) \<Rightarrow> 'k \<Rightarrow> int \<Rightarrow> 'k \<Rightarrow> bool" where
  "creates opened k r k' \<longleftrightarrow> (if r < 0 then opened k' = opened k else r \<notin> opened k \<and> opened k' = insert r (opened k))"

definition descriptor_contract :: "'k kernel \<Rightarrow> (fd \<Rightarrow> 'k \<Rightarrow> interest_list) \<Rightarrow> ('k \<Rightarrow> fd set) \<Rightarrow> bool" where
  "descriptor_contract K interest opened \<longleftrightarrow>
     (\<forall>k. creates opened k (fst (fst (sys_eventfd K k))) (snd (sys_eventfd K k))) \<and>
     (\<forall>k. creates opened k (fst (fst (sys_epoll_create1 K k))) (snd (sys_epoll_create1 K k))) \<and>
     (\<forall>k. creates opened k (fst (fst (sys_socket K k))) (snd (sys_socket K k))) \<and>
     (\<forall>f k. creates opened k (fst (fst (sys_accept4 K f k))) (snd (sys_accept4 K f k))) \<and>
     (\<forall>f k. opened (sys_close K f k) = opened k - {f} \<and>
        (\<forall>ep. ep \<noteq> f \<longrightarrow> interest ep (sys_close K f k) = (interest ep k)(f := None)))"

text \<open>A call leaves the open descriptors and the interest lists alone.\<close>

definition quiet :: "(fd \<Rightarrow> 'k \<Rightarrow> interest_list) \<Rightarrow> ('k \<Rightarrow> fd set) \<Rightarrow> 'k \<Rightarrow> 'k \<Rightarrow> bool" where
  "quiet interest opened k k' \<longleftrightarrow> opened k' = opened k \<and> (\<forall>ep. interest ep k' = interest ep k)"

definition quiet_contract :: "'k kernel \<Rightarrow> (fd \<Rightarrow> 'k \<Rightarrow> interest_list) \<Rightarrow> ('k \<Rightarrow> fd set) \<Rightarrow> bool" where
  "quiet_contract K interest opened \<longleftrightarrow>
     (\<forall>f bs k. quiet interest opened k (snd (sys_write K f bs k))) \<and>
     (\<forall>f k. quiet interest opened k (snd (sys_read8 K f k))) \<and>
     (\<forall>f lens k. quiet interest opened k (snd (sys_readv K f lens k))) \<and>
     (\<forall>ep m t k. quiet interest opened k (snd (sys_epoll_wait K ep m t k))) \<and>
     (\<forall>f a k. quiet interest opened k (snd (sys_bind K f a k))) \<and>
     (\<forall>f b k. quiet interest opened k (snd (sys_listen K f b k))) \<and>
     (\<forall>f k. quiet interest opened k (snd (sys_shutdown_wr K f k))) \<and>
     (\<forall>f opt v k. quiet interest opened k (snd (sys_setsockopt K f opt v k))) \<and>
     (\<forall>f k. quiet interest opened k (snd (sys_getsockopt_error K f k))) \<and>
     (\<forall>f k. quiet interest opened k (snd (sys_getsockname K f k))) \<and>
     (\<forall>ep op f ev k. opened (snd (sys_epoll_ctl K ep op f ev k)) = opened k) \<and>
     (\<forall>k ep. interest ep (snd (sys_eventfd K k)) = interest ep k) \<and>
     (\<forall>k ep. interest ep (snd (sys_socket K k)) = interest ep k) \<and>
     (\<forall>f k ep. interest ep (snd (sys_accept4 K f k)) = interest ep k) \<and>
     (\<forall>k ep. ep \<noteq> fst (fst (sys_epoll_create1 K k)) \<longrightarrow> interest ep (snd (sys_epoll_create1 K k)) = interest ep k)"

text \<open>
  epoll_wait(2) on a valid instance: the only error is \<^verbatim>\<open>EINTR\<close>, and the data of a reported event is
  the data of an entry of the interest list.
\<close>

definition epoll_report_contract :: "'k kernel \<Rightarrow> (fd \<Rightarrow> 'k \<Rightarrow> interest_list) \<Rightarrow> bool" where
  "epoll_report_contract K interest \<longleftrightarrow>
     (\<forall>ep m t k n e evs k'. sys_epoll_wait K ep m t k = ((n, e, evs), k') \<longrightarrow>
        (n < 0 \<longrightarrow> e = EINTR) \<and>
        (\<forall>ev \<in> set evs. \<exists>f en. interest ep k f = Some en \<and> ev_ptr ev = ev_ptr en))"

definition net_kernel :: "'k kernel \<Rightarrow> (fd \<Rightarrow> 'k \<Rightarrow> interest_list) \<Rightarrow> ('k \<Rightarrow> fd set) \<Rightarrow> bool" where
  "net_kernel K interest opened \<longleftrightarrow> epoll_ctl_contract K interest \<and> epoll_create_contract K interest \<and>
     epoll_wait_contract K \<and> epoll_report_contract K interest \<and> descriptor_contract K interest opened \<and>
     quiet_contract K interest opened"

lemma net_kernelD:
  assumes "net_kernel K interest opened"
  shows "epoll_ctl_contract K interest" "epoll_create_contract K interest" "epoll_wait_contract K"
    "epoll_report_contract K interest" "descriptor_contract K interest opened" "quiet_contract K interest opened"
  using assms by (simp_all add: net_kernel_def)

lemma quietD:
  assumes "net_kernel K interest opened"
  shows "quiet interest opened k (snd (sys_write K f bs k))" "quiet interest opened k (snd (sys_read8 K f k))"
    "quiet interest opened k (snd (sys_readv K f lens k))" "quiet interest opened k (snd (sys_epoll_wait K ep m t k))"
    "quiet interest opened k (snd (sys_bind K f a k))" "quiet interest opened k (snd (sys_listen K f b k))"
    "quiet interest opened k (snd (sys_shutdown_wr K f k))" "quiet interest opened k (snd (sys_setsockopt K f opt v k))"
    "quiet interest opened k (snd (sys_getsockopt_error K f k))" "quiet interest opened k (snd (sys_getsockname K f k))"
    "opened (snd (sys_epoll_ctl K ep op f ev k)) = opened k"
  using net_kernelD(6) [OF assms] by (simp_all add: quiet_contract_def)

lemma descriptorD:
  assumes "net_kernel K interest opened"
  shows "creates opened k (fst (fst (sys_eventfd K k))) (snd (sys_eventfd K k))"
    "creates opened k (fst (fst (sys_epoll_create1 K k))) (snd (sys_epoll_create1 K k))"
    "creates opened k (fst (fst (sys_socket K k))) (snd (sys_socket K k))"
    "creates opened k (fst (fst (sys_accept4 K f k))) (snd (sys_accept4 K f k))"
    "opened (sys_close K f k) = opened k - {f}"
    "ep \<noteq> f \<Longrightarrow> interest ep (sys_close K f k) = (interest ep k)(f := None)"
    "interest ep (snd (sys_eventfd K k)) = interest ep k" "interest ep (snd (sys_socket K k)) = interest ep k"
    "interest ep (snd (sys_accept4 K f k)) = interest ep k"
    "ep \<noteq> fst (fst (sys_epoll_create1 K k)) \<Longrightarrow> interest ep (snd (sys_epoll_create1 K k)) = interest ep k"
  using net_kernelD(5,6) [OF assms] by (simp_all add: descriptor_contract_def quiet_contract_def)

lemma quiet_refl: "quiet interest opened k k"
  by (simp add: quiet_def)

lemma quiet_trans: "quiet interest opened k k1 \<Longrightarrow> quiet interest opened k1 k2 \<Longrightarrow> quiet interest opened k k2"
  by (simp add: quiet_def)

section \<open>The invariant\<close>

definition loop_epoll :: "('k, 'm) world_scheme \<Rightarrow> loop_id \<Rightarrow> fd option" where
  "loop_epoll w l = Option.bind (loops w l) (\<lambda>el. map_option epollfd (loop_poller el))"

definition net_wf :: "(fd \<Rightarrow> 'k \<Rightarrow> interest_list) \<Rightarrow> ('k \<Rightarrow> fd set) \<Rightarrow> ('k, 'm) world_scheme \<Rightarrow> bool" where
  "net_wf interest opened w \<longleftrightarrow> cache_ok w \<and>
     (\<forall>l. loops w l \<noteq> None \<longrightarrow> loop_ok interest l w) \<and>
     (\<forall>l ep. loop_epoll w l = Some ep \<longrightarrow> ep \<in> opened (os (wsys w))) \<and>
     (\<forall>l l' ep. loop_epoll w l = Some ep \<and> loop_epoll w l' = Some ep \<longrightarrow> l = l') \<and>
     (\<forall>l ep f e. loop_epoll w l = Some ep \<and> interest ep (os (wsys w)) f = Some e \<longrightarrow>
        (\<exists>ch. chans w (ev_ptr e) = Some ch \<and> ch_loop ch = l \<and> ch_fd ch = f)) \<and>
     (\<forall>i ch. chans w i = Some ch \<longrightarrow> loops w (ch_loop ch) \<noteq> None \<and> ch_fd ch \<in> opened (os (wsys w))) \<and>
     (\<forall>i j ch ch'. chans w i = Some ch \<and> chans w j = Some ch' \<and> ch_fd ch = ch_fd ch' \<longrightarrow> i = j) \<and>
     (\<forall>l ep i ch. loop_epoll w l = Some ep \<and> chans w i = Some ch \<longrightarrow> ch_fd ch \<noteq> ep)"

lemma net_wfD:
  assumes "net_wf interest opened w"
  shows "cache_ok w" "loops w l \<noteq> None \<Longrightarrow> loop_ok interest l w"
    "loop_epoll w l = Some ep \<Longrightarrow> ep \<in> opened (os (wsys w))"
    "loop_epoll w l = Some ep \<Longrightarrow> loop_epoll w l' = Some ep \<Longrightarrow> l = l'"
    "loop_epoll w l = Some ep \<Longrightarrow> interest ep (os (wsys w)) f = Some e \<Longrightarrow>
       \<exists>ch. chans w (ev_ptr e) = Some ch \<and> ch_loop ch = l \<and> ch_fd ch = f"
    "chans w i = Some ch \<Longrightarrow> loops w (ch_loop ch) \<noteq> None" "chans w i = Some ch \<Longrightarrow> ch_fd ch \<in> opened (os (wsys w))"
    "chans w i = Some ch \<Longrightarrow> chans w j = Some ch' \<Longrightarrow> ch_fd ch = ch_fd ch' \<Longrightarrow> i = j"
    "loop_epoll w l = Some ep \<Longrightarrow> chans w i = Some ch \<Longrightarrow> ch_fd ch \<noteq> ep"
proof -
  note A = assms [unfolded net_wf_def]
  show "cache_ok w" "loops w l \<noteq> None \<Longrightarrow> loop_ok interest l w"
    "loop_epoll w l = Some ep \<Longrightarrow> ep \<in> opened (os (wsys w))"
    "chans w i = Some ch \<Longrightarrow> loops w (ch_loop ch) \<noteq> None" "chans w i = Some ch \<Longrightarrow> ch_fd ch \<in> opened (os (wsys w))"
    using A by simp_all
  show "loop_epoll w l = Some ep \<Longrightarrow> loop_epoll w l' = Some ep \<Longrightarrow> l = l'" using A by metis
  show "loop_epoll w l = Some ep \<Longrightarrow> interest ep (os (wsys w)) f = Some e \<Longrightarrow>
       \<exists>ch. chans w (ev_ptr e) = Some ch \<and> ch_loop ch = l \<and> ch_fd ch = f" using A by simp
  show "chans w i = Some ch \<Longrightarrow> chans w j = Some ch' \<Longrightarrow> ch_fd ch = ch_fd ch' \<Longrightarrow> i = j" using A by metis
  show "loop_epoll w l = Some ep \<Longrightarrow> chans w i = Some ch \<Longrightarrow> ch_fd ch \<noteq> ep" using A by metis
qed

lemma net_wfI:
  assumes "cache_ok w" and "\<And>l. loops w l \<noteq> None \<Longrightarrow> loop_ok interest l w"
    and "\<And>l ep. loop_epoll w l = Some ep \<Longrightarrow> ep \<in> opened (os (wsys w))"
    and "\<And>l l' ep. loop_epoll w l = Some ep \<Longrightarrow> loop_epoll w l' = Some ep \<Longrightarrow> l = l'"
    and "\<And>l ep f e. loop_epoll w l = Some ep \<Longrightarrow> interest ep (os (wsys w)) f = Some e \<Longrightarrow>
       \<exists>ch. chans w (ev_ptr e) = Some ch \<and> ch_loop ch = l \<and> ch_fd ch = f"
    and "\<And>i ch. chans w i = Some ch \<Longrightarrow> loops w (ch_loop ch) \<noteq> None \<and> ch_fd ch \<in> opened (os (wsys w))"
    and "\<And>i j ch ch'. chans w i = Some ch \<Longrightarrow> chans w j = Some ch' \<Longrightarrow> ch_fd ch = ch_fd ch' \<Longrightarrow> i = j"
    and "\<And>l ep i ch. loop_epoll w l = Some ep \<Longrightarrow> chans w i = Some ch \<Longrightarrow> ch_fd ch \<noteq> ep"
  shows "net_wf interest opened w"
  unfolding net_wf_def by (intro conjI allI impI; (elim conjE)?) (blast intro: assms | simp add: assms)+

text \<open>What the invariant reads of a channel and of a poller.\<close>

definition chan_key :: "channel \<Rightarrow> loop_id \<times> fd \<times> int \<times> c_int" where
  "chan_key ch = (ch_loop ch, ch_fd ch, ch_index ch, ch_events ch)"

definition poller_key :: "epoll_poller \<Rightarrow> loop_id \<times> (fd \<Rightarrow> chan_id option) \<times> fd" where
  "poller_key p = (ownerLoop p, po_channels p, epollfd p)"

definition loop_key :: "event_loop \<Rightarrow> (loop_id \<times> (fd \<Rightarrow> chan_id option) \<times> fd) option" where
  "loop_key el = map_option poller_key (loop_poller el)"

lemma map_option_eqD: "map_option f x = map_option g y \<Longrightarrow> x = Some a \<Longrightarrow> \<exists>b. y = Some b \<and> g b = f a"
  by (cases y) auto

text \<open>A loop is well formed as soon as its own poller, its own channels and its own interest list are as before.\<close>

lemma loop_ok_keys:
  assumes ok: "loop_ok interest l w"
    and ch: "\<And>i c'. chans w' i = Some c' \<Longrightarrow> ch_loop c' = l \<Longrightarrow> \<exists>c. chans w i = Some c \<and> chan_key c = chan_key c'"
      "\<And>i c. chans w i = Some c \<Longrightarrow> ch_loop c = l \<Longrightarrow> \<exists>c'. chans w' i = Some c' \<and> chan_key c = chan_key c'"
    and lp: "map_option loop_key (loops w' l) = map_option loop_key (loops w l)"
    and il: "\<And>ep. loop_epoll w l = Some ep \<Longrightarrow> interest ep (os (wsys w')) = interest ep (os (wsys w))"
  shows "loop_ok interest l w'"
proof -
  from ok obtain el p where el: "loops w l = Some el" "loop_poller el = Some p" "ownerLoop p = l"
      "poller_wf (chans w, p, wsys w)" "interest_wf interest (chans w, p, wsys w)" by (rule loop_okE)
  from lp el(1) obtain el' where el': "loops w' l = Some el'" "loop_key el' = loop_key el"
    by (cases "loops w' l") auto
  from el'(2) el(2) obtain p' where p': "loop_poller el' = Some p'" "poller_key p' = poller_key p"
    unfolding loop_key_def by (cases "loop_poller el'") auto
  have key: "ownerLoop p' = l" "po_channels p' = po_channels p" "epollfd p' = epollfd p"
    using p'(2) el(3) by (simp_all add: poller_key_def)
  have ilp: "interest (epollfd p) (os (wsys w')) = interest (epollfd p) (os (wsys w))"
    using il el(1,2) by (simp add: loop_epoll_def)
  have down: "\<exists>c. owned (chans w) l i c \<and> chan_key c = chan_key c'" if "owned (chans w') l i c'" for i c'
    using that ch(1) by (fastforce simp: owned_def chan_key_def)
  have up: "\<exists>c'. owned (chans w') l i c' \<and> chan_key c = chan_key c'" if "owned (chans w) l i c" for i c
    using that ch(2) by (fastforce simp: owned_def chan_key_def)
  have "fds_distinct (chans w') l"
    using el(3,4) down unfolding fds_distinct_def poller_wf.simps chan_key_def by (metis Pair_inject)
  moreover have "index_wf (chans w') p'"
    unfolding index_wf_def key
  proof (intro allI impI)
    fix i c' assume "owned (chans w') l i c'"
    from down [OF this] obtain c where c: "owned (chans w) l i c" "chan_key c = chan_key c'" by blast
    have "index_wf (chans w) p" using el(4) by simp
    then have "ch_index c = kNew \<and> po_channels p (ch_fd c) = None \<or>
        ch_index c = kAdded \<and> po_channels p (ch_fd c) = Some i"
      using c(1) el(3) unfolding index_wf_def by blast
    with c(2) show "ch_index c' = kNew \<and> po_channels p (ch_fd c') = None \<or>
        ch_index c' = kAdded \<and> po_channels p (ch_fd c') = Some i"
      by (simp add: chan_key_def)
  qed
  moreover have "map_wf (chans w') p'"
    unfolding map_wf_def key
  proof (intro allI impI)
    fix f i assume "po_channels p f = Some i"
    with el(3,4) obtain c where "owned (chans w) l i c" "ch_fd c = f" by (auto simp: map_wf_def)
    with up [of i c] show "\<exists>c. owned (chans w') l i c \<and> ch_fd c = f" by (auto simp: chan_key_def)
  qed
  moreover have "chan_synced (interest (epollfd p) (os (wsys w'))) i c'" if "owned (chans w') l i c'" for i c'
  proof -
    from down [OF that] obtain c where c: "owned (chans w) l i c" "chan_key c = chan_key c'" by blast
    with el(3,5) have "chan_synced (interest (epollfd p) (os (wsys w))) i c" by simp
    moreover have "ch_fd c' = ch_fd c" "ch_index c' = ch_index c" "ch_events c' = ch_events c"
      using c(2) by (simp_all add: chan_key_def)
    ultimately show ?thesis unfolding ilp chan_synced_def isNoneEvent_def by simp
  qed
  ultimately show ?thesis using el'(1) p'(1) key by (simp add: loop_ok_def)
qed

text \<open>The invariant is kept by whatever leaves these keys, the interest lists and the open descriptors alone.\<close>

lemma net_wf_same:
  assumes wf: "net_wf interest opened w"
    and ch: "\<And>i. map_option chan_key (chans w' i) = map_option chan_key (chans w i)"
    and lp: "\<And>l. map_option loop_key (loops w' l) = map_option loop_key (loops w l)"
    and k: "quiet interest opened (os (wsys w)) (os (wsys w'))" and tid: "cache_ok w'"
  shows "net_wf interest opened w'"
proof -
  have ep: "loop_epoll w' l = loop_epoll w l" for l
    using lp [of l] by (cases "loops w l"; cases "loops w' l")
      (auto simp: loop_epoll_def loop_key_def poller_key_def map_option_case split: option.splits)
  have dn: "loops w' l = None \<longleftrightarrow> loops w l = None" for l
    using lp [of l] by (cases "loops w l"; cases "loops w' l") auto
  have down: "\<exists>c. chans w i = Some c \<and> chan_key c = chan_key c'" if "chans w' i = Some c'" for i c'
    using map_option_eqD [OF ch that] .
  have up: "\<exists>c'. chans w' i = Some c' \<and> chan_key c = chan_key c'" if "chans w i = Some c" for i c
    using map_option_eqD [OF ch [symmetric] that] by auto
  have q: "opened (os (wsys w')) = opened (os (wsys w))" "interest e (os (wsys w')) = interest e (os (wsys w))" for e
    using k by (simp_all add: quiet_def)
  note D = net_wfD [OF wf]
  have p0: "loop_ok interest l w'" if "loops w' l \<noteq> None" for l
    by (rule loop_ok_keys [OF D(2)]) (use that dn down up lp q in auto)
  note p1 = tid
  have p2: "\<exists>ch. chans w' (ev_ptr e) = Some ch \<and> ch_loop ch = l \<and> ch_fd ch = f"
    if "loop_epoll w l = Some ep" "interest ep (os (wsys w)) f = Some e" for l ep f e
    using D(5) [OF that] up by (fastforce simp: chan_key_def)
  have p3: "loops w' (ch_loop c') \<noteq> None \<and> ch_fd c' \<in> opened (os (wsys w))" if "chans w' i = Some c'" for i c'
  proof -
    from down [OF that] obtain c where "chans w i = Some c" "chan_key c = chan_key c'" by blast
    with D(6,7) [of i c] dn show ?thesis by (simp add: chan_key_def)
  qed
  have p4: "i = j" if "chans w' i = Some c" "chans w' j = Some d" "ch_fd c = ch_fd d" for i j c d
    using down [OF that(1)] down [OF that(2)] that(3) D(8) by (auto simp: chan_key_def)
  have p5: "ch_fd c' \<noteq> e" if "loop_epoll w l = Some e" "chans w' i = Some c'" for l e i c'
    using down [OF that(2)] D(9) [OF that(1)] by (auto simp: chan_key_def)
  show ?thesis
    by (rule net_wfI; (unfold ep q)?; (rule p0 p1 p2 p3 p4 p5 D(3,4); assumption?))
qed

lemma net_wf_cong:
  "net_wf interest opened w \<Longrightarrow> (\<And>i. map_option chan_key (chans w' i) = map_option chan_key (chans w i)) \<Longrightarrow>
     (\<And>l. map_option loop_key (loops w' l) = map_option loop_key (loops w l)) \<Longrightarrow>
     quiet interest opened (os (wsys w)) (os (wsys w')) \<Longrightarrow> cachedTid w' = cachedTid w \<Longrightarrow> net_wf interest opened w'"
  by (rule net_wf_same) (assumption | simp add: net_wf_def cache_ok_def)+

section \<open>Requests and removals\<close>

lemma ep_update_frame:
  assumes K: "net_kernel K interest opened" and up: "ep_update K op i c p \<sigma> = Inr \<sigma>'"
  shows "opened (os \<sigma>') = opened (os \<sigma>)" and "ep \<noteq> epollfd p \<Longrightarrow> interest ep (os \<sigma>') = interest ep (os \<sigma>)"
    and "interest (epollfd p) (os \<sigma>') = interest (epollfd p) (os \<sigma>) \<or>
      interest (epollfd p) (os \<sigma>') = ctl_apply op (ch_fd c) \<lparr>ev_events = ch_events c, ev_ptr = i\<rparr> (interest (epollfd p) (os \<sigma>))"
proof -
  let ?ev = "\<lparr>ev_events = ch_events c, ev_ptr = i\<rparr>"
  obtain r e k' where call: "sys_epoll_ctl K (epollfd p) op (ch_fd c) ?ev (os \<sigma>) = ((r, e), k')" by (metis prod.exhaust)
  have os: "os \<sigma>' = k'" using up call by (auto simp: ep_update_def Let_def split: if_splits)
  show "opened (os \<sigma>') = opened (os \<sigma>)"
    using quietD(11) [OF K, of "epollfd p" op "ch_fd c" ?ev "os \<sigma>"] call os by simp
  show "ep \<noteq> epollfd p \<Longrightarrow> interest ep (os \<sigma>') = interest ep (os \<sigma>)"
    using epoll_ctl_contract_other [OF net_kernelD(1) [OF K] call] os by simp
  show "interest (epollfd p) (os \<sigma>') = interest (epollfd p) (os \<sigma>) \<or>
      interest (epollfd p) (os \<sigma>') = ctl_apply op (ch_fd c) ?ev (interest (epollfd p) (os \<sigma>))"
    using ep_update_os [OF net_kernelD(1) [OF K] up] by simp
qed

text \<open>The effect both operations have on the poller and the system: one \<^verbatim>\<open>epoll_ctl\<close> for one channel at most.\<close>

definition poller_step :: "(fd \<Rightarrow> 'k \<Rightarrow> interest_list) \<Rightarrow> ('k \<Rightarrow> fd set) \<Rightarrow> chan_id \<Rightarrow> channel \<Rightarrow>
    epoll_poller \<Rightarrow> 'k \<Rightarrow> epoll_poller \<Rightarrow> 'k \<Rightarrow> bool" where
  "poller_step interest opened i c p k p' k' \<longleftrightarrow> epollfd p' = epollfd p \<and> opened k' = opened k \<and>
     (\<forall>ep. ep \<noteq> epollfd p \<longrightarrow> interest ep k' = interest ep k) \<and>
     (interest (epollfd p) k' = interest (epollfd p) k \<or>
      (\<exists>op ev. ev_ptr ev = i \<and> interest (epollfd p) k' = ctl_apply op (ch_fd c) ev (interest (epollfd p) k)))"

lemma poller_step_refl: "epollfd p' = epollfd p \<Longrightarrow> poller_step interest opened i c p k p' k"
  by (simp add: poller_step_def)

lemma ep_update_step:
  assumes K: "net_kernel K interest opened" and up: "ep_update K op i c q \<sigma> = Inr \<sigma>'"
    and q: "epollfd q = epollfd p" "epollfd p' = epollfd p" "ch_fd c = ch_fd d"
  shows "poller_step interest opened i d p (os \<sigma>) p' (os \<sigma>')"
  unfolding poller_step_def
proof (intro conjI allI impI)
  show "epollfd p' = epollfd p" by (rule q(2))
  show "opened (os \<sigma>') = opened (os \<sigma>)" by (rule ep_update_frame(1) [OF K up])
  show "interest ep (os \<sigma>') = interest ep (os \<sigma>)" if "ep \<noteq> epollfd p" for ep
    by (rule ep_update_frame(2) [OF K up]) (use that q(1) in simp)
  show "interest (epollfd p) (os \<sigma>') = interest (epollfd p) (os \<sigma>) \<or>
      (\<exists>op ev. ev_ptr ev = i \<and> interest (epollfd p) (os \<sigma>') = ctl_apply op (ch_fd d) ev (interest (epollfd p) (os \<sigma>)))"
    using ep_update_frame(3) [OF K up] unfolding q(1,3) by (metis epoll_event.select_convs(2))
qed

lemma bind_r_tripleD: "bind_r m (\<lambda>s. Inr (a, b, s)) = Inr (a', b', s') \<Longrightarrow> m = Inr s' \<and> a' = a \<and> b' = b"
  by (cases m) auto

lemma poller_request_step:
  assumes K: "net_kernel K interest opened" and c: "cs i = Some c"
    and pr: "poller_request K r i (cs, p, \<sigma>) = Inr (cs', p', \<sigma>')"
  shows "poller_step interest opened i c p (os \<sigma>) p' (os \<sigma>')"
proof -
  have step: "poller_step interest opened i c p (os \<sigma>) p' (os \<sigma>')"
    if "ep_update K op i d q \<sigma> = Inr \<sigma>'" "epollfd q = epollfd p" "epollfd p' = epollfd p" "ch_fd d = ch_fd c" for op d q
    using ep_update_step [OF K that] .
  consider "ch_index c = kNew" | "ch_index c = kDeleted" | "ch_index c \<noteq> kNew" "ch_index c \<noteq> kDeleted" by blast
  then show ?thesis
  proof cases
    case 1
    let ?p = "p\<lparr>po_channels := (po_channels p)(ch_fd c \<mapsto> i)\<rparr>" and ?d = "set_index kAdded (request r c)"
    have "bind_r (ep_update K EPOLL_CTL_ADD i ?d ?p \<sigma>) (\<lambda>\<sigma>'. Inr (cs(i \<mapsto> ?d), ?p, \<sigma>')) = Inr (cs', p', \<sigma>')"
      using 1 pr c by (simp add: Let_def)
    from bind_r_tripleD [OF this] have "ep_update K EPOLL_CTL_ADD i ?d ?p \<sigma> = Inr \<sigma>'" "p' = ?p" by simp_all
    then show ?thesis using step by simp
  next
    case 2
    let ?d = "set_index kAdded (request r c)"
    have "bind_r (ep_update K EPOLL_CTL_ADD i ?d p \<sigma>) (\<lambda>\<sigma>'. Inr (cs(i \<mapsto> ?d), p, \<sigma>')) = Inr (cs', p', \<sigma>')"
      using 2 pr c by (simp add: Let_def)
    from bind_r_tripleD [OF this] have "ep_update K EPOLL_CTL_ADD i ?d p \<sigma> = Inr \<sigma>'" "p' = p" by simp_all
    then show ?thesis using step by simp
  next
    case 3
    let ?d = "request r c" and ?op = "if isNoneEvent (request r c) then EPOLL_CTL_DEL else EPOLL_CTL_MOD"
    have "bind_r (ep_update K ?op i ?d p \<sigma>) (\<lambda>\<sigma>'. Inr (cs(i \<mapsto> ?d), p, \<sigma>')) = Inr (cs', p', \<sigma>')"
      using 3 pr c by (simp split: if_splits)
    from bind_r_tripleD [OF this] have "ep_update K ?op i ?d p \<sigma> = Inr \<sigma>'" "p' = p" by simp_all
    then show ?thesis using step [of ?op ?d p] by simp
  qed
qed

lemma poller_remove_step:
  assumes K: "net_kernel K interest opened" and c: "cs i = Some c"
    and rm: "EPollPoller_removeChannel K i (cs, p, \<sigma>) = Inr (cs', p', \<sigma>')"
  shows "poller_step interest opened i c p (os \<sigma>) p' (os \<sigma>') \<and> cs' = cs(i \<mapsto> set_index kNew c)"
proof (cases "ch_index c = kAdded")
  case True
  with rm c obtain \<sigma>1 where "ep_update K EPOLL_CTL_DEL i c p \<sigma> = Inr \<sigma>1" "\<sigma>' = \<sigma>1"
      "p' = p\<lparr>po_channels := (po_channels p)(ch_fd c := None)\<rparr>" "cs' = cs(i \<mapsto> set_index kNew c)"
    by (auto simp: bind_r_Inr_iff)
  with ep_update_step [OF K this(1), of p p' c] show ?thesis by simp
next
  case False
  with rm c show ?thesis by (auto intro: poller_step_refl)
qed

lemma net_wf_poller_step:
  assumes wf: "net_wf interest opened w" and c: "chans w i = Some c"
    and el: "loops w (ch_loop c) = Some el" "loop_poller el = Some p"
    and ok: "loop_ok interest (ch_loop c) w'"
    and w': "chans w' = (chans w)(i \<mapsto> c')" "ch_loop c' = ch_loop c" "ch_fd c' = ch_fd c"
      "loops w' = (loops w)(ch_loop c \<mapsto> el\<lparr>loop_poller := Some p'\<rparr>)" "cachedTid w' = cachedTid w"
    and st: "poller_step interest opened i c p (os (wsys w)) p' (os (wsys w'))"
  shows "net_wf interest opened w'"
proof -
  note D = net_wfD [OF wf]
  let ?l = "ch_loop c"
  have epl: "loop_epoll w ?l = Some (epollfd p)" using el by (simp add: loop_epoll_def)
  have ep: "loop_epoll w' l = loop_epoll w l" for l
    using el st w'(4) by (auto simp: loop_epoll_def poller_step_def)
  have op: "opened (os (wsys w')) = opened (os (wsys w))" using st by (simp add: poller_step_def)
  have p0: "loop_ok interest l w'" if l: "loops w' l \<noteq> None" for l
  proof (cases "l = ?l")
    case True
    then show ?thesis using ok by simp
  next
    case False
    show ?thesis
    proof (rule loop_ok_keys)
      show "loop_ok interest l w" using D(2) l w'(4) False by simp
      show "map_option loop_key (loops w' l) = map_option loop_key (loops w l)" using w'(4) False by simp
      show "interest e (os (wsys w')) = interest e (os (wsys w))" if e: "loop_epoll w l = Some e" for e
      proof -
        have "e \<noteq> epollfd p" using D(4) [OF e] epl False by blast
        with st show ?thesis by (simp add: poller_step_def)
      qed
    qed (use w'(1,2) c False in \<open>auto split: if_splits\<close>)
  qed
  have p1: "\<exists>ch. chans w' (ev_ptr e) = Some ch \<and> ch_loop ch = l \<and> ch_fd ch = f"
    if e: "loop_epoll w l = Some e0" "interest e0 (os (wsys w')) f = Some e" for l e0 f e
  proof (cases "interest e0 (os (wsys w)) f = Some e")
    case True
    from D(5) [OF e(1) True] c w'(1-3) show ?thesis by auto
  next
    case False
    have e0: "e0 = epollfd p" using False e(2) st by (auto simp: poller_step_def)
    then have l: "l = ?l" using D(4) [OF e(1)] epl by simp
    from False e(2) st obtain op ev where ev: "ev_ptr ev = i"
        "interest e0 (os (wsys w')) = ctl_apply op (ch_fd c) ev (interest e0 (os (wsys w)))"
      unfolding e0 poller_step_def by auto
    then have "f = ch_fd c \<and> e = ev"
      using False e(2) by (auto simp: ctl_apply_def split: ctl_op.splits if_splits)
    then show ?thesis using ev(1) w'(1-3) l by simp
  qed
  have p2: "loops w' (ch_loop d) \<noteq> None \<and> ch_fd d \<in> opened (os (wsys w))" if "chans w' j = Some d" for j d
  proof (cases "j = i")
    case True
    then show ?thesis using that D(7) [OF c] w'(1-4) by simp
  next
    case False
    then show ?thesis using that D(6,7) [of j d] w'(1,4) by simp
  qed
  have p3: "j = k" if "chans w' j = Some d" "chans w' k = Some d'" "ch_fd d = ch_fd d'" for j k d d'
    using that D(8) c w'(1,3) by (auto split: if_splits)
  have p4: "ch_fd d \<noteq> e" if "loop_epoll w l = Some e" "chans w' j = Some d" for l e j d
    using that D(9) [OF that(1)] c w'(1,3) by (cases "j = i") auto
  have p5: "cache_ok w'" using D(1) w'(5) by (simp add: cache_ok_def)
  show ?thesis
    by (rule net_wfI; (unfold ep op)?; (rule p0 p1 p2 p3 p4 p5 D(3,4); assumption?))
qed

text \<open>What a request or a removal leaves alone.\<close>

definition same_rest :: "('k, 'm) world_scheme \<Rightarrow> ('k, 'm) world_scheme \<Rightarrow> bool" where
  "same_rest w w' \<longleftrightarrow> world.more w' = world.more w \<and> cur_thread w' = cur_thread w \<and> cachedTid w' = cachedTid w"

lemma same_rest_refl [simp]: "same_rest w w"
  by (simp add: same_rest_def)

lemma net_request:
  assumes K: "net_kernel K interest opened" and wf: "net_wf interest opened w" and c: "chans w i = Some c"
    and req: "Channel_request K r i w = Inr w'"
  shows "\<exists>n el p. net_wf interest opened w' \<and> n \<noteq> kNew \<and>
     chans w' = (chans w)(i \<mapsto> set_index n (request r c)) \<and> loops w (ch_loop c) = Some el \<and>
     loops w' = (loops w)(ch_loop c \<mapsto> el\<lparr>loop_poller := Some p\<rparr>) \<and> same_rest w w' \<and>
     loopInThread w' = loopInThread w \<and> opened (os (wsys w')) = opened (os (wsys w))"
proof -
  have ok: "loop_ok interest (ch_loop c) w" using net_wfD(2,6) [OF wf] c by blast
  then obtain el p where el: "loops w (ch_loop c) = Some el" "loop_poller el = Some p" by (rule loop_okE)
  note eff = Channel_request_effect [OF net_kernelD(1) [OF K] ok c req]
  from req obtain cs' p' \<sigma>' where pr: "poller_request K r i (chans w, p, wsys w) = Inr (cs', p', \<sigma>')"
    and w': "w' = put_loop (ch_loop c) (el\<lparr>loop_poller := Some p'\<rparr>) (w\<lparr>chans := cs', wsys := \<sigma>'\<rparr>)"
    unfolding Channel_request_eq [OF c el] by (auto simp: bind_r_Inr_iff)
  obtain n where n: "n \<noteq> kNew" "chans w' = (chans w)(i \<mapsto> set_index n (request r c))" using eff(2) by blast
  have l': "loops w' = (loops w)(ch_loop c \<mapsto> el\<lparr>loop_poller := Some p'\<rparr>)" and os': "wsys w' = \<sigma>'"
    using w' by simp_all
  note st = poller_request_step [OF K c pr]
  have "net_wf interest opened w'"
    by (rule net_wf_poller_step [OF wf c el eff(1) n(2) _ _ l' eff(6)]) (simp_all add: os' st)
  moreover have "same_rest w w'" "loopInThread w' = loopInThread w" using eff(4-6) w' by (simp_all add: same_rest_def)
  moreover have "opened (os (wsys w')) = opened (os (wsys w))" using st os' by (simp add: poller_step_def)
  ultimately show ?thesis using n el(1) l' by blast
qed

lemma net_remove:
  assumes K: "net_kernel K interest opened" and wf: "net_wf interest opened w" and c: "chans w i = Some c"
  shows "\<exists>w' el p. Channel_remove K i w = Inr w' \<and> net_wf interest opened w' \<and>
     chans w' = (chans w)(i \<mapsto> set_index kNew c) \<and> loops w (ch_loop c) = Some el \<and>
     loops w' = (loops w)(ch_loop c \<mapsto> el\<lparr>loop_poller := Some p\<rparr>) \<and> same_rest w w' \<and>
     opened (os (wsys w')) = opened (os (wsys w))"
proof -
  have ok: "loop_ok interest (ch_loop c) w" using net_wfD(2,6) [OF wf] c by blast
  then obtain el p where el: "loops w (ch_loop c) = Some el" "loop_poller el = Some p" by (rule loop_okE)
  from Channel_remove_step [OF net_kernelD(1) [OF K] ok c] obtain w' where rm: "Channel_remove K i w = Inr w'"
      "loop_ok interest (ch_loop c) w'" "world.more w' = world.more w" "cur_thread w' = cur_thread w"
      "cachedTid w' = cachedTid w" by blast
  from rm(1) obtain cs' p' \<sigma>' where pr: "EPollPoller_removeChannel K i (chans w, p, wsys w) = Inr (cs', p', \<sigma>')"
    and w': "w' = put_loop (ch_loop c) (el\<lparr>loop_poller := Some p'\<rparr>) (w\<lparr>chans := cs', wsys := \<sigma>'\<rparr>)"
    unfolding Channel_remove_eq [OF c el] by (auto simp: bind_r_Inr_iff)
  from poller_remove_step [OF K c pr] have st: "poller_step interest opened i c p (os (wsys w)) p' (os \<sigma>')"
    and cs: "chans w' = (chans w)(i \<mapsto> set_index kNew c)" using w' by simp_all
  have l': "loops w' = (loops w)(ch_loop c \<mapsto> el\<lparr>loop_poller := Some p'\<rparr>)" and os': "wsys w' = \<sigma>'"
    using w' by simp_all
  have "net_wf interest opened w'"
    by (rule net_wf_poller_step [OF wf c el rm(2) cs _ _ l' rm(5)]) (simp_all add: os' st)
  moreover have "same_rest w w'" using rm(3-5) w' by (simp add: same_rest_def)
  moreover have "opened (os (wsys w')) = opened (os (wsys w))" using st os' by (simp add: poller_step_def)
  ultimately show ?thesis using rm(1) cs el(1) l' by blast
qed

section \<open>New channels\<close>

text \<open>A new channel on an open descriptor that no other channel has.\<close>

lemma net_new_chan:
  assumes wf: "net_wf interest opened w" and new: "chans w i = None" "\<And>j d. chans w j = Some d \<Longrightarrow> ch_fd d \<noteq> ch_fd c"
    and c: "ch_fd c \<in> opened (os (wsys w))" "loops w (ch_loop c) \<noteq> None" "ch_index c = kNew" "\<And>l. loop_epoll w l \<noteq> Some (ch_fd c)"
  shows "net_wf interest opened (put_chan i c w)" (is "net_wf _ _ ?w'")
proof (rule net_wfI)
  note D = net_wfD [OF wf]
  have ep: "loop_epoll ?w' l = loop_epoll w l" for l by (simp add: loop_epoll_def)
  have noentry: "interest ep (os (wsys w)) (ch_fd c) = None" if ep: "loop_epoll w l = Some ep" for l ep
  proof (rule ccontr)
    assume "interest ep (os (wsys w)) (ch_fd c) \<noteq> None"
    then obtain e where "interest ep (os (wsys w)) (ch_fd c) = Some e" by blast
    from D(5) [OF ep this] new(2) show False by auto
  qed
  show "cache_ok ?w'" using D(1) by (simp add: cache_ok_def)
  show "ep \<in> opened (os (wsys ?w'))" if "loop_epoll ?w' l = Some ep" for l ep using that D(3) by (simp add: ep)
  show "l = l'" if "loop_epoll ?w' l = Some ep" "loop_epoll ?w' l' = Some ep" for l l' ep
    using that D(4) by (simp add: ep)
  show "loop_ok interest l ?w'" if "loops ?w' l \<noteq> None" for l
  proof (cases "l = ch_loop c")
    case False
    have "loop_ok interest l w" using D(2) that by simp
    then show ?thesis by (rule loop_ok_keys) (use False new(1) in \<open>auto split: if_splits\<close>)
  next
    case True
    have ok: "loop_ok interest l w" using D(2) that by simp
    show ?thesis
    proof (rule loop_ok_new_chan [OF ok new(1)])
      show "\<forall>el p. loops w l = Some el \<and> loop_poller el = Some p \<longrightarrow> interest (epollfd p) (os (wsys w)) (ch_fd c) = None"
        using noentry [of l] by (auto simp: loop_epoll_def)
    qed (use True c(3) new(2) in \<open>auto simp: owned_def\<close>)
  qed
  show "\<exists>ch. chans ?w' (ev_ptr e) = Some ch \<and> ch_loop ch = l \<and> ch_fd ch = f"
    if "loop_epoll ?w' l = Some ep" "interest ep (os (wsys ?w')) f = Some e" for l ep f e
    using D(5) [of l ep f e] that new(1) by (auto simp: ep)
  show "loops ?w' (ch_loop d) \<noteq> None \<and> ch_fd d \<in> opened (os (wsys ?w'))" if "chans ?w' j = Some d" for j d
  proof (cases "j = i")
    case True
    then show ?thesis using that c(1,2) by simp
  next
    case False
    then show ?thesis using that D(6,7) [of j d] by simp
  qed
  show "j = k" if "chans ?w' j = Some d" "chans ?w' k = Some d'" "ch_fd d = ch_fd d'" for j k d d'
  proof (rule ccontr)
    assume ne: "j \<noteq> k"
    consider "j = i" "k \<noteq> i" | "k = i" "j \<noteq> i" | "j \<noteq> i" "k \<noteq> i" using ne by blast
    then show False
    proof cases
      case 1
      then have "d = c" "chans w k = Some d'" using that(1,2) by simp_all
      then show False using new(2) that(3) by metis
    next
      case 2
      then have "d' = c" "chans w j = Some d" using that(1,2) by simp_all
      then show False using new(2) that(3) by metis
    next
      case 3
      then show False using that D(8) [of j d k d'] ne by simp
    qed
  qed
  show "ch_fd d \<noteq> e" if "loop_epoll ?w' l = Some e" "chans ?w' j = Some d" for l e j d
    using that D(9) [of l e j d] c(4) [of l] by (auto simp: ep split: if_splits)
qed

text \<open>A channel that is in no poller goes, and its descriptor is closed.\<close>

lemma net_close_chan:
  assumes K: "net_kernel K interest opened" and wf: "net_wf interest opened w" and c: "chans w i = Some c" "ch_index c = kNew"
    and w': "chans w' = (chans w)(i := None)" "loops w' = loops w" "cachedTid w' = cachedTid w"
      "os (wsys w') = sys_close K (ch_fd c) (os (wsys w))"
  shows "net_wf interest opened w'"
proof (rule net_wfI)
  note D = net_wfD [OF wf]
  have ep: "loop_epoll w' l = loop_epoll w l" for l by (simp add: loop_epoll_def w'(2))
  have op: "opened (os (wsys w')) = opened (os (wsys w)) - {ch_fd c}" using descriptorD(5) [OF K] w'(4) by simp
  have il: "interest e (os (wsys w')) = (interest e (os (wsys w)))(ch_fd c := None)" if "loop_epoll w l = Some e" for l e
    using descriptorD(6) [OF K, of e "ch_fd c"] D(9) [OF that c(1)] w'(4) by simp
  have other: "chans w j = Some d \<and> ch_fd d \<noteq> ch_fd c" if "chans w' j = Some d" for j d
    using that D(8) [OF c(1), of j d] w'(1) by (auto split: if_splits)
  show "cache_ok w'" using D(1) w'(3) by (simp add: cache_ok_def)
  show "loop_ok interest l w'" if "loops w' l \<noteq> None" for l
  proof -
    have "loop_ok interest l w" using D(2) that w'(2) by simp
    then obtain el p where el: "loops w l = Some el" "loop_poller el = Some p" "ownerLoop p = l"
      "poller_wf (chans w, p, wsys w)" "interest_wf interest (chans w, p, wsys w)" by (rule loop_okE)
    have own: "owned (chans w) l j d \<and> ch_fd d \<noteq> ch_fd c" if "owned (chans w') l j d" for j d
      using that other by (auto simp: owned_def)
    have e: "loop_epoll w l = Some (epollfd p)" using el(1,2) by (simp add: loop_epoll_def)
    have "fds_distinct (chans w') l" using el(3,4) own unfolding fds_distinct_def poller_wf.simps by metis
    moreover have "index_wf (chans w') p" using el(3,4) own by (simp add: index_wf_def)
    moreover have "map_wf (chans w') p"
      unfolding map_wf_def
    proof (intro allI impI)
      fix f j assume f: "po_channels p f = Some j"
      with el(3,4) obtain d where d: "owned (chans w) l j d" "ch_fd d = f" by (auto simp: map_wf_def)
      have "j \<noteq> i"
      proof
        assume "j = i"
        then have "owned (chans w) l i c" "ch_fd c = f" using d c(1) by (auto simp: owned_def)
        then show False using el(3,4) c(2) f by (force simp: index_wf_def kNew_def kAdded_def)
      qed
      then show "\<exists>d. owned (chans w') (ownerLoop p) j d \<and> ch_fd d = f" using d w'(1) el(3) by (auto simp: owned_def)
    qed
    moreover have "chan_synced (interest (epollfd p) (os (wsys w'))) j d" if "owned (chans w') l j d" for j d
    proof -
      have "chan_synced (interest (epollfd p) (os (wsys w))) j d" using own [OF that] el(3,5) by simp
      then show ?thesis using own [OF that] by (simp add: il [OF e] chan_synced_def)
    qed
    ultimately show ?thesis using el(1-3) w'(2) by (simp add: loop_ok_def)
  qed
  show "e \<in> opened (os (wsys w'))" if "loop_epoll w' l = Some e" for l e
    using that D(3) [of l e] D(9) [OF _ c(1), of l e] by (auto simp: ep op)
  show "l = l'" if "loop_epoll w' l = Some e" "loop_epoll w' l' = Some e" for l l' e using that D(4) by (simp add: ep)
  show "\<exists>ch. chans w' (ev_ptr en) = Some ch \<and> ch_loop ch = l \<and> ch_fd ch = f"
    if "loop_epoll w' l = Some e" "interest e (os (wsys w')) f = Some en" for l e f en
  proof -
    have e: "loop_epoll w l = Some e" using that(1) by (simp add: ep)
    have f: "f \<noteq> ch_fd c" "interest e (os (wsys w)) f = Some en" using that(2) unfolding il [OF e] by (auto split: if_splits)
    from D(5) [OF e f(2)] obtain ch where ch: "chans w (ev_ptr en) = Some ch" "ch_loop ch = l" "ch_fd ch = f" by blast
    then have "ev_ptr en \<noteq> i" using f(1) c(1) by auto
    then show ?thesis using ch w'(1) by simp
  qed
  show "loops w' (ch_loop d) \<noteq> None \<and> ch_fd d \<in> opened (os (wsys w'))" if "chans w' j = Some d" for j d
  proof -
    have d: "chans w j = Some d" "ch_fd d \<noteq> ch_fd c" using other [OF that] by blast+
    show ?thesis using D(6) [OF d(1)] D(7) [OF d(1)] d(2) unfolding op w'(2) by blast
  qed
  show "j = k" if "chans w' j = Some d" "chans w' k = Some d'" "ch_fd d = ch_fd d'" for j k d d'
    by (rule D(8) [OF conjunct1 [OF other [OF that(1)]] conjunct1 [OF other [OF that(2)]] that(3)])
  show "ch_fd d \<noteq> e" if "loop_epoll w' l = Some e" "chans w' j = Some d" for l e j d
    by (rule D(9) [OF that(1) [unfolded ep] conjunct1 [OF other [OF that(2)]]])
qed

section \<open>Calls that leave the invariant alone\<close>

lemma net_put_sys:
  "net_wf interest opened w \<Longrightarrow> quiet interest opened (os (wsys w)) (os \<sigma>) \<Longrightarrow> net_wf interest opened (put_sys \<sigma> w)"
  by (rule net_wf_cong) simp_all

lemma net_log_err [simp]: "net_wf interest opened w \<Longrightarrow> net_wf interest opened (log_err msg w)"
  by (rule net_wf_cong) (simp_all add: quiet_refl)

lemma net_put_loop:
  "net_wf interest opened w \<Longrightarrow> loops w l = Some el \<Longrightarrow> loop_poller el' = loop_poller el \<Longrightarrow>
     net_wf interest opened (put_loop l el' w)"
  by (rule net_wf_cong) (simp_all add: quiet_refl loop_key_def)

lemma net_queue:
  assumes K: "net_kernel K interest opened" and wf: "net_wf interest opened w" and el: "loops w l = Some el"
  shows "\<exists>w'. queueInLoop K l t w = Inr w' \<and> net_wf interest opened w' \<and>
     loops w' = (loops w)(l \<mapsto> el\<lparr>pendingFunctors := pendingFunctors el @ [t]\<rparr>) \<and> chans w' = chans w \<and>
     same_rest w w' \<and> opened (os (wsys w')) = opened (os (wsys w))"
proof -
  from queueInLoop_ok [OF el, of K t] obtain w' where w': "queueInLoop K l t w = Inr w'"
     "loops w' = (loops w)(l \<mapsto> el\<lparr>pendingFunctors := pendingFunctors el @ [t]\<rparr>)"
     "chans w' = chans w" "world.more w' = world.more w" "cur_thread w' = cur_thread w" "cachedTid w' = cachedTid w"
     "os (wsys w') = (if \<not> isInLoopThread el w \<or> callingPendingFunctors el
                     then snd (sys_write K (wakeupFd el) one_bytes (os (wsys w))) else os (wsys w))" by blast
  have q: "quiet interest opened (os (wsys w)) (os (wsys w'))"
    unfolding w'(7) using quietD(1) [OF K] by (simp add: quiet_refl)
  have "net_wf interest opened w'"
    by (rule net_wf_cong [OF wf _ _ q w'(6)]) (use w'(2,3) el in \<open>simp_all add: loop_key_def\<close>)
  then show ?thesis using w' q by (auto simp: same_rest_def quiet_def)
qed

section \<open>Polling\<close>

lemma fillActiveChannels_revents:
  "fillActiveChannels evs cs active = Inr (cs', active') \<Longrightarrow> \<exists>r. cs' i = map_option (set_revents r) (cs i)"
proof (induction evs arbitrary: cs active)
  case Nil
  have "set_revents (ch_revents c) c = c" for c by (simp add: set_revents_def)
  then have "cs i = map_option (set_revents (ch_revents (the (cs i)))) (cs i)" by (cases "cs i") simp_all
  with Nil show ?case by auto
next
  case (Cons ev evs)
  then obtain c where c: "cs (ev_ptr ev) = Some c" by (auto split: option.splits)
  let ?cs = "cs(ev_ptr ev \<mapsto> set_revents (ev_events ev) c)"
  have "fillActiveChannels evs ?cs (active @ [ev_ptr ev]) = Inr (cs', active')" using Cons.prems c by simp
  from Cons.IH [OF this] obtain r where "cs' i = map_option (set_revents r) (?cs i)" by blast
  moreover have "set_revents r (set_revents (ev_events ev) c) = set_revents r c" by (simp add: set_revents_def)
  ultimately show ?case using c by (cases "i = ev_ptr ev") auto
qed

text \<open>
  \<^verbatim>\<open>poll\<close> returns whatever is reported; only occurred events change, and the active channels are live
  channels of this loop.
\<close>

lemma net_poll:
  assumes K: "net_kernel K interest opened" and wf: "net_wf interest opened w" and el: "loops w l = Some el"
  shows "\<exists>w' p' active now. loop_poll K l w = Inr w' \<and> net_wf interest opened w' \<and>
     loops w' = (loops w)(l \<mapsto> el\<lparr>loop_poller := Some p', activeChannels := active, pollReturnTime := now\<rparr>) \<and>
     (\<forall>i. \<exists>r. chans w' i = map_option (set_revents r) (chans w i)) \<and>
     (\<forall>i \<in> set active. \<exists>ch. chans w i = Some ch \<and> ch_loop ch = l \<and> ch_index ch \<noteq> kNew) \<and>
     same_rest w w' \<and> opened (os (wsys w')) = opened (os (wsys w))"
proof -
  note C = net_kernelD [OF K] and D = net_wfD [OF wf]
  have "loop_ok interest l w" using D(2) el by simp
  then obtain el0 p where p: "loops w l = Some el0" "loop_poller el0 = Some p"
      "ownerLoop p = l \<and> interest_wf interest (chans w, p, wsys w)" by (rule loop_okE) blast
  then have po: "loop_poller el = Some p" using el by simp
  have ep: "loop_epoll w l = Some (epollfd p)" using el po by (simp add: loop_epoll_def)
  obtain n e evs k' where call: "sys_epoll_wait K (epollfd p) (length (po_events p)) kPollTimeoutMs (os (wsys w)) = ((n, e, evs), k')"
    by (metis prod.exhaust)
  have rep: "n < 0 \<Longrightarrow> e = EINTR" "\<And>ev. ev \<in> set evs \<Longrightarrow> \<exists>f en. interest (epollfd p) (os (wsys w)) f = Some en \<and> ev_ptr ev = ev_ptr en"
    using C(4) call unfolding epoll_report_contract_def by blast+
  have live: "\<exists>ch. chans w (ev_ptr ev) = Some ch \<and> ch_loop ch = l \<and> ch_index ch \<noteq> kNew" if ev: "ev \<in> set evs" for ev
  proof -
    obtain f en where en: "interest (epollfd p) (os (wsys w)) f = Some en" "ev_ptr ev = ev_ptr en" using rep(2) [OF ev] by blast
    obtain ch where ch: "chans w (ev_ptr ev) = Some ch" "ch_loop ch = l" "ch_fd ch = f" using D(5) [OF ep en(1)] en(2) by auto
    with p(2,3) po have "chan_synced (interest (epollfd p) (os (wsys w))) (ev_ptr ev) ch"
      by (auto simp: owned_def interest_wf.simps)
    with ch en(1) show ?thesis by (auto simp: chan_synced_def)
  qed
  have q: "quiet interest opened (os (wsys w)) k'"
    using quietD(4) [OF K, of "os (wsys w)" "epollfd p" "length (po_events p)" kPollTimeoutMs] call by simp
  have "\<exists>cs' p' active. EPollPoller_poll K kPollTimeoutMs [] (chans w, p, wsys w) =
       Inr (Timestamp_now (sys_time K k'), active, (cs', p', (wsys w)\<lparr>os := k'\<rparr>)) \<and> poller_key p' = poller_key p \<and>
     (\<forall>i. \<exists>r. cs' i = map_option (set_revents r) (chans w i)) \<and> (\<forall>i \<in> set active. i \<in> ev_ptr ` set evs)"
  proof (cases "0 < n")
    case True
    from poll_events [OF C(3) call True, of "chans w" "[]"] live show ?thesis
      using fillActiveChannels_revents by (fastforce simp: poller_key_def)
  next
    case False
    have "\<exists>r. chans w i = map_option (set_revents r) (chans w i)" for i
      using fillActiveChannels_revents [of "[]" "chans w" "[]" "chans w" "[]" i] by simp
    with False rep(1) call show ?thesis by (auto simp: Let_def poller_key_def)
  qed
  then obtain cs' p' active where poll: "EPollPoller_poll K kPollTimeoutMs [] (chans w, p, wsys w) =
       Inr (Timestamp_now (sys_time K k'), active, (cs', p', (wsys w)\<lparr>os := k'\<rparr>))" "poller_key p' = poller_key p"
     "\<forall>i. \<exists>r. cs' i = map_option (set_revents r) (chans w i)" "\<forall>i \<in> set active. i \<in> ev_ptr ` set evs" by blast
  let ?el = "el\<lparr>loop_poller := Some p', activeChannels := active, pollReturnTime := Timestamp_now (sys_time K k')\<rparr>"
  let ?w' = "put_loop l ?el (w\<lparr>chans := cs', wsys := (wsys w)\<lparr>os := k'\<rparr>\<rparr>)"
  have "chan_key (set_revents r c) = chan_key c" for r c by (simp add: chan_key_def set_revents_def)
  then have keys: "map_option chan_key (cs' i) = map_option chan_key (chans w i)" for i
    using poll(3) by (metis (no_types, lifting) ext map_option_case option.map_comp option.map_cong comp_apply)
  have "net_wf interest opened ?w'"
    by (rule net_wf_cong [OF wf]) (use el po poll(2) q keys in \<open>simp_all add: loop_key_def\<close>)
  moreover have "loop_poll K l w = Inr ?w'" using el po poll(1) by (simp add: loop_poll_def del: EPollPoller_poll.simps)
  moreover have "\<forall>i \<in> set active. \<exists>ch. chans w i = Some ch \<and> ch_loop ch = l \<and> ch_index ch \<noteq> kNew"
    using poll(4) live by fastforce
  ultimately show ?thesis using poll(3) q
    by (intro exI [of _ ?w'] exI [of _ p'] exI [of _ active] exI) (auto simp: same_rest_def quiet_def put_loop_def)
qed

section \<open>New loops\<close>

text \<open>More open descriptors, and what new epoll instances hold, do not matter.\<close>

lemma net_wf_grow:
  assumes wf: "net_wf interest opened w" and op: "opened (os (wsys w)) \<subseteq> opened (os \<sigma>)"
    and il: "\<And>ep. ep \<in> opened (os (wsys w)) \<Longrightarrow> interest ep (os \<sigma>) = interest ep (os (wsys w))"
  shows "net_wf interest opened (put_sys \<sigma> w)" (is "net_wf _ _ ?w'")
proof (rule net_wfI)
  note D = net_wfD [OF wf]
  have ep: "loop_epoll ?w' l = loop_epoll w l" for l by (simp add: loop_epoll_def)
  have same: "interest e (os \<sigma>) = interest e (os (wsys w))" if "loop_epoll w l = Some e" for l e
    using D(3) [OF that] il by blast
  show "cache_ok ?w'" using D(1) by (simp add: cache_ok_def)
  show "loop_ok interest l ?w'" if "loops ?w' l \<noteq> None" for l
  proof -
    have "loop_ok interest l w" using D(2) that by simp
    then show ?thesis by (rule loop_ok_keys) (use same in auto)
  qed
  show "e \<in> opened (os (wsys ?w'))" if "loop_epoll ?w' l = Some e" for l e using that D(3) op by (auto simp: ep)
  show "l = l'" if "loop_epoll ?w' l = Some e" "loop_epoll ?w' l' = Some e" for l l' e using that D(4) by (simp add: ep)
  show "\<exists>ch. chans ?w' (ev_ptr en) = Some ch \<and> ch_loop ch = l \<and> ch_fd ch = f"
    if "loop_epoll ?w' l = Some e" "interest e (os (wsys ?w')) f = Some en" for l e f en
    using D(5) [of l e f en] that same [of l e] by (simp add: ep)
  show "loops ?w' (ch_loop d) \<noteq> None \<and> ch_fd d \<in> opened (os (wsys ?w'))" if "chans ?w' j = Some d" for j d
    using D(6,7) [of j d] that op by auto
  show "j = k" if "chans ?w' j = Some d" "chans ?w' k = Some d'" "ch_fd d = ch_fd d'" for j k d d'
    using D(8) [of j d k d'] that by simp
  show "ch_fd d \<noteq> e" if "loop_epoll ?w' l = Some e" "chans ?w' j = Some d" for l e j d
    using D(9) [of l e j d] that by (simp add: ep)
qed

text \<open>A new loop with an empty poller on an epoll instance that no other loop has.\<close>

lemma net_new_loop:
  assumes wf: "net_wf interest opened w" and l: "loops w l = None" and p: "loop_poller el = Some p"
    and new: "ownerLoop p = l" "po_channels p = (\<lambda>_. None)" "\<And>l'. loop_epoll w l' \<noteq> Some (epollfd p)"
      "\<And>i d. chans w i = Some d \<Longrightarrow> ch_fd d \<noteq> epollfd p"
    and k: "epollfd p \<in> opened (os (wsys w))" "interest (epollfd p) (os (wsys w)) = (\<lambda>_. None)"
  shows "net_wf interest opened (put_loop l el w)" (is "net_wf _ _ ?w'")
proof (rule net_wfI)
  note D = net_wfD [OF wf]
  have ep: "loop_epoll ?w' l' = (if l' = l then Some (epollfd p) else loop_epoll w l')" for l'
    using p by (simp add: loop_epoll_def)
  have noown: "\<not> owned (chans w) l i c" for i c using D(6) [of i c] l by (auto simp: owned_def)
  show "cache_ok ?w'" using D(1) by (simp add: cache_ok_def)
  show "loop_ok interest l' ?w'" if "loops ?w' l' \<noteq> None" for l'
  proof (cases "l' = l")
    case True
    then show ?thesis using p new(1,2) noown
      by (auto simp: loop_ok_def fds_distinct_def index_wf_def map_wf_def)
  next
    case False
    then have "loop_ok interest l' w" using D(2) that by simp
    then show ?thesis by (rule loop_ok_keys) (use False in auto)
  qed
  show "e \<in> opened (os (wsys ?w'))" if "loop_epoll ?w' l' = Some e" for l' e
    using that D(3) [of l' e] k(1) by (auto simp: ep split: if_splits)
  show "l1 = l2" if "loop_epoll ?w' l1 = Some e" "loop_epoll ?w' l2 = Some e" for l1 l2 e
    using that D(4) [of l1 e l2] new(3) by (auto simp: ep split: if_splits)
  show "\<exists>ch. chans ?w' (ev_ptr en) = Some ch \<and> ch_loop ch = l' \<and> ch_fd ch = f"
    if "loop_epoll ?w' l' = Some e" "interest e (os (wsys ?w')) f = Some en" for l' e f en
    using D(5) [of l' e f en] that k(2) by (auto simp: ep split: if_splits)
  show "loops ?w' (ch_loop d) \<noteq> None \<and> ch_fd d \<in> opened (os (wsys ?w'))" if "chans ?w' j = Some d" for j d
    using D(6,7) [of j d] that by simp
  show "j = k" if "chans ?w' j = Some d" "chans ?w' k = Some d'" "ch_fd d = ch_fd d'" for j k d d'
    using D(8) [of j d k d'] that by simp
  show "ch_fd d \<noteq> e" if "loop_epoll ?w' l' = Some e" "chans ?w' j = Some d" for l' e j d
    using D(9) [of l' e j d] new(4) [of j d] that by (auto simp: ep split: if_splits)
qed

text \<open>A loop nobody has told to quit; its wakeup channel is its own, watched for reading.\<close>

definition loop_good :: "loop_id \<Rightarrow> event_loop \<Rightarrow> channel \<Rightarrow> bool" where
  "loop_good l el c \<longleftrightarrow> \<not> loop_quit el \<and> ch_loop c = l \<and> ch_fd c = wakeupFd el \<and> ch_index c \<noteq> kNew \<and> ch_events c = kReadEvent \<and>
     readCallback c = Some (LoopHandleRead l) \<and> writeCallback c = None \<and> closeCallback c = None \<and>
     errorCallback c = None \<and> \<not> ch_tied c"

text \<open>
  The constructor returns a loop in order, or ends in the \<^verbatim>\<open>LOG_FATAL\<close> of a call the kernel refused.
\<close>

lemma net_mk_EventLoop:
  assumes K: "net_kernel K interest opened" and wf: "net_wf interest opened w"
    and new: "loops w l = None" "chans w ch = None" "loopInThread w (cur_thread w) = None"
  shows "(mk_EventLoop K False l ch w = Inl Exit_Fatal \<and> \<not> (loop_grants K \<and> epoll_ctl_grants K interest)) \<or>
     (\<exists>w' el p c. mk_EventLoop K False l ch w = Inr w' \<and> net_wf interest opened w' \<and>
     loops w' = (loops w)(l \<mapsto> el\<lparr>loop_poller := Some p\<rparr>) \<and> pendingFunctors el = [] \<and> threadId el = cur_thread w \<and>
     wakeupChannel el = ch \<and> chans w' = (chans w)(ch \<mapsto> c) \<and> loop_good l el c \<and> same_rest w w' \<and>
     loopInThread w' = (loopInThread w)(cur_thread w \<mapsto> l) \<and> opened (os (wsys w)) \<subseteq> opened (os (wsys w')))"
    (is "?exit \<or> ?ok")
proof (rule disjCI [THEN disj_commute [THEN iffD1]])
  assume no_exit: "\<not> ?exit"
  note D = net_wfD [OF wf]
  let ?k0 = "os (wsys w)"
  obtain f e1 k1 where f: "sys_eventfd K ?k0 = ((f, e1), k1)" by (metis prod.exhaust)
  obtain ep e2 k2 where ep: "sys_epoll_create1 K k1 = ((ep, e2), k2)" by (metis prod.exhaust)
  have f0: "0 \<le> f"
  proof (rule ccontr)
    assume "\<not> 0 \<le> f"
    with f have "mk_EventLoop K False l ch w = Inl Exit_Fatal" by (simp add: mk_EventLoop_def createEventfd_def)
    with no_exit loop_grantsD(1) [of K, OF _ f] \<open>\<not> 0 \<le> f\<close> show False by blast
  qed
  have ep0: "0 \<le> ep"
  proof (rule ccontr)
    assume "\<not> 0 \<le> ep"
    with f f0 ep have "mk_EventLoop K False l ch w = Inl Exit_Fatal"
      by (simp add: mk_EventLoop_def createEventfd_def newDefaultPoller_def mk_EPollPoller_def)
    with no_exit loop_grantsD(2) [of K, OF _ ep] \<open>\<not> 0 \<le> ep\<close> show False by blast
  qed
  have pos: "0 \<le> f" "0 \<le> ep" "interest ep k2 = (\<lambda>_. None)"
    using f0 ep0 epoll_createD [OF net_kernelD(2) [OF K] ep ep0] by blast+
  have o1: "f \<notin> opened ?k0" "opened k1 = insert f (opened ?k0)"
    using descriptorD(1) [OF K, of ?k0] f pos(1) by (simp_all add: creates_def)
  have o2: "ep \<notin> opened k1" "opened k2 = insert ep (opened k1)"
    using descriptorD(2) [OF K, of k1] ep pos(2) by (simp_all add: creates_def)
  have il: "interest e k2 = interest e ?k0" if "e \<in> opened ?k0" for e
  proof -
    have "e \<noteq> ep" using that o1(2) o2(1) by blast
    then have "interest e k2 = interest e k1" using descriptorD(10) [OF K, of e k1] ep by simp
    also have "interest e k1 = interest e ?k0" using descriptorD(7) [OF K, of e ?k0] f by simp
    finally show ?thesis .
  qed
  let ?p = "\<lparr>ownerLoop = l, po_channels = (\<lambda>_. None), epollfd = ep,
      po_events = replicate kInitEventListSize zero_event\<rparr>"
  let ?el = "\<lparr>looping = False, loop_quit = False, threadId = tid_of w, wakeupFd = f, wakeupChannel = ch,
      pollReturnTime = Timestamp_zero, loop_poller = Some ?p, activeChannels = [],
      callingPendingFunctors = False, pendingFunctors = []\<rparr>"
  let ?c = "setReadCallback (LoopHandleRead l) (mk_Channel l f)"
  let ?w1 = "put_loop l ?el (put_sys ((wsys w)\<lparr>os := k2\<rparr>) w)"
  let ?w2 = "put_chan ch ?c (?w1\<lparr>loopInThread := (loopInThread w)(cur_thread w \<mapsto> l)\<rparr>)"
  have "net_wf interest opened (put_sys ((wsys w)\<lparr>os := k2\<rparr>) w)"
    by (rule net_wf_grow [OF wf]) (use o1 o2 il in auto)
  then have w1: "net_wf interest opened ?w1"
  proof (rule net_new_loop)
    show "loop_epoll (put_sys ((wsys w)\<lparr>os := k2\<rparr>) w) l' \<noteq> Some (epollfd ?p)" for l'
      using D(3) [of l' ep] o1(2) o2(1) by (auto simp: loop_epoll_def)
    show "ch_fd d \<noteq> epollfd ?p" if "chans (put_sys ((wsys w)\<lparr>os := k2\<rparr>) w) i = Some d" for i d
      using D(7) [of i d] that o1(2) o2(1) by auto
  qed (use new(1) pos(3) o2(2) in simp_all)
  have cf: "ch_loop ?c = l" "ch_fd ?c = f" "ch_index ?c = kNew" "ch_events ?c = 0"
    by (simp_all add: setReadCallback_def mk_Channel_def kNew_def)
  have "net_wf interest opened (put_chan ch ?c ?w1)"
  proof (rule net_new_chan [OF w1])
    show "loop_epoll ?w1 l' \<noteq> Some (ch_fd ?c)" for l'
      using D(3) [of l' f] o1 o2 cf(2) by (auto simp: loop_epoll_def)
  qed (use new(2) D(7) o1 o2 cf in auto)
  then have w2: "net_wf interest opened ?w2" by (rule net_wf_cong) (simp_all add: quiet_refl)
  have chw2: "chans ?w2 ch = Some ?c" by simp
  have mk: "mk_EventLoop K False l ch w = Channel_request K EnableReading ch ?w2"
    using f ep pos(1,2) new(3)
    by (simp add: mk_EventLoop_def createEventfd_def newDefaultPoller_def mk_EPollPoller_def Let_def put_chan_def
        put_loop_def put_sys_def)
  have ok2: "loop_ok interest (ch_loop ?c) ?w2" using net_wfD(2,6) [OF w2] chw2 by blast
  obtain w' where req: "Channel_request K EnableReading ch ?w2 = Inr w'"
    using Channel_request_result [OF net_kernelD(1) [OF K] ok2 chw2, of EnableReading] cf(3) no_exit mk by metis
  from net_request [OF K w2 chw2 req] cf obtain n p where w': "Channel_request K EnableReading ch ?w2 = Inr w'"
      "net_wf interest opened w'" "n \<noteq> kNew" "chans w' = (chans ?w2)(ch \<mapsto> set_index n (request EnableReading ?c))"
      "loops w' = (loops ?w2)(l \<mapsto> ?el\<lparr>loop_poller := Some p\<rparr>)" "same_rest ?w2 w'"
      "loopInThread w' = loopInThread ?w2" "opened (os (wsys w')) = opened (os (wsys ?w2))"
    using req by auto
  have "mk_EventLoop K False l ch w = Inr w'" using mk w'(1) by simp
  moreover have "loop_good l ?el (set_index n (request EnableReading ?c))"
    using w'(3) cf(4) by (simp add: loop_good_def setReadCallback_def mk_Channel_def kReadEvent_def)
  moreover have "chans w' = (chans w)(ch \<mapsto> set_index n (request EnableReading ?c))"
    "loops w' = (loops w)(l \<mapsto> ?el\<lparr>loop_poller := Some p\<rparr>)" "loopInThread w' = (loopInThread w)(cur_thread w \<mapsto> l)"
    "same_rest w w'" "opened (os (wsys w)) \<subseteq> opened (os (wsys w'))"
    using w'(4-8) o1 o2 by (auto simp: same_rest_def)
  ultimately show ?ok using w'(2) tid_of_eq [OF D(1)]
    by (intro exI [of _ w'] exI [of _ ?el] exI [of _ p] exI [of _ "set_index n (request EnableReading ?c)"]) simp
qed

section \<open>A kernel with all of this\<close>

lemma live_grants: "epoll_ctl_grants live_kernel sim_watched" "loop_grants live_kernel"
  by (auto simp: epoll_ctl_grants_def loop_grants_def live_kernel_def sim_kernel_def sim_ctl_def live_fresh_def Let_def)

lemma live_net_kernel: "net_kernel live_kernel sim_watched sim_opened"
proof -
  have "epoll_ctl_contract live_kernel sim_watched"
    by (auto simp: epoll_ctl_contract_def live_kernel_def sim_kernel_def sim_ctl_def)
  moreover have "epoll_create_contract live_kernel sim_watched"
    by (auto simp: epoll_create_contract_def live_kernel_def live_fresh_def)
  moreover have reported: "\<exists>f en. sim_watched ep k f = Some en \<and> ev_ptr ev = ev_ptr en" if "live_reported ep k ev" for ep k ev
    using that by (force simp: live_reported_def list_ex_iff split: option.splits)
  moreover have "epoll_wait_contract live_kernel" "epoll_report_contract live_kernel sim_watched"
    by (auto simp: epoll_wait_contract_def epoll_report_contract_def live_kernel_def Let_def dest!: in_set_takeD reported
        intro: order_trans [OF length_filter_le])
  moreover have "descriptor_contract live_kernel sim_watched sim_opened"
    by (auto simp: descriptor_contract_def creates_def live_kernel_def sim_kernel_def live_fresh_def sim_opened_def)
  moreover have "quiet_contract live_kernel sim_watched sim_opened"
    by (auto simp: quiet_contract_def quiet_def live_kernel_def sim_kernel_def sim_ctl_def live_fresh_def sim_opened_def Let_def)
  ultimately show ?thesis by (simp add: net_kernel_def)
qed

end
