(* ===== verification/ServerInvariant.thy ===== *)
theory ServerInvariant
  imports NetInvariant TcpServer
begin

text \<open>
  The invariant of the whole program: every channel belongs to a loop, to the acceptor or to a
  connection that still exists, with the handlers of that object; every connection is in a state that
  fits its channel; every functor owed to a loop can run; the server's map finds every open
  connection. It is stated for a server that sets a connection and a message callback (as the example
  does) and sends once per connection before it shuts it down.
\<close>

section \<open>Channels and their objects\<close>

definition acceptor_chan :: "acceptor \<Rightarrow> channel \<Rightarrow> bool" where
  "acceptor_chan a ch \<longleftrightarrow> ch_loop ch = acc_loop a \<and> ch_fd ch = sockfd (acceptSocket a) \<and>
     readCallback ch = Some AcceptorHandleRead \<and> writeCallback ch = None \<and> closeCallback ch = None \<and>
     errorCallback ch = None \<and> \<not> ch_tied ch \<and>
     (if listenning a then ch_index ch \<noteq> kNew \<and> ch_events ch = kReadEvent else ch_index ch = kNew \<and> ch_events ch = 0)"

text \<open>The largest vector a buffer of such a server can have: one \<^verbatim>\<open>readv\<close> into a vector of 65544 bytes.\<close>

definition max_buffer :: nat where "max_buffer = 131080"

definition buffers_good :: "tcp_connection \<Rightarrow> bool" where
  "buffers_good t \<longleftrightarrow> buffer_ok (inputBuffer t) \<and> readerIndex (inputBuffer t) = KCheapPrend \<and>
     length (buf_data (inputBuffer t)) \<le> max_buffer \<and> buffer_ok (outputBuffer t) \<and>
     length (buf_data (outputBuffer t)) \<le> max_buffer \<and>
     (content (outputBuffer t) = [] \<longrightarrow> readerIndex (outputBuffer t) = KCheapPrend)"

definition callbacks_good :: "tcp_connection \<Rightarrow> bool" where
  "callbacks_good t \<longleftrightarrow> connectionCallback t \<noteq> None \<and> messageCallback t \<noteq> None \<and>
     conn_closeCallback t = Some removeConnection_ref \<and> writeCompleteCallback t = None \<and> highWaterMarkCallback t = None"

definition conn_chan :: "conn_id \<Rightarrow> tcp_connection \<Rightarrow> channel \<Rightarrow> bool" where
  "conn_chan c t ch \<longleftrightarrow> ch_loop ch = conn_loop t \<and> ch_fd ch = sockfd (conn_socket t) \<and>
     readCallback ch = Some (ConnHandleRead c) \<and> writeCallback ch = Some (ConnHandleWrite c) \<and>
     closeCallback ch = Some (ConnHandleClose c) \<and> errorCallback ch = Some (ConnHandleError c) \<and>
     (ch_tied ch \<longrightarrow> ch_tie ch = Some c)"

text \<open>
  What the state of a connection says about its channel: not yet registered, watched for reading only,
  still watched, or interested in nothing.
\<close>

fun state_good :: "StateE \<Rightarrow> tcp_connection \<Rightarrow> channel \<Rightarrow> bool" where
  "state_good KConnecting t ch \<longleftrightarrow> ch_index ch = kNew \<and> ch_events ch = 0 \<and> content (outputBuffer t) = []"
| "state_good KConnected t ch \<longleftrightarrow>
     ch_index ch \<noteq> kNew \<and> ch_events ch = kReadEvent \<and> ch_tied ch \<and> content (outputBuffer t) = []"
| "state_good KDisconnecting t ch \<longleftrightarrow>
     ch_index ch \<noteq> kNew \<and> ch_events ch \<noteq> 0 \<and> ch_tied ch \<and> (content (outputBuffer t) \<noteq> [] \<longrightarrow> isWriting ch)"
| "state_good KDisconnected t ch \<longleftrightarrow> ch_events ch = 0"

text \<open>\<open>X\<close>: the connections whose input is being handled, which may be non-empty.\<close>

definition conn_good :: "conn_id set \<Rightarrow> conn_id \<Rightarrow> tcp_connection \<Rightarrow> channel \<Rightarrow> bool" where
  "conn_good X c t ch \<longleftrightarrow> conn_chan c t ch \<and> buffers_good t \<and> callbacks_good t \<and>
     (c \<notin> X \<longrightarrow> content (inputBuffer t) = []) \<and> state_good (conn_state t) t ch"

text \<open>The object that owns a channel is the one its read callback is bound to.\<close>

fun owner_ok :: "handler option \<Rightarrow> chan_id \<Rightarrow> ('k, 'm) sworld_scheme \<Rightarrow> bool" where
  "owner_ok (Some (LoopHandleRead l)) i w \<longleftrightarrow> (\<exists>el. loops w l = Some el \<and> wakeupChannel el = i)"
| "owner_ok (Some AcceptorHandleRead) i w \<longleftrightarrow> (\<exists>a. acceptor_obj w = Some a \<and> acceptChannel a = i)"
| "owner_ok (Some (ConnHandleRead c)) i w \<longleftrightarrow> (\<exists>t. conns w c = Some t \<and> conn_channel t = i)"
| "owner_ok _ i w \<longleftrightarrow> False"

definition objs_wf :: "conn_id set \<Rightarrow> ('k, 'm) sworld_scheme \<Rightarrow> bool" where
  "objs_wf X w \<longleftrightarrow>
     (\<forall>i ch. chans w i = Some ch \<longrightarrow> owner_ok (readCallback ch) i w) \<and>
     (\<forall>l el. loops w l = Some el \<longrightarrow> (\<exists>ch. chans w (wakeupChannel el) = Some ch \<and> loop_good l el ch)) \<and>
     (\<forall>a. acceptor_obj w = Some a \<longrightarrow> (\<exists>ch. chans w (acceptChannel a) = Some ch \<and> acceptor_chan a ch)) \<and>
     (\<forall>c t. conns w c = Some t \<longrightarrow> (\<exists>ch. chans w (conn_channel t) = Some ch \<and> conn_good X c t ch))"

section \<open>Functors owed to the loops\<close>

fun task_ok :: "('k, 'm) sworld_scheme \<Rightarrow> loop_id \<Rightarrow> task \<Rightarrow> bool" where
  "task_ok w l (ConnectionEstablished c) \<longleftrightarrow> (\<exists>t. conns w c = Some t \<and> conn_loop t = l \<and> conn_state t = KConnecting)"
| "task_ok w l (ConnectionDestroyed c) \<longleftrightarrow> (\<exists>t. conns w c = Some t \<and> conn_loop t = l \<and> conn_state t = KDisconnected)"
| "task_ok w l (RemoveConnectionInLoop c) \<longleftrightarrow>
     (\<exists>t v. conns w c = Some t \<and> conn_state t = KDisconnected \<and> server w = Some v \<and> srv_loop v = l)"
| "task_ok w l _ \<longleftrightarrow> False"

definition established_ids :: "task list \<Rightarrow> conn_id list" where
  "established_ids ts = concat (map (\<lambda>t. case t of ConnectionEstablished c \<Rightarrow> [c] | _ \<Rightarrow> []) ts)"

definition tasks_ok :: "('k, 'm) sworld_scheme \<Rightarrow> loop_id \<Rightarrow> task list \<Rightarrow> bool" where
  "tasks_ok w l ts \<longleftrightarrow> (\<forall>t \<in> set ts. task_ok w l t) \<and> distinct (established_ids ts)"

text \<open>\<open>B l\<close> is the batch the loop \<open>l\<close> is running; owed is the batch and what is pending.\<close>

definition owed :: "(loop_id \<Rightarrow> task list) \<Rightarrow> ('k, 'm) sworld_scheme \<Rightarrow> loop_id \<Rightarrow> task list" where
  "owed B w l = B l @ (case loops w l of Some el \<Rightarrow> pendingFunctors el | None \<Rightarrow> [])"

definition tasks_wf :: "(loop_id \<Rightarrow> task list) \<Rightarrow> ('k, 'm) sworld_scheme \<Rightarrow> bool" where
  "tasks_wf B w \<longleftrightarrow> (\<forall>l. tasks_ok w l (owed B w l))"

section \<open>The server\<close>

text \<open>The references that keep a connection object: the server's map and the functors that hold the \<^verbatim>\<open>shared_ptr\<close>.\<close>

definition holds :: "conn_id \<Rightarrow> task \<Rightarrow> bool" where
  "holds c tk \<longleftrightarrow> tk \<in> {ConnectionEstablished c, ConnectionDestroyed c, RemoveConnectionInLoop c}"

definition listed :: "('k, 'm) sworld_scheme \<Rightarrow> conn_id \<Rightarrow> bool" where
  "listed w c \<longleftrightarrow> (\<exists>v n. server w = Some v \<and> map_of (connections v) n = Some c)"

definition held :: "(loop_id \<Rightarrow> task list) \<Rightarrow> ('k, 'm) sworld_scheme \<Rightarrow> conn_id \<Rightarrow> bool" where
  "held B w c \<longleftrightarrow> listed w c \<or> (\<exists>l tk. tk \<in> set (owed B w l) \<and> holds c tk)"

text \<open>
  The functor that has to run next for a connection, and the loop that has to run it: a connection that is
  coming up waits for \<^verbatim>\<open>connectionEstablished\<close>; one that is down waits for its removal from the map, then,
  as long as the poller knows its channel, for \<^verbatim>\<open>connectionDestroyed\<close>.
\<close>

definition polled :: "('k, 'm) sworld_scheme \<Rightarrow> tcp_connection \<Rightarrow> bool" where
  "polled w t \<longleftrightarrow> (\<exists>ch. chans w (conn_channel t) = Some ch \<and> ch_index ch \<noteq> kNew)"

definition due :: "('k, 'm) sworld_scheme \<Rightarrow> conn_id \<Rightarrow> tcp_connection \<Rightarrow> (loop_id \<times> task) option" where
  "due w c t = (case conn_state t of
       KConnecting \<Rightarrow> Some (conn_loop t, ConnectionEstablished c)
     | KConnected \<Rightarrow> None
     | KDisconnecting \<Rightarrow> None
     | KDisconnected \<Rightarrow>
         if listed w c then Some (srv_loop (the (server w)), RemoveConnectionInLoop c)
         else if polled w t then Some (conn_loop t, ConnectionDestroyed c)
         else None)"

text \<open>No connection is forgotten: what is due is owed.\<close>

definition cared_ok :: "(loop_id \<Rightarrow> task list) \<Rightarrow> ('k, 'm) sworld_scheme \<Rightarrow> bool" where
  "cared_ok B w \<longleftrightarrow> (\<forall>c t l tk. conns w c = Some t \<and> due w c t = Some (l, tk) \<longrightarrow> tk \<in> set (owed B w l))"

lemma due_cong:
  assumes "conn_state t' = conn_state t" "conn_loop t' = conn_loop t" "listed w' c = listed w c" "polled w' t' = polled w t"
    and "srv_loop (the (server w')) = srv_loop (the (server w))"
  shows "due w' c t' = due w c t"
  unfolding due_def assms by (rule refl)

lemma due_holds: "due w c t = Some (l, tk) \<Longrightarrow> holds c tk"
  by (auto simp: due_def holds_def split: StateE.splits if_splits)

lemma listed_same: "server w' = server w \<Longrightarrow> listed w' = listed w"
  by (intro ext) (simp add: listed_def)

lemma polled_same: "chans w' (conn_channel t) = chans w (conn_channel t) \<Longrightarrow> polled w' t = polled w t"
  by (simp add: polled_def)

definition names_ok :: "tcp_server \<Rightarrow> (conn_id \<Rightarrow> tcp_connection option) \<Rightarrow> bool" where
  "names_ok v cs \<longleftrightarrow>
     (\<forall>c t. cs c = Some t \<longrightarrow> (\<exists>i. 1 \<le> i \<and> i < nextConnId v \<and> conn_name t = connName v i)) \<and>
     (\<forall>c d t s. cs c = Some t \<and> cs d = Some s \<and> conn_name t = conn_name s \<longrightarrow> c = d) \<and>
     (\<forall>c t. cs c = Some t \<and> conn_state t \<noteq> KDisconnected \<longrightarrow> map_of (connections v) (conn_name t) = Some c) \<and>
     (\<forall>n c. map_of (connections v) n = Some c \<longrightarrow> (\<exists>t. cs c = Some t \<and> conn_name t = n))"

definition server_good :: "InetAddress \<Rightarrow> tcp_server \<Rightarrow> acceptor \<Rightarrow> (loop_id \<Rightarrow> bool) \<Rightarrow>
    (conn_id \<Rightarrow> tcp_connection option) \<Rightarrow> bool" where
  "server_good addr v a live cs \<longleftrightarrow> server_wf addr v \<and> nextConnId v < 2 ^ 31 \<and> acc_loop a = srv_loop v \<and>
     newConnectionCallback a = Some newConnection_ref \<and> listenning a \<and> live (srv_loop v) \<and> finite {l. live l} \<and>
     (\<forall>l \<in> set (getAllLoops (threadPool v)). live l) \<and> srv_connectionCallback v \<noteq> None \<and>
     srv_messageCallback v \<noteq> None \<and> srv_writeCompleteCallback v = None \<and> names_ok v cs"

definition server_ok :: "InetAddress \<Rightarrow> ('k, 'm) sworld_scheme \<Rightarrow> bool" where
  "server_ok addr w \<longleftrightarrow> (\<exists>v a. server w = Some v \<and> acceptor_obj w = Some a \<and>
     server_good addr v a (\<lambda>l. loops w l \<noteq> None) (conns w))"

lemma server_good_mono:
  "server_good addr v a live cs \<Longrightarrow> (\<And>l. live' l \<longleftrightarrow> live l) \<Longrightarrow> names_ok v cs' \<Longrightarrow> server_good addr v a live' cs'"
proof -
  assume "server_good addr v a live cs" "\<And>l. live' l \<longleftrightarrow> live l" "names_ok v cs'"
  moreover from this(2) have "live' = live" by (intro ext)
  ultimately show ?thesis by (simp add: server_good_def)
qed

lemma server_okE:
  assumes "server_ok addr w"
  obtains v a where "server w = Some v" "acceptor_obj w = Some a" "server_good addr v a (\<lambda>l. loops w l \<noteq> None) (conns w)"
  using assms unfolding server_ok_def by blast

section \<open>The invariant\<close>

text \<open>\<open>running l\<close>: the current thread is the one of loop \<open>l\<close>.\<close>

definition running :: "loop_id \<Rightarrow> ('k, 'm) world_scheme \<Rightarrow> bool" where
  "running l w \<longleftrightarrow> (\<exists>el. loops w l = Some el \<and> isInLoopThread el w)"

definition server_inv :: "(fd \<Rightarrow> 'k \<Rightarrow> interest_list) \<Rightarrow> ('k \<Rightarrow> fd set) \<Rightarrow> InetAddress \<Rightarrow> (loop_id \<Rightarrow> task list) \<Rightarrow>
    conn_id set \<Rightarrow> ('k, 'm) sworld_scheme \<Rightarrow> bool" where
  "server_inv interest opened addr B X w \<longleftrightarrow> net_wf interest opened w \<and> objs_wf X w \<and> tasks_wf B w \<and> server_ok addr w \<and>
     cared_ok B w"

text \<open>
  What no operation takes back: a connection that has come up does not go back to \<^verbatim>\<open>kConnecting\<close>, one that
  is down stays down, one that is out of the map or, being down, unknown to the poller stays so.
\<close>

definition onward :: "('k, 'm) sworld_scheme \<Rightarrow> ('k, 'm) sworld_scheme \<Rightarrow> bool" where
  "onward w w' \<longleftrightarrow> (\<forall>c t. conns w c = Some t \<longrightarrow> (\<exists>t'. conns w' c = Some t' \<and> conn_loop t' = conn_loop t \<and>
        conn_channel t' = conn_channel t \<and>
        (conn_state t \<noteq> KConnecting \<longrightarrow> conn_state t' \<noteq> KConnecting) \<and>
        (conn_state t = KDisconnected \<longrightarrow> conn_state t' = KDisconnected) \<and>
        (\<not> listed w c \<longrightarrow> \<not> listed w' c) \<and>
        (conn_state t = KDisconnected \<and> \<not> polled w t \<longrightarrow> \<not> polled w' t')))"

text \<open>Threads, their loops and the acceptor stay as well.\<close>

definition threads :: "('k, 'm) sworld_scheme \<Rightarrow> ('k, 'm) sworld_scheme \<Rightarrow> bool" where
  "threads w w' \<longleftrightarrow> (\<forall>l el. loops w l = Some el \<longrightarrow> (\<exists>el'. loops w' l = Some el' \<and> threadId el' = threadId el)) \<and>
     (\<forall>a. acceptor_obj w = Some a \<longrightarrow> acceptor_obj w' = Some a) \<and>
     cur_thread w' = cur_thread w \<and> cachedTid w' = cachedTid w \<and> onward w w'"

text \<open>The same without the current thread, for passes of different loops.\<close>

definition moved :: "('k, 'm) sworld_scheme \<Rightarrow> ('k, 'm) sworld_scheme \<Rightarrow> bool" where
  "moved w w' \<longleftrightarrow> (\<forall>l. loops w l \<noteq> None \<longrightarrow> loops w' l \<noteq> None) \<and>
     (\<forall>a. acceptor_obj w = Some a \<longrightarrow> acceptor_obj w' = Some a) \<and> onward w w'"

text \<open>
  What all operations but the removal of a channel keep: objects stay with their handlers and loops, the
  poller forgets no channel.
\<close>

definition handlers :: "channel \<Rightarrow> handler option list" where
  "handlers ch = [closeCallback ch, errorCallback ch, readCallback ch, writeCallback ch]"

definition stable :: "('k, 'm) sworld_scheme \<Rightarrow> ('k, 'm) sworld_scheme \<Rightarrow> bool" where
  "stable w w' \<longleftrightarrow> threads w w' \<and>
     (\<forall>i ch. chans w i = Some ch \<longrightarrow> (\<exists>ch'. chans w' i = Some ch' \<and> handlers ch' = handlers ch \<and>
        (ch_index ch \<noteq> kNew \<longrightarrow> ch_index ch' \<noteq> kNew)))"

lemma onward_refl [simp]: "onward w w"
  by (auto simp: onward_def)

lemma onwardD:
  assumes "onward w w'" and "conns w c = Some t"
  obtains t' where "conns w' c = Some t'" "conn_loop t' = conn_loop t" "conn_channel t' = conn_channel t"
    "conn_state t \<noteq> KConnecting \<longrightarrow> conn_state t' \<noteq> KConnecting" "conn_state t = KDisconnected \<longrightarrow> conn_state t' = KDisconnected"
    "\<not> listed w c \<longrightarrow> \<not> listed w' c" "conn_state t = KDisconnected \<and> \<not> polled w t \<longrightarrow> \<not> polled w' t'"
  using assms unfolding onward_def by blast

lemma onward_trans:
  assumes "onward w w1" "onward w1 w2"
  shows "onward w w2"
  unfolding onward_def
proof (intro allI impI)
  fix c t assume t: "conns w c = Some t"
  obtain t1 where t1: "conns w1 c = Some t1" "conn_loop t1 = conn_loop t" "conn_channel t1 = conn_channel t"
    "conn_state t \<noteq> KConnecting \<longrightarrow> conn_state t1 \<noteq> KConnecting" "conn_state t = KDisconnected \<longrightarrow> conn_state t1 = KDisconnected"
    "\<not> listed w c \<longrightarrow> \<not> listed w1 c" "conn_state t = KDisconnected \<and> \<not> polled w t \<longrightarrow> \<not> polled w1 t1"
    by (rule onwardD [OF assms(1) t]) blast
  obtain t2 where t2: "conns w2 c = Some t2" "conn_loop t2 = conn_loop t1" "conn_channel t2 = conn_channel t1"
    "conn_state t1 \<noteq> KConnecting \<longrightarrow> conn_state t2 \<noteq> KConnecting" "conn_state t1 = KDisconnected \<longrightarrow> conn_state t2 = KDisconnected"
    "\<not> listed w1 c \<longrightarrow> \<not> listed w2 c" "conn_state t1 = KDisconnected \<and> \<not> polled w1 t1 \<longrightarrow> \<not> polled w2 t2"
    by (rule onwardD [OF assms(2) t1(1)]) blast
  show "\<exists>t'. conns w2 c = Some t' \<and> conn_loop t' = conn_loop t \<and> conn_channel t' = conn_channel t \<and>
        (conn_state t \<noteq> KConnecting \<longrightarrow> conn_state t' \<noteq> KConnecting) \<and>
        (conn_state t = KDisconnected \<longrightarrow> conn_state t' = KDisconnected) \<and> (\<not> listed w c \<longrightarrow> \<not> listed w2 c) \<and>
        (conn_state t = KDisconnected \<and> \<not> polled w t \<longrightarrow> \<not> polled w2 t')"
    using t1 t2 by (intro exI [of _ t2]) simp
qed

lemma onward_same:
  "conns w' = conns w \<Longrightarrow> chans w' = chans w \<Longrightarrow> server w' = server w \<Longrightarrow> onward w w'"
  by (auto simp: onward_def listed_def polled_def)

lemma threads_refl [simp]: "threads w w"
  by (simp add: threads_def)

lemma threads_trans: "threads w w1 \<Longrightarrow> threads w1 w2 \<Longrightarrow> threads w w2"
proof -
  assume a: "threads w w1" "threads w1 w2"
  have "\<exists>e. loops w2 l = Some e \<and> threadId e = threadId el" if "loops w l = Some el" for l el
    using a that unfolding threads_def by metis
  moreover have "onward w w2" using a onward_trans unfolding threads_def by blast
  ultimately show ?thesis using a by (simp add: threads_def)
qed

lemma threads_moved: "threads w w' \<Longrightarrow> moved w w'"
  unfolding threads_def moved_def by (metis not_None_eq)

lemma moved_refl [simp]: "moved w w"
  by (simp add: moved_def)

lemma moved_trans: "moved w w1 \<Longrightarrow> moved w1 w2 \<Longrightarrow> moved w w2"
proof -
  assume a: "moved w w1" "moved w1 w2"
  then have "onward w w2" using onward_trans unfolding moved_def by blast
  then show ?thesis using a by (simp add: moved_def)
qed

lemma threads_running: "threads w w' \<Longrightarrow> running l w \<Longrightarrow> running l w'"
  unfolding running_def threads_def using isInLoopThread_cong by metis

lemma threads_put_loop:
  "loops w l = Some el \<Longrightarrow> threadId el' = threadId el \<Longrightarrow> threads w (put_loop l el' w)"
  by (simp add: threads_def onward_same)

lemma stable_refl [simp]: "stable w w"
  by (auto simp: stable_def)

lemma stable_trans: "stable w w1 \<Longrightarrow> stable w1 w2 \<Longrightarrow> stable w w2"
  unfolding stable_def by (intro conjI allI impI; (elim conjE)?; metis threads_trans)

lemma stable_threads: "stable w w' \<Longrightarrow> threads w w'"
  by (simp add: stable_def)

lemma stable_connD:
  assumes "stable w w'" and "conns w c = Some t"
  shows "\<exists>t'. conns w' c = Some t' \<and> conn_loop t' = conn_loop t \<and>
        conn_channel t' = conn_channel t \<and>
     (conn_state t \<noteq> KConnecting \<longrightarrow> conn_state t' \<noteq> KConnecting) \<and>
     (conn_state t = KDisconnected \<longrightarrow> conn_state t' = KDisconnected)"
  using assms unfolding stable_def threads_def onward_def by blast

lemma stable_chanD:
  assumes "stable w w'" and "chans w i = Some ch"
  shows "\<exists>ch'. chans w' i = Some ch' \<and> handlers ch' = handlers ch \<and> (ch_index ch \<noteq> kNew \<longrightarrow> ch_index ch' \<noteq> kNew)"
  using assms unfolding stable_def by blast

lemma stable_loopD: "stable w w' \<Longrightarrow> loops w l \<noteq> None \<Longrightarrow> loops w' l \<noteq> None"
  unfolding stable_def threads_def by (metis not_None_eq)

lemma stable_running: "stable w w' \<Longrightarrow> running l w \<Longrightarrow> running l w'"
  by (rule threads_running [OF stable_threads])

text \<open>
  \<open>runs E P r\<close>: the call returns in a state with \<open>P\<close>, or ends the program in one of the ways of \<open>E\<close>; nothing else
  can go wrong. \<open>exits\<close> are the ways a running server can end: the \<^verbatim>\<open>int\<close> that numbers connections overflows; a
  write to a stream whose reader is gone raises \<^verbatim>\<open>SIGPIPE\<close>, unless the process was started with the signal
  ignored; epoll_ctl(2) is refused for lack of resources and \<^verbatim>\<open>LOG_FATAL\<close> exits, unless the kernel never does that.
\<close>

definition exits :: "'k kernel \<Rightarrow> (fd \<Rightarrow> 'k \<Rightarrow> interest_list) \<Rightarrow> failure set" where
  "exits K interest = {Signed_Overflow} \<union> (if sigpipe_ignored K then {} else {Killed_SIGPIPE}) \<union>
     (if epoll_ctl_grants K interest then {} else {Exit_Fatal})"

lemma in_exits [simp]:
  "Signed_Overflow \<in> exits K interest" "Killed_SIGPIPE \<in> exits K interest \<longleftrightarrow> \<not> sigpipe_ignored K"
  "Exit_Fatal \<in> exits K interest \<longleftrightarrow> \<not> epoll_ctl_grants K interest"
  by (simp_all add: exits_def)

definition runs :: "failure set \<Rightarrow> ('w \<Rightarrow> bool) \<Rightarrow> 'w res \<Rightarrow> bool" where
  "runs E P r \<longleftrightarrow> (case r of Inl e \<Rightarrow> e \<in> E | Inr w \<Rightarrow> P w)"

lemma runs_Inr [simp]: "runs E P (Inr w) \<longleftrightarrow> P w" and runs_Inl [simp]: "runs E P (Inl e) \<longleftrightarrow> e \<in> E"
  by (simp_all add: runs_def)

lemma runs_bind: "runs E P r \<Longrightarrow> (\<And>w. P w \<Longrightarrow> runs E Q (f w)) \<Longrightarrow> runs E Q (bind_r r f)"
  by (cases r) simp_all

lemma runs_mono: "runs E P r \<Longrightarrow> (\<And>w. P w \<Longrightarrow> Q w) \<Longrightarrow> runs E Q r"
  by (cases r) simp_all

lemma server_invD:
  assumes "server_inv interest opened addr B X w"
  shows "net_wf interest opened w" "objs_wf X w" "tasks_wf B w" "server_ok addr w" "cared_ok B w"
  using assms by (simp_all add: server_inv_def)

section \<open>Steps that keep the invariant\<close>

text \<open>What the invariant reads of a loop besides its poller.\<close>

definition loop_view :: "event_loop \<Rightarrow> tid \<times> bool \<times> fd \<times> chan_id \<times> task list" where
  "loop_view el = (threadId el, loop_quit el, wakeupFd el, wakeupChannel el, pendingFunctors el)"

definition same_loops :: "('k, 'm) world_scheme \<Rightarrow> ('k, 'm) world_scheme \<Rightarrow> bool" where
  "same_loops w w' \<longleftrightarrow> (\<forall>l. map_option loop_view (loops w' l) = map_option loop_view (loops w l))"

definition same_objs :: "('k, 'm) sworld_scheme \<Rightarrow> ('k, 'm) sworld_scheme \<Rightarrow> bool" where
  "same_objs w w' \<longleftrightarrow> server w' = server w \<and> acceptor_obj w' = acceptor_obj w \<and> cur_thread w' = cur_thread w \<and>
     cachedTid w' = cachedTid w"

lemma same_loopsD:
  assumes "same_loops w w'"
  shows "loops w' l = Some el' \<Longrightarrow> \<exists>el. loops w l = Some el \<and> loop_view el = loop_view el'"
    and "loops w l = Some el \<Longrightarrow> \<exists>el'. loops w' l = Some el' \<and> loop_view el' = loop_view el"
    and "loops w' l = None \<longleftrightarrow> loops w l = None"
  using assms [unfolded same_loops_def, rule_format, of l] by (cases "loops w l"; cases "loops w' l"; simp)+

lemma same_loops_refl: "loops w' = loops w \<Longrightarrow> same_loops w w'"
  by (simp add: same_loops_def)

lemma same_loops_poller:
  "loops w l = Some el \<Longrightarrow> loops w' = (loops w)(l \<mapsto> el\<lparr>loop_poller := p\<rparr>) \<Longrightarrow> same_loops w w'"
  by (simp add: same_loops_def loop_view_def)

lemma same_loops_trans: "same_loops w w1 \<Longrightarrow> same_loops w1 w2 \<Longrightarrow> same_loops w w2"
  by (simp add: same_loops_def)

lemma owed_same: "same_loops w w' \<Longrightarrow> owed B w' = owed B w"
  using same_loopsD by (intro ext) (fastforce simp: owed_def loop_view_def split: option.split)

lemma wakeup_view: "loop_view el' = loop_view el \<Longrightarrow> loop_good l el' c = loop_good l el c"
  by (simp add: loop_view_def loop_good_def)

lemma handlersD:
  assumes "handlers ch' = handlers ch"
  shows "readCallback ch' = readCallback ch" "writeCallback ch' = writeCallback ch" "closeCallback ch' = closeCallback ch"
    "errorCallback ch' = errorCallback ch"
  using assms by (simp_all add: handlers_def)

lemma owner_ok_cong:
  assumes "owner_ok h i w" and "same_loops w w'" and "acceptor_obj w' = acceptor_obj w"
    and "\<And>c t. conns w c = Some t \<Longrightarrow> \<exists>t'. conns w' c = Some t' \<and> conn_channel t' = conn_channel t"
  shows "owner_ok h i w'"
  using assms(1)
proof (cases "(h, i, w)" rule: owner_ok.cases)
  case (1 l i' w0)
  with assms(1) obtain el where "loops w l = Some el" "wakeupChannel el = i" by auto
  with same_loopsD(2) [OF assms(2)] 1 show ?thesis by (fastforce simp: loop_view_def)
next
  case (3 c i' w0)
  with assms(1) obtain t where "conns w c = Some t" "conn_channel t = i" by auto
  with assms(4) 3 show ?thesis by fastforce
qed (use assms in auto)

text \<open>The channels of a loop, of the acceptor and of the connections are all different.\<close>

lemma objs_wfD:
  assumes "objs_wf X w"
  shows "chans w i = Some ch \<Longrightarrow> owner_ok (readCallback ch) i w"
    and "loops w l = Some el \<Longrightarrow> \<exists>ch. chans w (wakeupChannel el) = Some ch \<and> loop_good l el ch"
    and "acceptor_obj w = Some a \<Longrightarrow> \<exists>ch. chans w (acceptChannel a) = Some ch \<and> acceptor_chan a ch"
    and "conns w c = Some t \<Longrightarrow> \<exists>ch. chans w (conn_channel t) = Some ch \<and> conn_good X c t ch"
  using assms unfolding objs_wf_def by blast+

lemma conn_chan_other:
  assumes wf: "objs_wf X w" and t: "conns w c = Some t"
  shows "loops w l = Some el \<Longrightarrow> wakeupChannel el \<noteq> conn_channel t"
    and "acceptor_obj w = Some a \<Longrightarrow> acceptChannel a \<noteq> conn_channel t"
    and "conns w d = Some s \<Longrightarrow> d \<noteq> c \<Longrightarrow> conn_channel s \<noteq> conn_channel t"
proof -
  from objs_wfD(4) [OF wf t] obtain ch where ch: "chans w (conn_channel t) = Some ch"
      "readCallback ch = Some (ConnHandleRead c)" by (auto simp: conn_good_def conn_chan_def)
  show "wakeupChannel el \<noteq> conn_channel t" if "loops w l = Some el"
    using objs_wfD(2) [OF wf that] ch by (auto simp: loop_good_def)
  show "acceptChannel a \<noteq> conn_channel t" if "acceptor_obj w = Some a"
    using objs_wfD(3) [OF wf that] ch by (auto simp: acceptor_chan_def)
  show "conn_channel s \<noteq> conn_channel t" if "conns w d = Some s" "d \<noteq> c"
    using objs_wfD(4) [OF wf that(1)] that(2) ch by (auto simp: conn_good_def conn_chan_def)
qed

lemma objs_conn_step:
  assumes wf: "objs_wf X w" and t: "conns w c = Some t" and ch: "chans w (conn_channel t) = Some ch"
    and upd: "conns w' = (conns w)(c \<mapsto> t')" "chans w' = (chans w)(conn_channel t \<mapsto> ch')" "same_loops w w'"
      "acceptor_obj w' = acceptor_obj w"
    and keep: "conn_channel t' = conn_channel t" "handlers ch' = handlers ch"
    and good: "conn_good X' c t' ch'" and X: "\<And>d. d \<noteq> c \<Longrightarrow> d \<notin> X' \<Longrightarrow> d \<notin> X"
  shows "objs_wf X' w'"
  unfolding objs_wf_def
proof (intro conjI allI impI)
  note D = objs_wfD [OF wf] and O = conn_chan_other [OF wf t]
  fix i d assume i: "chans w' i = Some d"
  have "\<exists>d0. chans w i = Some d0 \<and> readCallback d0 = readCallback d"
    using i upd(2) ch handlersD(1) [OF keep(2)] by (auto split: if_splits)
  then have "owner_ok (readCallback d) i w" using D(1) by metis
  then show "owner_ok (readCallback d) i w'"
    by (rule owner_ok_cong [OF _ upd(3,4)]) (use t upd(1) keep(1) in auto)
next
  note D = objs_wfD [OF wf] and O = conn_chan_other [OF wf t]
  fix l el' assume "loops w' l = Some el'"
  from same_loopsD(1) [OF upd(3) this] obtain el where el: "loops w l = Some el" "loop_view el = loop_view el'" by blast
  then have "wakeupChannel el' = wakeupChannel el" by (simp add: loop_view_def)
  then show "\<exists>d. chans w' (wakeupChannel el') = Some d \<and> loop_good l el' d"
    using D(2) [OF el(1)] O(1) [OF el(1)] upd(2) wakeup_view [OF el(2)] by auto
next
  note D = objs_wfD [OF wf] and O = conn_chan_other [OF wf t]
  fix a assume "acceptor_obj w' = Some a"
  then have a: "acceptor_obj w = Some a" using upd(4) by simp
  show "\<exists>d. chans w' (acceptChannel a) = Some d \<and> acceptor_chan a d" using D(3) [OF a] O(2) [OF a] upd(2) by auto
next
  note D = objs_wfD [OF wf] and O = conn_chan_other [OF wf t]
  fix d s assume s: "conns w' d = Some s"
  show "\<exists>e. chans w' (conn_channel s) = Some e \<and> conn_good X' d s e"
  proof (cases "d = c")
    case True
    with s upd(1,2) keep(1) good show ?thesis by simp
  next
    case False
    with s upd(1) have s0: "conns w d = Some s" by simp
    from D(4) [OF s0] O(3) [OF s0 False] upd(2) X [OF False] show ?thesis by (auto simp: conn_good_def)
  qed
qed

lemma task_ok_cong:
  assumes "task_ok w l tk" and "server w' = server w"
    and "\<And>c t. conns w c = Some t \<Longrightarrow> \<exists>t'. conns w' c = Some t' \<and> conn_loop t' = conn_loop t \<and>
       (conn_state t = KDisconnected \<longrightarrow> conn_state t' = KDisconnected) \<and>
       (conn_state t = KConnecting \<longrightarrow> conn_state t' = KConnecting \<or> tk \<noteq> ConnectionEstablished c)"
  shows "task_ok w' l tk"
  using assms by (cases tk) (simp_all, (metis+)?)

lemma established_ids_mem: "c \<in> set (established_ids ts) \<longleftrightarrow> ConnectionEstablished c \<in> set ts"
  by (force simp: established_ids_def split: task.splits)

lemma names_ok_conn:
  assumes "names_ok v cs" and "cs c = Some t" and "conn_name t' = conn_name t"
    and "conn_state t = KDisconnected \<longrightarrow> conn_state t' = KDisconnected"
  shows "names_ok v (cs(c \<mapsto> t'))"
  unfolding names_ok_def
proof (intro conjI allI impI)
  note N = assms(1) [unfolded names_ok_def]
  have old: "\<exists>s0. cs d = Some s0 \<and> conn_name s0 = conn_name s \<and> (conn_state s \<noteq> KDisconnected \<longrightarrow> conn_state s0 \<noteq> KDisconnected)"
    if "(cs(c \<mapsto> t')) d = Some s" for d s using that assms(2-4) by (auto split: if_splits)
  fix d s assume d: "(cs(c \<mapsto> t')) d = Some s"
  from old [OF d] N show "\<exists>i. 1 \<le> i \<and> i < nextConnId v \<and> conn_name s = connName v i" by metis
next
  note N = assms(1) [unfolded names_ok_def]
  have old: "\<exists>s0. cs d = Some s0 \<and> conn_name s0 = conn_name s" if "(cs(c \<mapsto> t')) d = Some s" for d s
    using that assms(2-4) by (auto split: if_splits)
  fix d e s r assume a: "(cs(c \<mapsto> t')) d = Some s \<and> (cs(c \<mapsto> t')) e = Some r \<and> conn_name s = conn_name r"
  then obtain s0 r0 where "cs d = Some s0" "conn_name s0 = conn_name s" "cs e = Some r0" "conn_name r0 = conn_name r"
    using old by metis
  then show "d = e" using N a by metis
next
  note N = assms(1) [unfolded names_ok_def]
  fix d s assume a: "(cs(c \<mapsto> t')) d = Some s \<and> conn_state s \<noteq> KDisconnected"
  then obtain s0 where "cs d = Some s0" "conn_name s0 = conn_name s" "conn_state s0 \<noteq> KDisconnected"
    using assms(2-4) by (auto split: if_splits)
  then show "map_of (connections v) (conn_name s) = Some d" using N by metis
next
  note N = assms(1) [unfolded names_ok_def]
  fix n d assume "map_of (connections v) n = Some d"
  then obtain s where "cs d = Some s" "conn_name s = n" using N by metis
  then show "\<exists>t. (cs(c \<mapsto> t')) d = Some t \<and> conn_name t = n" using assms(2,3) by auto
qed

text \<open>A connection's functors after a step that changes that connection, its channel and its own functors.\<close>

lemma tasks_conn_step:
  assumes "tasks_wf B w" and so: "server w' = server w" and upd: "conns w' = (conns w)(c \<mapsto> t')"
    and owed: "\<And>l tk. \<not> holds c tk \<Longrightarrow> tk \<in> set (owed B' w' l) \<longleftrightarrow> tk \<in> set (owed B w l)"
    and mine: "\<And>l tk. tk \<in> set (owed B' w' l) \<Longrightarrow> holds c tk \<Longrightarrow> task_ok w' l tk"
    and once: "\<And>l. distinct (established_ids (owed B' w' l))"
  shows "tasks_wf B' w'"
  unfolding tasks_wf_def tasks_ok_def
proof (intro allI conjI ballI once)
  fix l tk assume tk: "tk \<in> set (owed B' w' l)"
  show "task_ok w' l tk"
  proof (cases "holds c tk")
    case True
    then show ?thesis using mine tk by blast
  next
    case False
    then have "task_ok w l tk" using assms(1) owed tk by (auto simp: tasks_wf_def tasks_ok_def)
    then show ?thesis using False so upd by (cases tk) (auto simp: holds_def)
  qed
qed

lemma cared_conn_step:
  assumes wf: "objs_wf X w" and t: "conns w c = Some t" and cared: "cared_ok B w" and so: "server w' = server w"
    and upd: "conns w' = (conns w)(c \<mapsto> t')" "chans w' = (chans w)(conn_channel t \<mapsto> ch')"
    and owed: "\<And>l tk. \<not> holds c tk \<Longrightarrow> tk \<in> set (owed B' w' l) \<longleftrightarrow> tk \<in> set (owed B w l)"
    and due: "\<And>l tk. due w' c t' = Some (l, tk) \<Longrightarrow> tk \<in> set (owed B' w' l)"
  shows "cared_ok B' w'"
  unfolding cared_ok_def
proof (intro allI impI)
  fix d s l tk assume a: "conns w' d = Some s \<and> due w' d s = Some (l, tk)"
  show "tk \<in> set (owed B' w' l)"
  proof (cases "d = c")
    case True
    then show ?thesis using a due upd(1) by simp
  next
    case False
    then have s: "conns w d = Some s" using a upd(1) by simp
    have "polled w' s = polled w s"
      using upd(2) conn_chan_other(3) [OF wf t s False] by (intro polled_same) simp
    then have "due w' d s = due w d s" using so listed_same [OF so] by (intro due_cong) simp_all
    then have "tk \<in> set (owed B w l)" using cared s a by (auto simp: cared_ok_def)
    moreover have "\<not> holds c tk" using a due_holds [of w' d s l tk] False by (auto simp: holds_def)
    ultimately show ?thesis using owed by blast
  qed
qed

text \<open>The master step: an operation that changes one connection, its channel and its functors.\<close>

lemma inv_conn_step_moves:
  assumes inv: "server_inv interest opened addr B X w" and t: "conns w c = Some t" and ch: "chans w (conn_channel t) = Some ch"
    and net: "net_wf interest opened w'"
    and upd: "conns w' = (conns w)(c \<mapsto> t')" "chans w' = (chans w)(conn_channel t \<mapsto> ch')" "same_loops w w'" "same_objs w w'"
    and keep: "conn_channel t' = conn_channel t" "conn_loop t' = conn_loop t" "conn_name t' = conn_name t"
      "handlers ch' = handlers ch"
    and good: "conn_good X' c t' ch'" and X: "\<And>d. d \<noteq> c \<Longrightarrow> d \<notin> X' \<Longrightarrow> d \<notin> X"
    and st: "conn_state t \<noteq> KConnecting \<Longrightarrow> conn_state t' \<noteq> KConnecting" "conn_state t = KDisconnected \<Longrightarrow> conn_state t' = KDisconnected"
      "conn_state t = KDisconnected \<Longrightarrow> ch_index ch = kNew \<Longrightarrow> ch_index ch' = kNew"
    and owed: "\<And>l tk. \<not> holds c tk \<Longrightarrow> tk \<in> set (owed B' w l) \<longleftrightarrow> tk \<in> set (owed B w l)"
    and mine: "\<And>l tk. tk \<in> set (owed B' w l) \<Longrightarrow> holds c tk \<Longrightarrow> task_ok w' l tk"
    and once: "\<And>l. distinct (established_ids (owed B' w l))"
    and due: "\<And>l tk. due w' c t' = Some (l, tk) \<Longrightarrow> tk \<in> set (owed B' w l)"
  shows "server_inv interest opened addr B' X' w' \<and> threads w w' \<and> ((ch_index ch \<noteq> kNew \<longrightarrow> ch_index ch' \<noteq> kNew) \<longrightarrow> stable w w')"
proof -
  note I = server_invD [OF inv]
  have so: "server w' = server w" "acceptor_obj w' = acceptor_obj w" "cur_thread w' = cur_thread w" "cachedTid w' = cachedTid w"
    using upd(4) by (simp_all add: same_objs_def)
  have ow: "owed B' w' = owed B' w" by (rule owed_same [OF upd(3)])
  have objs: "objs_wf X' w'"
    by (rule objs_conn_step [OF I(2) t ch upd(1-3) so(2) keep(1,4) good X])
  have tasks: "tasks_wf B' w'" by (rule tasks_conn_step [OF I(3) so(1) upd(1)]) (use owed mine once in \<open>simp_all add: ow\<close>)
  have cared: "cared_ok B' w'" by (rule cared_conn_step [OF I(2) t I(5) so(1) upd(1,2)]) (use owed due in \<open>simp_all add: ow\<close>)
  have "server_ok addr w'"
  proof -
    have none: "loops w' l = None \<longleftrightarrow> loops w l = None" for l using same_loopsD(3) [OF upd(3)] .
    have nm: "names_ok v (conns w')" if "names_ok v (conns w)" for v
      unfolding upd(1) by (rule names_ok_conn [OF that t keep(3)]) (use st in auto)
    from I(4) obtain v a where v: "server w = Some v" "acceptor_obj w = Some a"
       "server_good addr v a (\<lambda>l. loops w l \<noteq> None) (conns w)" by (rule server_okE)
    have "server_good addr v a (\<lambda>l. loops w' l \<noteq> None) (conns w')"
      by (rule server_good_mono [OF v(3)]) (use none nm v(3) in \<open>auto simp: server_good_def\<close>)
    then show ?thesis using v(1,2) so by (simp add: server_ok_def)
  qed
  moreover have "onward w w'"
    unfolding onward_def
  proof (intro allI impI)
    fix d s assume s: "conns w d = Some s"
    show "\<exists>s'. conns w' d = Some s' \<and> conn_loop s' = conn_loop s \<and> conn_channel s' = conn_channel s \<and>
        (conn_state s \<noteq> KConnecting \<longrightarrow> conn_state s' \<noteq> KConnecting) \<and>
        (conn_state s = KDisconnected \<longrightarrow> conn_state s' = KDisconnected) \<and> (\<not> listed w d \<longrightarrow> \<not> listed w' d) \<and>
        (conn_state s = KDisconnected \<and> \<not> polled w s \<longrightarrow> \<not> polled w' s')"
    proof (cases "d = c")
      case True
      then show ?thesis using s t ch upd(1,2) keep(1,2) st listed_same [OF so(1)] by (auto simp: polled_def)
    next
      case False
      have "polled w' s = polled w s"
        using upd(2) conn_chan_other(3) [OF I(2) t s False] by (intro polled_same) simp
      then show ?thesis using s False upd(1) listed_same [OF so(1)] by simp
    qed
  qed
  then have th: "threads w w'"
    unfolding threads_def using so same_loopsD(2) [OF upd(3)] by (auto simp: loop_view_def)
  moreover have "stable w w'" if "ch_index ch \<noteq> kNew \<longrightarrow> ch_index ch' \<noteq> kNew"
    unfolding stable_def
  proof (intro conjI allI impI th)
    show "\<exists>ch'. chans w' i = Some ch' \<and> handlers ch' = handlers d \<and> (ch_index d \<noteq> kNew \<longrightarrow> ch_index ch' \<noteq> kNew)"
      if "chans w i = Some d" for i d
      using that \<open>ch_index ch \<noteq> kNew \<longrightarrow> ch_index ch' \<noteq> kNew\<close> ch upd(2) keep(4) by (cases "i = conn_channel t") auto
  qed
  ultimately show ?thesis using net objs tasks cared by (simp add: server_inv_def)
qed

text \<open>The step that changes no functor: the state stays, or an open connection starts to shut down.\<close>

lemma inv_conn_step_weak:
  assumes inv: "server_inv interest opened addr B X w" and t: "conns w c = Some t" and ch: "chans w (conn_channel t) = Some ch"
    and net: "net_wf interest opened w'"
    and upd: "conns w' = (conns w)(c \<mapsto> t')" "chans w' = (chans w)(conn_channel t \<mapsto> ch')" "same_loops w w'" "same_objs w w'"
    and keep: "conn_channel t' = conn_channel t" "conn_loop t' = conn_loop t" "conn_name t' = conn_name t"
      "handlers ch' = handlers ch"
    and good: "conn_good X' c t' ch'" and X: "\<And>d. d \<noteq> c \<Longrightarrow> d \<notin> X' \<Longrightarrow> d \<notin> X"
    and st: "conn_state t' = conn_state t \<and> (ch_index ch = kNew \<longrightarrow> ch_index ch' = kNew) \<or>
      conn_state t = KConnected \<and> conn_state t' = KDisconnecting"
  shows "server_inv interest opened addr B X' w' \<and> threads w w' \<and> ((ch_index ch \<noteq> kNew \<longrightarrow> ch_index ch' \<noteq> kNew) \<longrightarrow> stable w w')"
proof (rule inv_conn_step_moves [OF inv t ch net upd keep good X])
  note I = server_invD [OF inv]
  have so: "server w' = server w" using upd(4) by (simp add: same_objs_def)
  have T: "task_ok w l tk" if "tk \<in> set (owed B w l)" for l tk using I(3) that by (simp add: tasks_wf_def tasks_ok_def)
  show "task_ok w' l tk" if "tk \<in> set (owed B w l)" "holds c tk" for l tk
    using T [OF that(1)] that(2) t st upd(1) so keep(2) by (auto simp: holds_def)
  show "distinct (established_ids (owed B w l))" for l using I(3) by (simp add: tasks_wf_def tasks_ok_def)
  fix l tk assume a: "due w' c t' = Some (l, tk)"
  have "polled w' t' \<longrightarrow> polled w t" if "ch_index ch = kNew \<longrightarrow> ch_index ch' = kNew"
    using that ch upd(2) keep(1) by (auto simp: polled_def)
  then have "due w c t = Some (l, tk)"
    using a st so listed_same [OF so] keep(2) by (auto simp: due_def split: StateE.splits if_splits)
  then show "tk \<in> set (owed B w l)" using I(5) t by (auto simp: cared_ok_def)
qed (use st in auto)

lemma inv_conn_step:
  assumes "server_inv interest opened addr B X w" and "conns w c = Some t" and "chans w (conn_channel t) = Some ch"
    and "net_wf interest opened w'"
    and "conns w' = (conns w)(c \<mapsto> t')" "chans w' = (chans w)(conn_channel t \<mapsto> ch')" "same_loops w w'" "same_objs w w'"
    and "conn_channel t' = conn_channel t" "conn_loop t' = conn_loop t" "conn_name t' = conn_name t" "handlers ch' = handlers ch"
    and "conn_good X' c t' ch'" and "\<And>d. d \<noteq> c \<Longrightarrow> d \<notin> X' \<Longrightarrow> d \<notin> X"
    and "conn_state t' = conn_state t \<and> (ch_index ch = kNew \<longrightarrow> ch_index ch' = kNew) \<or>
      conn_state t = KConnected \<and> conn_state t' = KDisconnecting"
    and "ch_index ch \<noteq> kNew \<longrightarrow> ch_index ch' \<noteq> kNew"
  shows "server_inv interest opened addr B X' w' \<and> stable w w'"
  using inv_conn_step_weak [OF assms(1-15)] assms(16) by blast

text \<open>An operation that changes occurred events, pollers and the system only.\<close>

lemma set_revents_good [simp]:
  "conn_good X c t (set_revents r ch) = conn_good X c t ch" "loop_good l el (set_revents r ch) = loop_good l el ch"
  "acceptor_chan a (set_revents r ch) = acceptor_chan a ch" "readCallback (set_revents r ch) = readCallback ch"
  "handlers (set_revents r ch) = handlers ch"
proof -
  have "state_good st t (set_revents r ch) = state_good st t ch" for st
    by (cases st) (simp_all add: set_revents_def isWriting_def)
  then show "conn_good X c t (set_revents r ch) = conn_good X c t ch"
    by (simp add: conn_good_def conn_chan_def set_revents_def)
qed (simp_all add: set_revents_def loop_good_def acceptor_chan_def handlers_def)

lemma inv_frame:
  assumes inv: "server_inv interest opened addr B X w" and net: "net_wf interest opened w'"
    and upd: "conns w' = conns w" "\<And>i. \<exists>r. chans w' i = map_option (set_revents r) (chans w i)" "same_loops w w'" "same_objs w w'"
  shows "server_inv interest opened addr B X w' \<and> stable w w'"
proof -
  note I = server_invD [OF inv] and D = objs_wfD [OF server_invD(2) [OF inv]]
  have so: "server w' = server w" "acceptor_obj w' = acceptor_obj w" "cur_thread w' = cur_thread w" "cachedTid w' = cachedTid w"
    using upd(4) by (simp_all add: same_objs_def)
  have up: "\<exists>r. chans w' i = Some (set_revents r ch)" if "chans w i = Some ch" for i ch
    using upd(2) [of i] that by auto
  have "objs_wf X w'"
    unfolding objs_wf_def
  proof (intro conjI allI impI)
    fix i d assume "chans w' i = Some d"
    moreover obtain r where "chans w' i = map_option (set_revents r) (chans w i)" using upd(2) by blast
    ultimately obtain d0 where d0: "chans w i = Some d0" "d = set_revents r d0" by (cases "chans w i") auto
    show "owner_ok (readCallback d) i w'"
      using owner_ok_cong [OF D(1) [OF d0(1)] upd(3) so(2)] upd(1) d0(2) by simp
  next
    fix l el' assume "loops w' l = Some el'"
    from same_loopsD(1) [OF upd(3) this] obtain el where el: "loops w l = Some el" "loop_view el = loop_view el'" by blast
    then have "wakeupChannel el' = wakeupChannel el" by (simp add: loop_view_def)
    then show "\<exists>d. chans w' (wakeupChannel el') = Some d \<and> loop_good l el' d"
      using D(2) [OF el(1)] wakeup_view [OF el(2)] up by fastforce
  next
    fix a assume "acceptor_obj w' = Some a"
    then show "\<exists>d. chans w' (acceptChannel a) = Some d \<and> acceptor_chan a d" using D(3) [of a] so(2) up by fastforce
  next
    fix c t assume "conns w' c = Some t"
    then show "\<exists>d. chans w' (conn_channel t) = Some d \<and> conn_good X c t d" using D(4) [of c t] upd(1) up by fastforce
  qed
  moreover have "task_ok w' l tk = task_ok w l tk" for l tk using so(1) upd(1) by (cases tk) simp_all
  then have "tasks_wf B w'" using I(3) by (simp add: tasks_wf_def tasks_ok_def owed_same [OF upd(3)])
  moreover have "server_ok addr w'"
    using I(4) same_loopsD(3) [OF upd(3)] unfolding server_ok_def so upd(1) by simp
  moreover have pol: "polled w' t = polled w t" for t
    using upd(2) [of "conn_channel t"] by (cases "chans w (conn_channel t)") (auto simp: polled_def set_revents_def)
  have "due w' c t = due w c t" for c t
    using so(1) listed_same [OF so(1)] pol by (intro due_cong) simp_all
  then have "cared_ok B w'" using I(5) upd(1) by (simp add: cared_ok_def owed_same [OF upd(3)])
  moreover have "stable w w'"
    unfolding stable_def threads_def so
  proof (intro conjI allI impI refl)
    fix i ch assume "chans w i = Some ch"
    from up [OF this] show "\<exists>ch'. chans w' i = Some ch' \<and> handlers ch' = handlers ch \<and>
        (ch_index ch \<noteq> kNew \<longrightarrow> ch_index ch' \<noteq> kNew)" by (auto simp: set_revents_def handlers_def)
  next
    fix l el assume "loops w l = Some el"
    from same_loopsD(2) [OF upd(3) this] show "\<exists>el'. loops w' l = Some el' \<and> threadId el' = threadId el"
      by (auto simp: loop_view_def)
  next
    show "onward w w'" using upd(1) pol listed_same [OF so(1)] by (auto simp: onward_def)
  qed auto
  ultimately show ?thesis using net by (simp add: server_inv_def)
qed

lemma revents_same: "cs' = cs \<Longrightarrow> \<exists>r. cs' i = map_option (set_revents r) (cs i :: channel option)"
  by (cases "cs i") (auto simp: set_revents_def intro!: exI [of _ "ch_revents (the (cs i))"])

lemma inv_put_sys:
  "server_inv interest opened addr B X w \<Longrightarrow> quiet interest opened (os (wsys w)) (os \<sigma>) \<Longrightarrow>
     server_inv interest opened addr B X (put_sys \<sigma> w) \<and> stable w (put_sys \<sigma> w)"
  by (rule inv_frame) (auto intro!: net_put_sys revents_same same_loops_refl dest: server_invD simp: same_objs_def)

lemma inv_log_err:
  "server_inv interest opened addr B X w \<Longrightarrow>
     server_inv interest opened addr B X (log_err msg w) \<and> stable w (log_err msg w)"
  by (rule inv_frame) (auto intro!: revents_same same_loops_refl dest: server_invD simp: same_objs_def)

lemma same_rest_objs:
  fixes w w' :: "('k, 'm) sworld_scheme"
  shows "same_rest w w' \<Longrightarrow> same_objs w w' \<and> conns w' = conns w \<and> strings w' = strings w"
  using more_server [of w' w] more_acceptor [of w' w] more_conns(1,2) [of w' w] by (simp add: same_rest_def same_objs_def)

section \<open>A functor moves between the batch and the code\<close>

lemma owed_batch: "owed (B(l := tk # ts)) w l' = (if l' = l then tk # owed (B(l := ts)) w l' else owed (B(l := ts)) w l')"
  by (simp add: owed_def)

lemma established_ids_Cons:
  "established_ids (tk # ts) = (case tk of ConnectionEstablished c \<Rightarrow> c # established_ids ts | _ \<Rightarrow> established_ids ts)"
  by (simp add: established_ids_def split: task.split)

lemma inv_batch_add:
  assumes inv: "server_inv interest opened addr B X w" and tk: "task_ok w l tk" "\<And>c. tk \<noteq> ConnectionEstablished c"
  shows "server_inv interest opened addr (B(l := tk # B l)) X w"
proof -
  note I = server_invD [OF inv]
  have ow: "owed (B(l := tk # B l)) w l' = (if l' = l then tk # owed B w l' else owed B w l')" for l'
    by (simp add: owed_def)
  have "established_ids (tk # ts) = established_ids ts" for ts
    using tk(2) by (simp add: established_ids_Cons split: task.split)
  then have "tasks_wf (B(l := tk # B l)) w" using I(3) tk(1) by (simp add: tasks_wf_def tasks_ok_def ow)
  moreover have "cared_ok (B(l := tk # B l)) w" using I(5) by (auto simp: cared_ok_def ow)
  ultimately show ?thesis using I by (simp add: server_inv_def)
qed

text \<open>A functor that is due to no connection, or owed once more, may be forgotten.\<close>

lemma inv_batch_drop:
  assumes inv: "server_inv interest opened addr (B(l := tk # ts)) X w"
    and rel: "\<And>c t. holds c tk \<Longrightarrow> conns w c = Some t \<Longrightarrow> due w c t = Some (l, tk) \<Longrightarrow> tk \<in> set (owed (B(l := ts)) w l)"
  shows "server_inv interest opened addr (B(l := ts)) X w"
proof -
  note I = server_invD [OF inv] and ow = owed_batch [of B l tk ts w]
  have "distinct (established_ids (tk # us)) \<Longrightarrow> distinct (established_ids us)" for us
    by (simp add: established_ids_Cons split: task.splits)
  then have "tasks_wf (B(l := ts)) w" using I(3) unfolding tasks_wf_def tasks_ok_def ow by (metis list.set_intros(2))
  moreover have "cared_ok (B(l := ts)) w"
    unfolding cared_ok_def
  proof (intro allI impI)
    fix c t l' tk' assume a: "conns w c = Some t \<and> due w c t = Some (l', tk')"
    then have "tk' \<in> set (owed (B(l := tk # ts)) w l')" using I(5) unfolding cared_ok_def by blast
    then show "tk' \<in> set (owed (B(l := ts)) w l')" using rel [of c t] a due_holds [of w c t l' tk'] unfolding ow by (auto split: if_splits)
  qed
  ultimately show ?thesis using I by (simp add: server_inv_def)
qed

text \<open>A functor of the batch is queued instead.\<close>

lemma inv_queue:
  assumes K: "net_kernel K interest opened" and inv: "server_inv interest opened addr (B(l := tk # B l)) X w"
    and l: "loops w l \<noteq> None"
  shows "\<exists>w'. queueInLoop K l tk w = Inr w' \<and> server_inv interest opened addr B X w' \<and> stable w w'"
proof -
  note I = server_invD [OF inv] and D = objs_wfD [OF server_invD(2) [OF inv]]
  from l obtain el where el: "loops w l = Some el" by blast
  let ?el = "el\<lparr>pendingFunctors := pendingFunctors el @ [tk]\<rparr>"
  from net_queue [OF K I(1) el] obtain w' where w': "queueInLoop K l tk w = Inr w'" "net_wf interest opened w'"
     "loops w' = (loops w)(l \<mapsto> ?el)" "chans w' = chans w" "same_rest w w'" by blast
  have so: "server w' = server w" "acceptor_obj w' = acceptor_obj w" "cur_thread w' = cur_thread w"
      "cachedTid w' = cachedTid w" "conns w' = conns w"
    using same_rest_objs [OF w'(5)] by (simp_all add: same_objs_def)
  have owner: "owner_ok h i w'" if "owner_ok h i w" for h i
    using that w'(3) el so(2,5) by (cases "(h, i, w)" rule: owner_ok.cases) auto
  have objs: "objs_wf X w'"
    using D owner w'(3,4) el so(2,5) unfolding objs_wf_def by (auto simp: loop_good_def split: if_splits)
  have task: "task_ok w' l' t = task_ok w l' t" for l' t using so(1,5) by (cases t) simp_all
  have ow: "owed B w' l' = owed B w l' @ (if l' = l then [tk] else [])"
      "owed (B(l := tk # B l)) w l' = (if l' = l then [tk] else []) @ owed B w l'" for l'
    using w'(3) el by (simp_all add: owed_def)
  have est: "established_ids (ts @ [tk]) = established_ids ts @ established_ids [tk]"
      "established_ids (tk # ts) = established_ids [tk] @ established_ids ts" for ts
    by (simp_all add: established_ids_def)
  have "tasks_ok w l' (owed B w' l')" for l'
  proof -
    have T: "tasks_ok w l' (owed (B(l := tk # B l)) w l')" using I(3) unfolding tasks_wf_def by blast
    show ?thesis
    proof (cases "l' = l")
      case True
      with T have "distinct (established_ids [tk] @ established_ids (owed B w l))" "\<forall>t \<in> set (owed B w l). task_ok w l t" "task_ok w l tk"
        unfolding ow by (simp_all add: tasks_ok_def est(2) [of "owed B w l"])
      then show ?thesis unfolding ow using True by (simp add: tasks_ok_def est(1) Int_commute)
    next
      case False
      then show ?thesis using T unfolding ow by simp
    qed
  qed
  then have tasks: "tasks_wf B w'" by (simp add: tasks_wf_def tasks_ok_def task)
  have "loops w' l' \<noteq> None \<longleftrightarrow> loops w l' \<noteq> None" for l' using w'(3) el by simp
  then have server: "server_ok addr w'" using I(4) unfolding server_ok_def so by simp
  have "set (owed (B(l := tk # B l)) w l') = set (owed B w' l')" for l' unfolding ow by auto
  moreover have "due w' c t = due w c t" for c t
    using so(1) listed_same [OF so(1)] polled_same [of w' t w] w'(4) by (intro due_cong) simp_all
  ultimately have cared: "cared_ok B w'" using I(5) so(5) by (simp add: cared_ok_def)
  have "stable w w'"
    using w'(3,4) el so onward_same [of w' w] unfolding stable_def threads_def by auto
  then show ?thesis using w'(1,2) objs tasks server cared by (auto simp: server_inv_def)
qed

text \<open>The functor at the head of a batch can run; a \<^verbatim>\<open>connectionEstablished\<close> is owed once.\<close>

lemma batch_task:
  assumes "server_inv interest opened addr (B(l := tk # ts)) X w"
  shows "task_ok w l tk" and "tk = ConnectionEstablished c \<Longrightarrow> ConnectionEstablished c \<notin> set (owed (B(l := ts)) w l')"
proof -
  have T: "tasks_ok w l' (owed (B(l := tk # ts)) w l')" for l' using server_invD(3) [OF assms] by (simp add: tasks_wf_def)
  show ok: "task_ok w l tk" using T [of l] unfolding owed_batch by (simp add: tasks_ok_def)
  assume tk: "tk = ConnectionEstablished c"
  show "ConnectionEstablished c \<notin> set (owed (B(l := ts)) w l')"
  proof (cases "l' = l")
    case True
    then show ?thesis using T [of l] tk unfolding owed_batch
      by (simp add: tasks_ok_def established_ids_Cons established_ids_mem)
  next
    case False
    show ?thesis
    proof
      assume "ConnectionEstablished c \<in> set (owed (B(l := ts)) w l')"
      moreover have "tasks_ok w l' (owed (B(l := ts)) w l')" using T [of l'] False unfolding owed_batch by simp
      ultimately have "task_ok w l' (ConnectionEstablished c)" unfolding tasks_ok_def by blast
      then show False using ok tk False by auto
    qed
  qed
qed

text \<open>Connections that are not down are in the server's map, hence held.\<close>

lemma inv_listed:
  assumes inv: "server_inv interest opened addr B X w" and t: "conns w c = Some t" "conn_state t \<noteq> KDisconnected"
  shows "listed w c"
proof -
  obtain v a where v: "server w = Some v" "server_good addr v a (\<lambda>l. loops w l \<noteq> None) (conns w)"
    using server_invD(4) [OF inv] by (rule server_okE)
  then have "map_of (connections v) (conn_name t) = Some c" using t unfolding server_good_def names_ok_def by blast
  then show ?thesis using v(1) unfolding listed_def by blast
qed

lemma held_open:
  "server_inv interest opened addr B X w \<Longrightarrow> conns w c = Some t \<Longrightarrow> conn_state t \<noteq> KDisconnected \<Longrightarrow> held B w c"
  by (simp add: held_def inv_listed)

text \<open>The server does not change its loop.\<close>

lemma server_stays:
  assumes "server_inv interest opened addr B X w" and "server_inv interest opened addr B' X' w'" and "moved w w'"
    and "server w = Some v"
  shows "\<exists>v'. server w' = Some v' \<and> srv_loop v' = srv_loop v"
proof -
  obtain a where a: "acceptor_obj w = Some a" "acc_loop a = srv_loop v"
    using server_invD(4) [OF assms(1)] assms(4) by (auto elim!: server_okE simp: server_good_def)
  obtain v' a' where v': "server w' = Some v'" "acceptor_obj w' = Some a'" "acc_loop a' = srv_loop v'"
    using server_invD(4) [OF assms(2)] by (auto elim!: server_okE simp: server_good_def)
  have "a' = a" using assms(3) a(1) v'(2) by (simp add: moved_def)
  then show ?thesis using v' a(2) by simp
qed

text \<open>A connection whose channel the poller knows is held.\<close>

lemma held_polled:
  assumes inv: "server_inv interest opened addr B X w" and t: "conns w c = Some t" "polled w t"
  shows "held B w c"
proof (cases "conn_state t = KDisconnected \<and> \<not> listed w c")
  case True
  then have "due w c t = Some (conn_loop t, ConnectionDestroyed c)" using t(2) by (simp add: due_def)
  then have "ConnectionDestroyed c \<in> set (owed B w (conn_loop t))"
    using server_invD(5) [OF inv] t(1) unfolding cared_ok_def by blast
  then show ?thesis unfolding held_def holds_def by blast
next
  case False
  then show ?thesis using held_open [OF inv t(1)] by (auto simp: held_def)
qed

section \<open>Finitely many objects\<close>

lemma inv_finite:
  assumes inv: "server_inv interest opened addr B X w"
  shows "finite (dom (conns w))" "finite (dom (chans w))"
proof -
  obtain v a where v: "server w = Some v" "acceptor_obj w = Some a" "server_good addr v a (\<lambda>l. loops w l \<noteq> None) (conns w)"
    using server_invD(4) [OF inv] by (rule server_okE)
  then have n: "names_ok v (conns w)" "finite (dom (loops w))" by (simp_all add: server_good_def dom_def)
  let ?name = "\<lambda>c. conn_name (the (conns w c))"
  have "?name ` dom (conns w) \<subseteq> connName v ` {1..<nextConnId v}" using n(1) by (fastforce simp: names_ok_def)
  then have "finite (?name ` dom (conns w))" using finite_subset by blast
  moreover have "inj_on ?name (dom (conns w))" using n(1) by (auto simp: names_ok_def inj_on_def)
  ultimately show fin: "finite (dom (conns w))" using finite_imageD by blast
  let ?S = "(\<lambda>l. wakeupChannel (the (loops w l))) ` dom (loops w) \<union> {acceptChannel a} \<union>
      (\<lambda>c. conn_channel (the (conns w c))) ` dom (conns w)"
  have "i \<in> ?S" if i: "chans w i = Some ch" for i ch
    using objs_wfD(1) [OF server_invD(2) [OF inv] i] v(2)
    by (cases "(readCallback ch, i, w)" rule: owner_ok.cases) (force simp: dom_def)+
  then have "dom (chans w) \<subseteq> ?S" by blast
  moreover have "finite ?S" using n(2) fin by simp
  ultimately show "finite (dom (chans w))" using finite_subset by blast
qed

end
