(* ===== verification/ServerHandlers.thy ===== *)
theory ServerHandlers
  imports ServerInvariant
begin

text \<open>
  Every handler and functor of the program keeps the invariant and returns: the connection's event
  handlers and the functors queued for it, the removal of a connection and the acceptance of a new
  one. The callbacks of the server's user are those of a client that keeps the invariant too (locale
  \<open>server_user\<close>).
\<close>

section \<open>What the handlers need of the kernel\<close>

definition server_kernel :: "'k kernel \<Rightarrow> (fd \<Rightarrow> 'k \<Rightarrow> interest_list) \<Rightarrow> ('k \<Rightarrow> fd set) \<Rightarrow> bool" where
  "server_kernel K interest opened \<longleftrightarrow> net_kernel K interest opened \<and> readv_contract K \<and> write_contract K"

lemma server_kernelD:
  assumes "server_kernel K interest opened"
  shows "net_kernel K interest opened" "readv_contract K" "write_contract K"
  using assms by (simp_all add: server_kernel_def)

lemma live_server_kernel: "server_kernel live_kernel sim_watched sim_opened"
  using live_net_kernel
  by (auto simp: server_kernel_def readv_contract_def write_contract_def live_kernel_def sim_kernel_def Let_def)

section \<open>Sizes of the buffers\<close>

lemma length_vec_resize: "vec_resize n v = Inr v' \<Longrightarrow> length v' = unat n"
  by (auto simp: vec_resize_def split: if_splits)

lemma length_copy_to: "copy_to src off v = Inr v' \<Longrightarrow> length v' = length v"
  by (auto simp: copy_to_def split: if_splits)

lemma length_makeSpace:
  "makeSpace len b = Inr b' \<Longrightarrow>
     length (buf_data b') = length (buf_data b) \<or>
     (length (buf_data b') = unat (writerIndex b + len) \<and> writerIndex b' = writerIndex b)"
  by (auto simp: makeSpace_def bind_r_Inr_iff Let_def dest: length_vec_resize length_copy_to split: if_splits)

lemma length_append_buf:
  assumes "append_buf data b = Inr b'"
  shows "length (buf_data b') = length (buf_data b) \<or> length (buf_data b') = unat (writerIndex b + of_nat (length data))"
proof -
  from assms obtain b1 v where b1: "ensureWritableBytes (of_nat (length data)) b = Inr b1"
      "copy_to data (beginWrite b1) (buf_data b1) = Inr v" "buf_data b' = v"
    by (auto simp: append_buf_def bind_r_Inr_iff Let_def)
  have "length (buf_data b1) = length (buf_data b) \<or> length (buf_data b1) = unat (writerIndex b + of_nat (length data))"
    using b1(1) length_makeSpace by (auto simp: ensureWritableBytes_def split: if_splits)
  then show ?thesis using length_copy_to [OF b1(2)] b1(3) by simp
qed

lemma append_front:
  assumes ok: "buffer_ok b" and front: "readerIndex b = KCheapPrend" "content b = []"
    and len: "length (buf_data b) \<le> max_buffer" "length data + 8 \<le> max_buffer"
  shows "\<exists>b'. append_buf data b = Inr b' \<and> buffer_ok b' \<and> content b' = data \<and> readerIndex b' = KCheapPrend \<and>
     length (buf_data b') \<le> max_buffer"
proof -
  have "length (buf_data b) + length data < 2 ^ 62" using len by (simp add: max_buffer_def)
  from append_appendable [OF ok appendable_at_front [OF ok front(1) this]] obtain b' where
    b': "append_buf data b = Inr b'" "buffer_ok b'" "content b' = content b @ data" "readerIndex b' = readerIndex b" by blast
  have "unat (readableBytes b) = 0" using length_content [OF ok] front(2) by simp
  then have "unat (writerIndex b) = 8"
    using unat_readableBytes [OF ok] buffer_okD(1,2) [OF ok] front(1) by simp
  then have "unat (writerIndex b + of_nat (length data)) = 8 + length data"
    using len(2) by (simp add: size_simps max_buffer_def)
  with length_append_buf [OF b'(1)] len have "length (buf_data b') \<le> max_buffer" by auto
  with b' front show ?thesis by simp
qed

lemma readFd_front:
  assumes K: "readv_contract K" and ok: "buffer_ok b" and front: "readerIndex b = KCheapPrend" "content b = []"
    and len: "length (buf_data b) \<le> max_buffer"
  shows "\<exists>n se b' k'. readFd K f b k = Inr ((n, se, b'), k') \<and> buffer_ok b' \<and> readerIndex b' = KCheapPrend \<and>
     length (buf_data b') \<le> max_buffer \<and> (n \<le> 0 \<longrightarrow> content b' = []) \<and> (\<exists>lens. k' = snd (sys_readv K f lens k))"
proof -
  let ?W = "unat (writableBytes b)"
  let ?iov = "if ?W < extrabuf_size then [?W, extrabuf_size] else [?W]"
  obtain n e bs k' where call: "sys_readv K f ?iov k = ((n, e, bs), k')" by (metis prod.exhaust)
  have k': "\<exists>lens. k' = snd (sys_readv K f lens k)" using call by (metis snd_conv)
  show ?thesis
  proof (cases "0 \<le> n")
    case False
    then show ?thesis using readFd_fail [OF call] ok front len k' by auto
  next
    case True
    from readv_contractD [OF K call True] have n: "n = int (length bs)" "length bs \<le> sum_list ?iov" by simp_all
    have "unat (readableBytes b) = 0" using length_content [OF ok] front(2) by simp
    then have "unat (writerIndex b) = 8"
      using unat_readableBytes [OF ok] buffer_okD(1,2) [OF ok] front(1) by simp
    then have W: "?W = length (buf_data b) - 8" "8 \<le> length (buf_data b)"
      using unat_writableBytes [OF ok] buffer_okD(3) [OF ok] by simp_all
    have bs: "length bs \<le> ?W + extrabuf_size" using n(2) by (simp split: if_splits)
    then have "length (buf_data b) + length bs < 2 ^ 62" using len W by (simp add: max_buffer_def extrabuf_size_def)
    from readFd_at_front [OF K ok front(1) this call True] obtain b' where
      b': "readFd K f b k = Inr ((n, None, b'), k')" "buffer_ok b'" "content b' = content b @ bs" "readerIndex b' = KCheapPrend"
      by blast
    have size: "length (buf_data b') \<le> max_buffer"
    proof (cases "word_of_int n \<le> writableBytes b")
      case le: True
      then have "length (buf_data b') = length (buf_data b)"
        using b'(1) call True by (auto simp: readFd_def Let_def bind_r_Inr_iff dest: length_copy_to)
      with len show ?thesis by simp
    next
      case no: False
      have "unat (word_of_int n :: size_t) = length bs"
        using n(1) bs len W by (simp add: size_simps max_buffer_def extrabuf_size_def)
      with no have long: "?W < length bs" by (simp add: word_le_nat_alt)
      then have small: "?W < extrabuf_size" using n(2) by (auto split: if_splits)
      from no b'(1) call True obtain v where v: "copy_to (take ?W bs) (writerIndex b) (buf_data b) = Inr v"
          "append_buf (take (nat n - ?W) (drop ?W bs)) (b\<lparr>buf_data := v, writerIndex := vec_size v\<rparr>) = Inr b'"
        by (auto simp: readFd_def Let_def bind_r_Inr_iff)
      have lv: "length v = length (buf_data b)" using length_copy_to [OF v(1)] .
      have "unat (vec_size v + of_nat (length bs - ?W)) = length v + (length bs - ?W)"
        using lv len bs W by (simp add: size_simps unat_vec_size max_buffer_def extrabuf_size_def)
      then have "length (buf_data b') = length v \<or> length (buf_data b') = length v + (length bs - ?W)"
        using length_append_buf [OF v(2)] n(1) by simp
      then show ?thesis using lv W bs small by (auto simp: max_buffer_def extrabuf_size_def)
    qed
    have "n \<le> 0 \<longrightarrow> content b' = []" using b'(3) front(2) n(1) by auto
    with b' size k' show ?thesis by blast
  qed
qed

lemma retrieve_front:
  assumes ok: "buffer_ok b"
  shows "content (retrieve n b) = [] \<longrightarrow> readerIndex (retrieve n b) = KCheapPrend"
proof (cases "n < readableBytes b")
  case True
  then have "unat n < length (content b)" by (simp add: length_content [OF ok] size_less_iff)
  then show ?thesis by (simp add: content_retrieve [OF ok])
qed (simp add: retrieve_def retrieveAll_def)

lemma length_retrieve [simp]: "length (buf_data (retrieve n b)) = length (buf_data b)"
  by (simp add: retrieve_def retrieveAll_def)

section \<open>Requests on a connection's channel\<close>

lemma request_effect:
  fixes w :: "('k, 'm) sworld_scheme"
  assumes K: "net_kernel K interest opened" and wf: "net_wf interest opened w" and c: "chans w i = Some ch"
    and pre: "ch_index ch = kNew \<or> ch_events ch \<noteq> 0 \<or> request_events r (ch_events ch) = 0"
  obtains w' n where "Channel_request K r i w = Inr w'" "net_wf interest opened w'" "n \<noteq> kNew"
     "chans w' = (chans w)(i \<mapsto> set_index n (request r ch))" "same_loops w w'" "same_objs w w'"
     "conns w' = conns w" "strings w' = strings w"
  | "Channel_request K r i w = Inl Exit_Fatal" "\<not> epoll_ctl_grants K interest"
     "\<not> (ch_index ch \<noteq> kNew \<and> request_events r (ch_events ch) = 0)"
proof -
  have ok: "loop_ok interest (ch_loop ch) w" using net_wfD(2,6) [OF wf] c by blast
  show thesis
  proof (rule Channel_request_result [OF net_kernelD(1) [OF K] ok c pre])
    fix w' assume req: "Channel_request K r i w = Inr w'"
    from net_request [OF K wf c req] obtain n el p where w': "net_wf interest opened w'"
     "n \<noteq> kNew" "chans w' = (chans w)(i \<mapsto> set_index n (request r ch))" "loops w (ch_loop ch) = Some el"
     "loops w' = (loops w)(ch_loop ch \<mapsto> el\<lparr>loop_poller := Some p\<rparr>)" "same_rest w w'" by blast
    then show thesis using that(1) req same_loops_poller [OF w'(4,5)] same_rest_objs [OF w'(6)] by blast
  qed (rule that(2))
qed

lemma net_put_conn [simp]: "net_wf interest opened w \<Longrightarrow> net_wf interest opened (put_conn c t w)"
  by (rule net_wf_cong) (simp_all add: quiet_refl)

lemma net_put_server [simp]: "net_wf interest opened w \<Longrightarrow> net_wf interest opened (put_server v w)"
  by (rule net_wf_cong) (simp_all add: quiet_refl)

lemma net_tie:
  "net_wf interest opened w \<Longrightarrow> chans w i = Some ch \<Longrightarrow> net_wf interest opened (put_chan i (tie c ch) w)"
  by (rule net_wf_cong) (simp_all add: quiet_refl chan_key_def)

lemma same_objs_put_conn [simp]: "same_objs w (put_conn c t w)" "same_objs w (put_sys \<sigma> w)" "same_objs w (put_chan i ch w)"
  by (simp_all add: same_objs_def)

lemma same_objs_trans: "same_objs w w1 \<Longrightarrow> same_objs w1 w2 \<Longrightarrow> same_objs w w2"
  by (simp add: same_objs_def)

text \<open>A connection and its channel under the invariant.\<close>

lemma inv_connE:
  assumes "server_inv interest opened addr B X w" and "conns w c = Some t"
  obtains ch where "chans w (conn_channel t) = Some ch" "conn_good X c t ch"
  using objs_wfD(4) [OF server_invD(2) [OF assms(1)] assms(2)] by blast

lemma not_owed:
  assumes "server_inv interest opened addr B X w" and "conns w c = Some t" and "conn_state t \<noteq> KConnecting"
  shows "ConnectionEstablished c \<notin> set (owed B w l)"
proof
  assume "ConnectionEstablished c \<in> set (owed B w l)"
  then have "task_ok w l (ConnectionEstablished c)"
    using server_invD(3) [OF assms(1)] unfolding tasks_wf_def tasks_ok_def by blast
  with assms(2,3) show False by auto
qed

text \<open>An operation that changes the buffers of a connection only.\<close>

lemma inv_put_conn:
  assumes inv: "server_inv interest opened addr B X w" and t: "conns w c = Some t" and ch: "chans w (conn_channel t) = Some ch"
    and keep: "conn_channel t' = conn_channel t" "conn_loop t' = conn_loop t" "conn_name t' = conn_name t"
      "conn_state t' = conn_state t"
    and good: "conn_good X' c t' ch" and X: "\<And>d. d \<noteq> c \<Longrightarrow> d \<notin> X' \<Longrightarrow> d \<notin> X"
  shows "server_inv interest opened addr B X' (put_conn c t' w) \<and> stable w (put_conn c t' w)"
  by (rule inv_conn_step [OF inv t ch _ _ _ _ _ keep(1-3) refl good X])
    (use server_invD(1) [OF inv] ch keep(4) in \<open>auto simp: same_loops_refl fun_upd_idem\<close>)

section \<open>Handlers without callbacks\<close>

lemma shutdownInLoop_safe:
  assumes K: "net_kernel K interest opened" and inv: "server_inv interest opened addr B X w" and t: "conns w c = Some t"
  shows "\<exists>w'. shutdownInLoop K c w = Inr w' \<and> server_inv interest opened addr B X w' \<and> stable w w' \<and> conns w' = conns w \<and>
    chans w' = chans w"
proof -
  obtain ch where ch: "chans w (conn_channel t) = Some ch" using inv_connE [OF inv t] .
  have q: "quiet interest opened (os (wsys w)) (os (shutdownWrite K (conn_socket t) (wsys w)))"
    using quietD(7) [OF K] by simp
  show ?thesis using t ch inv inv_put_sys [OF inv q] by (simp add: shutdownInLoop_def)
qed

lemma handleError_safe:
  assumes K: "net_kernel K interest opened" and inv: "server_inv interest opened addr B X w" and t: "conns w c = Some t"
  shows "\<exists>w'. conn_handleError K c w = Inr w' \<and> server_inv interest opened addr B X w' \<and> stable w w'"
proof -
  obtain ch where ch: "chans w (conn_channel t) = Some ch" using inv_connE [OF inv t] .
  obtain r e v k' where call: "sys_getsockopt_error K (ch_fd ch) (os (wsys w)) = ((r, e, v), k')" by (metis prod.exhaust)
  have "quiet interest opened (os (wsys w)) k'" using quietD(9) [OF K, of "os (wsys w)" "ch_fd ch"] call by simp
  then have "server_inv interest opened addr B X (put_sys ((wsys w)\<lparr>os := k'\<rparr>) w) \<and> stable w (put_sys ((wsys w)\<lparr>os := k'\<rparr>) w)"
    by (intro inv_put_sys [OF inv]) simp
  then show ?thesis using t ch call inv_log_err stable_trans
    by (fastforce simp: conn_handleError_def call_os_def)
qed

text \<open>
  \<^verbatim>\<open>handleWrite\<close>: what the kernel took leaves the buffer; the write can raise \<^verbatim>\<open>SIGPIPE\<close>, and the request of the
  drained buffer can be refused.
\<close>

lemma state_good_writing:
  "state_good st t ch \<Longrightarrow> isWriting ch \<Longrightarrow> st = KDisconnecting"
  by (cases st) (simp_all add: isWriting_def event_defs)

lemma handleWrite_safe:
  assumes K: "server_kernel K interest opened" and inv: "server_inv interest opened addr B X w" and t: "conns w c = Some t"
  shows "runs (exits K interest) (\<lambda>w'. server_inv interest opened addr B X w' \<and> stable w w') (conn_handleWrite K c w)"
proof -
  note N = server_kernelD(1) [OF K]
  obtain ch where ch: "chans w (conn_channel t) = Some ch" and good: "conn_good X c t ch" using inv_connE [OF inv t] .
  show ?thesis
  proof (cases "isWriting ch")
    case False
    then show ?thesis using t ch inv_log_err [OF inv] by (simp add: conn_handleWrite_def)
  next
    case wr: True
    have G: "buffers_good t" "callbacks_good t" "state_good (conn_state t) t ch" using good by (simp_all add: conn_good_def)
    have ok: "buffer_ok (outputBuffer t)" using G(1) by (simp add: buffers_good_def)
    have st: "conn_state t = KDisconnecting" using state_good_writing [OF G(3) wr] .
    then have idx: "ch_index ch \<noteq> kNew" using G(3) by simp
    obtain n e k' where call: "sys_write K (ch_fd ch) (content (outputBuffer t)) (os (wsys w)) = ((n, e), k')"
      by (metis prod.exhaust)
    show ?thesis
    proof (cases "broken_pipe K n e")
      case True
      then have "conn_handleWrite K c w = Inl Killed_SIGPIPE"
        using t ch wr writeFd_eq [OF ok call] by (simp add: conn_handleWrite_def)
      then show ?thesis using True by (simp add: broken_pipe_def)
    next
      case alive: False
    have wfd: "writeFd K (ch_fd ch) (outputBuffer t) (os (wsys w)) = Inr ((n, if n < 0 then Some e else None), k')"
      using writeFd_eq [OF ok call] alive by simp
    let ?w1 = "put_sys ((wsys w)\<lparr>os := k'\<rparr>) w"
    have "quiet interest opened (os (wsys w)) k'"
      using quietD(1) [OF N, of "os (wsys w)" "ch_fd ch" "content (outputBuffer t)"] call by simp
    then have inv1: "server_inv interest opened addr B X ?w1" "stable w ?w1"
      using inv_put_sys [OF inv, of "(wsys w)\<lparr>os := k'\<rparr>"] by simp_all
    show ?thesis
    proof (cases "0 < n")
      case False
      then have "conn_handleWrite K c w = Inr (log_err ''TcpConnection::handleWrite'' ?w1)"
        using t ch wr wfd by (simp add: conn_handleWrite_def Let_def)
      moreover note inv_log_err [OF inv1(1), of "''TcpConnection::handleWrite''"]
      ultimately show ?thesis using inv1(2) stable_trans by auto
    next
      case True
      let ?b = "retrieve (word_of_int n) (outputBuffer t)"
      let ?t = "t\<lparr>outputBuffer := ?b\<rparr>"
      have cont: "content ?b = drop (unat (word_of_int n :: size_t)) (content (outputBuffer t))" by (rule content_retrieve [OF ok])
      have front: "content ?b = [] \<longrightarrow> readerIndex ?b = KCheapPrend"
        by (rule retrieve_front [OF ok])
      have good1: "conn_good X c ?t ch"
        using good front buffer_ok_retrieve [OF ok] cont wr st by (simp add: conn_good_def conn_chan_def buffers_good_def callbacks_good_def)
      let ?w2 = "put_conn c ?t ?w1"
      have inv2: "server_inv interest opened addr B X ?w2" "stable ?w1 ?w2"
        using inv_put_conn [OF inv1(1), of c t ch ?t X] t ch good1 by simp_all
      have base: "conn_handleWrite K c w =
          (if readableBytes ?b = 0
           then bind_r (Channel_request K DisableWriting (conn_channel t) ?w2) (\<lambda>w3.
                  bind_r (notify_written K c t w3) (shutdownInLoop K c))
           else Inr ?w2)"
        using t ch wr wfd True st by (simp add: conn_handleWrite_def Let_def)
      show ?thesis
      proof (cases "readableBytes ?b = 0")
        case False
        then show ?thesis using base inv2 inv1(2) stable_trans by auto
      next
        case drained: True
        have t2: "conns ?w2 c = Some ?t" "chans ?w2 (conn_channel ?t) = Some ch" using ch by simp_all
        have "ch_events ch \<noteq> 0" using wr by (auto simp: isWriting_def)
        then have pre: "ch_index ch = kNew \<or> ch_events ch \<noteq> 0 \<or> request_events DisableWriting (ch_events ch) = 0" by blast
        show ?thesis
        proof (rule request_effect [OF N server_invD(1) [OF inv2(1)] t2(2) pre])
          assume "Channel_request K DisableWriting (conn_channel ?t) ?w2 = Inl Exit_Fatal" "\<not> epoll_ctl_grants K interest"
          then show ?thesis using base drained by simp
        next
          fix w3 m assume w3: "Channel_request K DisableWriting (conn_channel ?t) ?w2 = Inr w3" "net_wf interest opened w3" "m \<noteq> kNew"
            "chans w3 = (chans ?w2)(conn_channel ?t \<mapsto> set_index m (request DisableWriting ch))" "same_loops ?w2 w3"
            "same_objs ?w2 w3" "conns w3 = conns ?w2"
        have wr3: "isWriting (set_index m (request DisableWriting ch))" using wr by simp
        then have ev3: "ch_events (set_index m (request DisableWriting ch)) \<noteq> 0" by (auto simp: isWriting_def)
        have good3: "conn_good X c ?t (set_index m (request DisableWriting ch))"
          using good1 w3(3) wr3 ev3 st by (simp add: conn_good_def conn_chan_def)
        have "server_inv interest opened addr B X w3 \<and> stable ?w2 w3"
          by (rule inv_conn_step [OF inv2(1) t2 w3(2) _ w3(4-6) refl refl refl _ good3])
            (use w3(3,7) idx in \<open>auto simp: handlers_def fun_upd_idem\<close>)
        note inv3 = this
        have "conns w3 c = Some ?t" using w3(7) by simp
        from shutdownInLoop_safe [OF N conjunct1 [OF inv3] this] obtain w4 where
          w4: "shutdownInLoop K c w3 = Inr w4" "server_inv interest opened addr B X w4" "stable w3 w4" by blast
        have "notify_written K c t w3 = Inr w3" using G(2) by (simp add: notify_written_def callbacks_good_def)
        then have "conn_handleWrite K c w = Inr w4" using base drained w3(1) w4(1) by simp
        moreover have "stable w w4" using w4(3) inv3 inv2(2) inv1(2) stable_trans by blast
        ultimately show ?thesis using w4(2) by simp
        qed
      qed
    qed
    qed
  qed
qed

section \<open>The end of a connection\<close>

lemma connectionDestroyed_safe:
  assumes K: "net_kernel K interest opened" and inv: "server_inv interest opened addr B X w" and t: "conns w c = Some t"
    and down: "conn_state t = KDisconnected"
  shows "\<exists>w'. connectionDestroyed K CB c w = Inr w' \<and> server_inv interest opened addr B X w' \<and> threads w w' \<and>
    conns w' = conns w \<and> (\<exists>ch'. chans w' (conn_channel t) = Some ch' \<and> ch_index ch' = kNew)"
proof -
  obtain ch where ch: "chans w (conn_channel t) = Some ch" and good: "conn_good X c t ch" using inv_connE [OF inv t] .
  from net_remove [OF K server_invD(1) [OF inv] ch] obtain w' el p where w': "Channel_remove K (conn_channel t) w = Inr w'"
     "net_wf interest opened w'" "chans w' = (chans w)(conn_channel t \<mapsto> set_index kNew ch)" "loops w (ch_loop ch) = Some el"
     "loops w' = (loops w)(ch_loop ch \<mapsto> el\<lparr>loop_poller := Some p\<rparr>)" "same_rest w w'" by blast
  have so: "same_objs w w'" "conns w' = conns w" using same_rest_objs [OF w'(6)] by simp_all
  have "conn_good X c t (set_index kNew ch)" using good down by (simp add: conn_good_def conn_chan_def)
  from inv_conn_step_weak [OF inv t ch w'(2) _ w'(3) same_loops_poller [OF w'(4,5)] so(1) refl refl refl _ this]
  have "server_inv interest opened addr B X w' \<and> threads w w'"
    using so(2) t by (simp add: handlers_def fun_upd_idem)
  moreover have "connectionDestroyed K CB c w = Inr w'" using t down w'(1) by (simp add: connectionDestroyed_def)
  ultimately show ?thesis using so(2) w'(3) by auto
qed

lemma names_ok_delete:
  assumes "names_ok v cs" and "cs c = Some t" and "conn_state t = KDisconnected"
  shows "names_ok (v\<lparr>connections := AList.delete (conn_name t) (connections v)\<rparr>) cs"
proof -
  note N = assms(1) [unfolded names_ok_def]
  have nm: "connName (v\<lparr>connections := AList.delete (conn_name t) (connections v)\<rparr>) = connName v"
    by (intro ext) (simp add: connName_def)
  have "conn_name s \<noteq> conn_name t" if "cs d = Some s" "conn_state s \<noteq> KDisconnected" for d s
    using N that assms(2,3) by (metis option.inject)
  with N show ?thesis unfolding names_ok_def nm by (auto simp: delete_conv')
qed

text \<open>A change of the server object that keeps its loop.\<close>

lemma inv_put_server:
  assumes inv: "server_inv interest opened addr B X w" and v: "server w = Some v" and loop: "srv_loop v' = srv_loop v"
    and good: "\<And>a. acceptor_obj w = Some a \<Longrightarrow> server_good addr v a (\<lambda>l. loops w l \<noteq> None) (conns w) \<Longrightarrow>
      server_good addr v' a (\<lambda>l. loops w l \<noteq> None) (conns w)"
    and less: "\<And>c. listed (put_server v' w) c \<Longrightarrow> listed w c"
    and gone: "\<And>c t. listed w c \<Longrightarrow> \<not> listed (put_server v' w) c \<Longrightarrow> conns w c = Some t \<Longrightarrow>
      ConnectionDestroyed c \<in> set (owed B w (conn_loop t))"
  shows "server_inv interest opened addr B X (put_server v' w) \<and> stable w (put_server v' w)"
proof -
  note I = server_invD [OF inv] and D = objs_wfD [OF server_invD(2) [OF inv]]
  let ?w = "put_server v' w"
  have fr: "chans ?w = chans w" "loops ?w = loops w" "conns ?w = conns w" "acceptor_obj ?w = acceptor_obj w" "server ?w = Some v'"
    by (simp_all add: put_server_def)
  have "owner_ok h i ?w = owner_ok h i w" for h i
    using fr by (cases "(h, i, w)" rule: owner_ok.cases) simp_all
  then have "objs_wf X ?w" using I(2) by (simp add: objs_wf_def fr)
  moreover have "task_ok ?w l tk = task_ok w l tk" for l tk using v loop by (cases tk) simp_all
  then have "tasks_wf B ?w" using I(3) by (simp add: tasks_wf_def tasks_ok_def owed_def)
  moreover from I(4) obtain a where "acceptor_obj w = Some a" "server_good addr v a (\<lambda>l. loops w l \<noteq> None) (conns w)"
    using v by (auto elim: server_okE)
  then have "server_ok addr ?w" using good fr by (simp add: server_ok_def)
  moreover have pol: "polled ?w t = polled w t" for t by (rule polled_same) (simp add: fr)
  have "onward w ?w" using less pol by (auto simp: onward_def fr)
  then have "stable w ?w" by (auto simp: stable_def threads_def fr put_server_def)
  moreover have ow: "owed B ?w l = owed B w l" for l by (simp add: owed_def)
  have "cared_ok B ?w"
    unfolding cared_ok_def
  proof (intro allI impI)
    fix c t l tk assume a: "conns ?w c = Some t \<and> due ?w c t = Some (l, tk)"
    show "tk \<in> set (owed B ?w l)"
    proof (cases "conn_state t = KDisconnected \<and> listed w c \<and> \<not> listed ?w c")
      case True
      then have "l = conn_loop t" "tk = ConnectionDestroyed c" using a by (auto simp: due_def split: if_splits)
      then show ?thesis using gone [of c t] True a ow fr(3) by auto
    next
      case False
      then have "due w c t = Some (l, tk)"
        using a less [of c] pol v loop fr(5) by (auto simp: due_def split: StateE.splits if_splits)
      then show ?thesis using I(5) a ow fr(3) by (auto simp: cared_ok_def)
    qed
  qed
  ultimately show ?thesis using I(1) by (simp add: server_inv_def)
qed

lemma removeConnectionInLoop_safe:
  assumes K: "net_kernel K interest opened" and inv: "server_inv interest opened addr B X w" and t: "conns w c = Some t"
    and down: "conn_state t = KDisconnected"
  shows "\<exists>w'. removeConnectionInLoop K c w = Inr w' \<and> server_inv interest opened addr B X w' \<and> stable w w' \<and> \<not> listed w' c"
proof -
  obtain ch where ch: "chans w (conn_channel t) = Some ch" and good: "conn_good X c t ch" using inv_connE [OF inv t] .
  obtain v a where v: "server w = Some v" and a: "server_good addr v a (\<lambda>l. loops w l \<noteq> None) (conns w)"
    using server_invD(4) [OF inv] by (rule server_okE)
  let ?v = "v\<lparr>connections := AList.delete (conn_name t) (connections v)\<rparr>"
  let ?B = "B(conn_loop t := ConnectionDestroyed c # B (conn_loop t))"
  have invg: "server_inv interest opened addr ?B X w" by (rule inv_batch_add [OF inv]) (use t down in simp_all)
  have nm: "names_ok v (conns w)" using a by (simp add: server_good_def)
  then have name: "conn_name s = n" if "map_of (connections v) n = Some d" "conns w d = Some s" for n d s
    using that unfolding names_ok_def by (metis option.inject)
  have out: "\<not> listed (put_server ?v w) c" using name t by (auto simp: listed_def delete_conv')
  have other: "listed (put_server ?v w) d" if l: "listed w d" and d: "d \<noteq> c" for d
  proof -
    from l v obtain n where n: "map_of (connections v) n = Some d" by (auto simp: listed_def)
    from nm n obtain s where s: "conns w d = Some s" "conn_name s = n" unfolding names_ok_def by blast
    then have "n \<noteq> conn_name t" using nm t d unfolding names_ok_def by blast
    then show ?thesis using n by (auto simp: listed_def delete_conv')
  qed
  have inv1: "server_inv interest opened addr ?B X (put_server ?v w) \<and> stable w (put_server ?v w)"
  proof (rule inv_put_server [OF invg v])
    show "listed w d" if "listed (put_server ?v w) d" for d
      using that v by (auto simp: listed_def delete_conv' split: if_splits)
    show "ConnectionDestroyed d \<in> set (owed ?B w (conn_loop s))" if "listed w d" "\<not> listed (put_server ?v w) d" "conns w d = Some s" for d s
      using that other t by (cases "d = c") (auto simp: owed_def)
  qed (use t down server_wf_delete names_ok_delete in \<open>auto simp: server_good_def\<close>)
  have "loops w (ch_loop ch) \<noteq> None" using net_wfD(6) [OF server_invD(1) [OF inv] ch] .
  then have l: "loops (put_server ?v w) (conn_loop t) \<noteq> None" using good by (simp add: conn_good_def conn_chan_def)
  from inv_queue [OF K conjunct1 [OF inv1] l] obtain w' where
    w': "queueInLoop K (conn_loop t) (ConnectionDestroyed c) (put_server ?v w) = Inr w'"
    "server_inv interest opened addr B X w'" "stable (put_server ?v w) w'" by blast
  have "\<not> listed w' c"
    using onwardD [of "put_server ?v w" w' c t] w'(3) t out by (auto simp: stable_def threads_def)
  moreover have "removeConnectionInLoop K c w =
      queueInLoop K (conn_loop t) (ConnectionDestroyed c) (put_server ?v w)"
    using v t by (simp add: removeConnectionInLoop_def toIpPort_eq)
  ultimately show ?thesis using w' inv1 stable_trans by metis
qed

text \<open>\<open>removeConnection\<close>, when the removal is due: it runs, or is queued.\<close>

lemma inv_drop_remove:
  assumes inv: "server_inv interest opened addr (B(l := RemoveConnectionInLoop c # ts)) X w" and out: "\<not> listed w c"
  shows "server_inv interest opened addr (B(l := ts)) X w"
  by (rule inv_batch_drop [OF inv]) (use out in \<open>auto simp: holds_def due_def split: StateE.splits if_splits\<close>)

lemma removeConnection_safe:
  assumes K: "net_kernel K interest opened" and v: "server w = Some v" and l: "srv_loop v = l"
    and inv: "server_inv interest opened addr (B(l := RemoveConnectionInLoop c # B l)) X w"
    and t: "conns w c = Some t" and down: "conn_state t = KDisconnected"
  shows "\<exists>w'. removeConnection K c w = Inr w' \<and> server_inv interest opened addr B X w' \<and> stable w w'"
proof -
  obtain el where el: "loops w l = Some el"
    using server_invD(4) [OF inv] v l by (auto elim!: server_okE simp: server_good_def)
  show ?thesis
  proof (cases "isInLoopThread el w")
    case True
    from removeConnectionInLoop_safe [OF K inv t down] obtain w' where w': "removeConnectionInLoop K c w = Inr w'"
      "server_inv interest opened addr (B(l := RemoveConnectionInLoop c # B l)) X w'" "stable w w'" "\<not> listed w' c" by blast
    from inv_drop_remove [OF w'(2,4)] have "server_inv interest opened addr B X w'" by simp
    then show ?thesis using True v l el w'(1,3) by (simp add: removeConnection_def runInLoop_def)
  next
    case False
    then show ?thesis using v l el inv_queue [OF K inv] by (simp add: removeConnection_def runInLoop_def)
  qed
qed

section \<open>The user of the server\<close>

text \<open>
  The contract of the connection and the message callback, in a thread of the connection's loop: they
  keep the invariant, take nothing back, and the message callback leaves the input empty.
\<close>

locale server_user =
  fixes K :: "'k kernel" and interest :: "fd \<Rightarrow> 'k \<Rightarrow> interest_list" and opened :: "'k \<Rightarrow> fd set"
    and addr :: InetAddress and U :: "('k, 'm) sworld_scheme callbacks"
  assumes connection_law: "server_kernel K interest opened \<Longrightarrow> server_inv interest opened addr B {} w \<Longrightarrow> conns w c = Some t \<Longrightarrow>
       runs (exits K interest) (\<lambda>w'. server_inv interest opened addr B {} w' \<and> stable w w') (call_connection U cb c w)"
    and message_law: "server_kernel K interest opened \<Longrightarrow> server_inv interest opened addr B {c} w \<Longrightarrow> conns w c = Some t \<Longrightarrow> running (conn_loop t) w \<Longrightarrow>
       conn_state t \<noteq> KConnecting \<Longrightarrow>
       runs (exits K interest) (\<lambda>w'. server_inv interest opened addr B {} w' \<and> stable w w') (call_message U cb c tm w)"
begin

abbreviation inv :: "(loop_id \<Rightarrow> task list) \<Rightarrow> conn_id set \<Rightarrow> ('k, 'm) sworld_scheme \<Rightarrow> bool" where
  "inv \<equiv> server_inv interest opened addr"

abbreviation CB :: "('k, 'm) sworld_scheme callbacks" where "CB \<equiv> server_callbacks K U"

text \<open>The callers' goal: the call returns, keeps the invariant and takes nothing back.\<close>

abbreviation keeps :: "(loop_id \<Rightarrow> task list) \<Rightarrow> ('k, 'm) sworld_scheme \<Rightarrow> ('k, 'm) sworld_scheme res \<Rightarrow> bool" where
  "keeps B w \<equiv> runs (exits K interest) (\<lambda>w'. inv B {} w' \<and> stable w w')"

lemma keeps_trans: "stable w w1 \<Longrightarrow> keeps B w1 r \<Longrightarrow> keeps B w r"
  by (erule runs_mono) (blast intro: stable_trans)

lemma keeps_Ex: "\<exists>w'. r = Inr w' \<and> inv B {} w' \<and> stable w w' \<Longrightarrow> keeps B w r"
  by auto

lemma callbacks [simp]: "call_connection CB = call_connection U" "call_message CB = call_message U"
  "call_close CB cb = removeConnection K"
  by (simp_all add: server_callbacks_def)

text \<open>\<^verbatim>\<open>handleClose\<close>, in whatever state past \<^verbatim>\<open>kConnecting\<close>: it may run twice.\<close>

lemma handleClose_keeps:
  assumes kernel: "server_kernel K interest opened" and inv: "inv B {} w" and t: "conns w c = Some t" and st: "conn_state t \<noteq> KConnecting"
    and ch: "chans w (conn_channel t) = Some ch" "ch_index ch \<noteq> kNew"
  shows "keeps B w (conn_handleClose K CB c w)"
proof -
  have good: "conn_good {} c t ch" using inv_connE [OF inv t] ch(1) by fastforce
  let ?t = "set_conn_state KDisconnected t"
  have nw: "net_wf interest opened (put_conn c ?t w)" using server_invD(1) [OF inv] by simp
  have ch': "chans (put_conn c ?t w) (conn_channel t) = Some ch" using ch(1) by simp
  have off: "request_events DisableAll (ch_events ch) = 0" by (simp add: kNoneEvent_def)
  then have pre: "ch_index ch = kNew \<or> ch_events ch \<noteq> 0 \<or> request_events DisableAll (ch_events ch) = 0" by blast
  obtain w1 n where w1:
    "Channel_request K DisableAll (conn_channel t) (put_conn c ?t w) = Inr w1" "net_wf interest opened w1" "n \<noteq> kNew"
    "chans w1 = (chans (put_conn c ?t w))(conn_channel t \<mapsto> set_index n (request DisableAll ch))"
    "same_loops (put_conn c ?t w) w1" "same_objs (put_conn c ?t w) w1" "conns w1 = conns (put_conn c ?t w)"
    by (rule request_effect [OF server_kernelD(1) [OF kernel] nw ch' pre]) (use off ch(2) in blast)+
  have good1: "conn_good {} c ?t (set_index n (request DisableAll ch))"
    using good by (simp add: conn_good_def conn_chan_def buffers_good_def callbacks_good_def set_conn_state_def kNoneEvent_def)
  obtain v where v: "server w = Some v" using server_invD(4) [OF inv] by (rule server_okE)
  let ?l = "srv_loop v"
  let ?B = "B(?l := RemoveConnectionInLoop c # B ?l)"
  have so: "server w1 = Some v" using w1(6) v by (simp add: same_objs_def)
  have "inv ?B {} w1 \<and> threads w w1 \<and> ((ch_index ch \<noteq> kNew \<longrightarrow> ch_index (set_index n (request DisableAll ch)) \<noteq> kNew) \<longrightarrow> stable w w1)"
  proof (rule inv_conn_step_moves [OF inv t ch(1) w1(2) _ _ _ _ _ _ _ _ good1])
    have ow: "owed ?B w l = (if l = ?l then RemoveConnectionInLoop c # owed B w l else owed B w l)" for l
      by (simp add: owed_def)
    note T = server_invD(3) [OF inv, unfolded tasks_wf_def tasks_ok_def, rule_format]
    show "tk \<in> set (owed ?B w l) \<longleftrightarrow> tk \<in> set (owed B w l)" if "\<not> holds c tk" for l tk
      using that by (auto simp: ow holds_def)
    show "distinct (established_ids (owed ?B w l))" for l
      using T [of l] by (cases "l = ?l") (simp_all add: ow established_ids_Cons)
    show "task_ok w1 l tk" if tk: "tk \<in> set (owed ?B w l)" "holds c tk" for l tk
    proof (cases "tk = RemoveConnectionInLoop c \<and> l = ?l")
      case True
      then show ?thesis using so w1(7) by (simp add: set_conn_state_def)
    next
      case False
      then have o: "tk \<in> set (owed B w l)" using tk(1) by (auto simp: ow split: if_splits)
      then have "task_ok w l tk" using T by blast
      then show ?thesis using tk(2) o not_owed [OF inv t st] t w1(7) so v by (auto simp: holds_def set_conn_state_def)
    qed
    show "tk \<in> set (owed ?B w l)" if d: "due w1 c ?t = Some (l, tk)" for l tk
    proof (cases "listed w c")
      case True
      then have "tk = RemoveConnectionInLoop c" "l = ?l"
        using d so listed_same [of w1 w] v by (auto simp: due_def set_conn_state_def)
      then show ?thesis by (simp add: ow)
    next
      case False
      then have "conn_state t = KDisconnected" using inv_listed [OF inv t] by blast
      then have "due w c t = Some (conn_loop t, ConnectionDestroyed c)" using False ch by (auto simp: due_def polled_def)
      then have "ConnectionDestroyed c \<in> set (owed B w (conn_loop t))" using server_invD(5) [OF inv] t by (auto simp: cared_ok_def)
      moreover have "tk = ConnectionDestroyed c" "l = conn_loop t"
        using d so listed_same [of w1 w] v False by (auto simp: due_def set_conn_state_def split: if_splits)
      ultimately show ?thesis unfolding ow by (auto split: if_splits)
    qed
  qed (use ch(2) w1(4-7) in \<open>auto simp: same_loops_def same_objs_def handlers_def set_conn_state_def\<close>)
  then have inv1: "inv ?B {} w1 \<and> stable w w1" using w1(3) by simp
  have t1: "conns w1 c = Some ?t" using w1(7) by simp
  obtain cb where cb: "connectionCallback t = Some cb" "conn_closeCallback t = Some removeConnection_ref"
    using good by (auto simp: conn_good_def callbacks_good_def)
  have eq: "conn_handleClose K CB c w = bind_r (call_connection U cb c w1) (\<lambda>w2.
      with_conn c w2 (\<lambda>t2. invoke (conn_closeCallback t2) (\<lambda>cb. removeConnection K c w2)))"
    using t w1(1) t1 cb by (simp add: conn_handleClose_def invoke_def)
  have "runs (exits K interest) (\<lambda>w2. inv ?B {} w2 \<and> stable w1 w2) (call_connection U cb c w1)"
    using connection_law [OF kernel conjunct1 [OF inv1] t1] .
  then show ?thesis
    unfolding eq
  proof (rule runs_bind)
    fix w2 assume w2: "inv ?B {} w2 \<and> stable w1 w2"
    from stable_connD [OF conjunct2 [OF w2] t1] obtain t2 where t2: "conns w2 c = Some t2" "conn_state t2 = KDisconnected"
      by (auto simp: set_conn_state_def)
    obtain ch2 where "conn_good {} c t2 ch2" using inv_connE [OF conjunct1 [OF w2] t2(1)] .
    then have "conn_closeCallback t2 = Some removeConnection_ref" by (simp add: conn_good_def callbacks_good_def)
    moreover obtain v2 where "server w2 = Some v2" "srv_loop v2 = ?l"
      using server_stays [OF conjunct1 [OF inv1] conjunct1 [OF w2] threads_moved [OF stable_threads [OF conjunct2 [OF w2]]] so] by blast
    then obtain w3 where w3: "removeConnection K c w2 = Inr w3" "inv B {} w3" "stable w2 w3"
      using removeConnection_safe [OF server_kernelD(1) [OF kernel] _ _ conjunct1 [OF w2] t2] by blast
    ultimately have "with_conn c w2 (\<lambda>t2. invoke (conn_closeCallback t2) (\<lambda>cb. removeConnection K c w2)) = Inr w3"
      using t2(1) w3(1) by (simp add: invoke_def)
    moreover have "stable w w3" using inv1 w2 w3(3) stable_trans by blast
    ultimately show "keeps B w (with_conn c w2 (\<lambda>t2. invoke (conn_closeCallback t2) (\<lambda>cb. removeConnection K c w2)))"
      using w3(2) by simp
  qed
qed

text \<open>
  \<^verbatim>\<open>handleRead\<close>: bytes go to the message callback, end of file is \<^verbatim>\<open>handleClose\<close>, an error is logged.
\<close>

lemma handleRead_keeps:
  assumes kernel: "server_kernel K interest opened" and inv: "inv B {} w" and t: "conns w c = Some t" and st: "conn_state t \<noteq> KConnecting" and th: "running (conn_loop t) w"
    and ch: "chans w (conn_channel t) = Some ch" "ch_index ch \<noteq> kNew"
  shows "keeps B w (conn_handleRead K CB tm c w)"
proof -
  have good: "conn_good {} c t ch" using inv_connE [OF inv t] ch(1) by fastforce
  then have G: "buffer_ok (inputBuffer t)" "readerIndex (inputBuffer t) = KCheapPrend" "content (inputBuffer t) = []"
      "length (buf_data (inputBuffer t)) \<le> max_buffer" "messageCallback t \<noteq> None"
    by (simp_all add: conn_good_def buffers_good_def callbacks_good_def)
  obtain n se b k' where rd: "readFd K (ch_fd ch) (inputBuffer t) (os (wsys w)) = Inr ((n, se, b), k')" "buffer_ok b"
      "readerIndex b = KCheapPrend" "length (buf_data b) \<le> max_buffer" "n \<le> 0 \<longrightarrow> content b = []"
      "\<exists>lens. k' = snd (sys_readv K (ch_fd ch) lens (os (wsys w)))"
    using readFd_front [OF server_kernelD(2) [OF kernel] G(1-4)] by blast
  let ?t = "t\<lparr>inputBuffer := b\<rparr>"
  let ?w0 = "put_sys ((wsys w)\<lparr>os := k'\<rparr>) w"
  let ?w1 = "put_conn c ?t ?w0"
  have "quiet interest opened (os (wsys w)) k'" using rd(6) quietD(3) [OF server_kernelD(1) [OF kernel]] by auto
  then have w0: "inv B {} ?w0 \<and> stable w ?w0" by (intro inv_put_sys [OF inv]) simp
  have t0: "conns ?w0 c = Some t" "chans ?w0 (conn_channel t) = Some ch" using t ch(1) by simp_all
  have "state_good (conn_state t) ?t ch" using good by (cases "conn_state t") (simp_all add: conn_good_def)
  then have good1: "conn_good X c ?t ch" if "0 < n \<longrightarrow> c \<in> X" for X
    using good rd(2-5) that
    by (auto simp: conn_good_def conn_chan_def buffers_good_def callbacks_good_def)
  have w1: "inv B X ?w1 \<and> stable ?w0 ?w1" if "0 < n \<longrightarrow> c \<in> X" for X
    by (rule inv_put_conn [OF conjunct1 [OF w0] t0]) (use good1 [OF that] in simp_all)
  have st1: "stable w ?w1" using w0 w1 [of "{c}"] stable_trans by blast
  have t1: "conns ?w1 c = Some ?t" by simp
  obtain cb where cb: "messageCallback t = Some cb" using G(5) by blast
  have eq: "conn_handleRead K CB tm c w =
     (if 0 < n then call_message U cb c tm ?w1
      else if n = 0 then conn_handleClose K CB c ?w1
      else conn_handleError K c (log_err ''TcpConnection::handleRead'' ?w1))"
    using t ch(1) rd(1) cb by (simp add: conn_handleRead_def Let_def invoke_def)
  consider "0 < n" | "n = 0" | "n < 0" by linarith
  then show ?thesis
  proof cases
    case 1
    have "keeps B ?w1 (call_message U cb c tm ?w1)"
      by (rule message_law [OF kernel, of B c ?w1 ?t]) (use w1 [of "{c}"] st stable_running [OF st1] th in simp_all)
    then show ?thesis using eq 1 keeps_trans [OF st1] by simp
  next
    case 2
    have "keeps B ?w1 (conn_handleClose K CB c ?w1)"
      by (rule handleClose_keeps [OF kernel, of B ?w1 c ?t ch]) (use w1 [of "{}"] 2 st ch in simp_all)
    then show ?thesis using eq 2 keeps_trans [OF st1] by simp
  next
    case 3
    let ?w2 = "log_err ''TcpConnection::handleRead'' ?w1"
    have "0 < n \<longrightarrow> c \<in> {}" using 3 by simp
    from inv_log_err [OF conjunct1 [OF w1 [OF this]]] have w2: "inv B {} ?w2" "stable ?w1 ?w2" by simp_all
    have "keeps B ?w2 (conn_handleError K c ?w2)"
      by (rule keeps_Ex) (rule handleError_safe [OF server_kernelD(1) [OF kernel] w2(1), of c ?t], simp)
    then show ?thesis using eq 3 keeps_trans [OF stable_trans [OF st1 w2(2)]] by simp
  qed
qed

text \<open>\<^verbatim>\<open>connectionEstablished\<close>, once, on a connection that is \<^verbatim>\<open>kConnecting\<close>.\<close>

lemma established_keeps:
  assumes kernel: "server_kernel K interest opened" and inv: "inv (B(l := ConnectionEstablished c # ts)) {} w" and t: "conns w c = Some t"
  shows "runs (exits K interest) (\<lambda>w'. inv (B(l := ts)) {} w' \<and> stable w w' \<and> (\<exists>t'. conns w' c = Some t' \<and> conn_state t' \<noteq> KConnecting))
    (connectionEstablished K CB c w)"
proof -
  let ?Bc = "B(l := ConnectionEstablished c # ts)" and ?B = "B(l := ts)"
  have st: "conn_state t = KConnecting" using batch_task(1) [OF inv] t by simp
  obtain ch where ch: "chans w (conn_channel t) = Some ch" and good: "conn_good {} c t ch" using inv_connE [OF inv t] .
  let ?t = "set_conn_state KConnected t" and ?i = "conn_channel t"
  let ?w0 = "put_chan ?i (tie c ch) (put_conn c ?t w)"
  have G: "ch_index ch = kNew" "ch_events ch = 0" using good st by (simp_all add: conn_good_def)
  have nw: "net_wf interest opened ?w0"
    by (rule net_tie) (use server_invD(1) [OF inv] ch in simp_all)
  have ch0: "chans ?w0 ?i = Some (tie c ch)" by simp
  have "ch_index (tie c ch) = kNew" using G by (simp add: tie_def)
  then have pre: "ch_index (tie c ch) = kNew \<or> ch_events (tie c ch) \<noteq> 0 \<or>
      request_events EnableReading (ch_events (tie c ch)) = 0" by blast
  show ?thesis
  proof (rule request_effect [OF server_kernelD(1) [OF kernel] nw ch0 pre])
    assume "Channel_request K EnableReading ?i ?w0 = Inl Exit_Fatal" "\<not> epoll_ctl_grants K interest"
    then show ?thesis using t ch by (simp add: connectionEstablished_def)
  next
  fix w1 n assume w1:
    "Channel_request K EnableReading ?i ?w0 = Inr w1" "net_wf interest opened w1" "n \<noteq> kNew"
    "chans w1 = (chans ?w0)(?i \<mapsto> set_index n (request EnableReading (tie c ch)))"
    "same_loops ?w0 w1" "same_objs ?w0 w1" "conns w1 = conns ?w0"
  have good1: "conn_good {} c ?t (set_index n (request EnableReading (tie c ch)))"
    using good st w1(3) G(2)
    by (simp add: conn_good_def conn_chan_def buffers_good_def callbacks_good_def set_conn_state_def tie_def)
  have "inv ?B {} w1 \<and> threads w w1 \<and>
      ((ch_index ch \<noteq> kNew \<longrightarrow> ch_index (set_index n (request EnableReading (tie c ch))) \<noteq> kNew) \<longrightarrow> stable w w1)"
  proof (rule inv_conn_step_moves [OF inv t ch w1(2) _ _ _ _ _ _ _ _ good1])
    note ow = owed_batch [of B l "ConnectionEstablished c" ts w]
    note T = server_invD(3) [OF inv, unfolded tasks_wf_def tasks_ok_def, rule_format]
    show "tk \<in> set (owed ?B w l') \<longleftrightarrow> tk \<in> set (owed ?Bc w l')" if "\<not> holds c tk" for l' tk
      using that by (auto simp: ow holds_def)
    show "distinct (established_ids (owed ?B w l'))" for l'
      using T [of l'] unfolding ow by (auto simp: established_ids_Cons split: if_splits)
    show "task_ok w1 l' tk" if tk: "tk \<in> set (owed ?B w l')" "holds c tk" for l' tk
    proof -
      have "task_ok w l' tk" using T [of l'] tk(1) unfolding ow by (auto split: if_splits)
      moreover have "tk \<noteq> ConnectionEstablished c" using batch_task(2) [OF inv refl, of l'] tk(1) by blast
      ultimately show ?thesis using tk(2) t st by (auto simp: holds_def)
    qed
  qed (use w1(3-7) st in \<open>auto simp: same_loops_def same_objs_def handlers_def set_conn_state_def tie_def due_def\<close>)
  then have w1i: "inv ?B {} w1 \<and> stable w w1" using w1(3) by simp
  have t1: "conns w1 c = Some ?t" using w1(7) by simp
  obtain cb where cb: "connectionCallback t = Some cb" using good by (auto simp: conn_good_def callbacks_good_def)
  have eq: "connectionEstablished K CB c w = call_connection U cb c w1"
    using t ch w1(1) t1 cb by (simp add: connectionEstablished_def invoke_def)
  show ?thesis
    unfolding eq
  proof (rule runs_mono [OF connection_law [OF kernel conjunct1 [OF w1i] t1]])
    fix w2 assume w2: "inv ?B {} w2 \<and> stable w1 w2"
    from stable_connD [OF conjunct2 [OF w2] t1]
    have "\<exists>t'. conns w2 c = Some t' \<and> conn_state t' \<noteq> KConnecting" by (auto simp: set_conn_state_def)
    then show "inv ?B {} w2 \<and> stable w w2 \<and> (\<exists>t'. conns w2 c = Some t' \<and> conn_state t' \<noteq> KConnecting)"
      using w1i w2 stable_trans by blast
  qed
  qed
qed

end

end
