(* ===== verification/ServerSafety.thy ===== *)
theory ServerSafety
  imports ServerHandlers
begin

text \<open>
  The passes of the loops keep the invariant: accepting a connection, the events of the active channels,
  the functors. A pass returns, unless the \<^verbatim>\<open>int\<close> that numbers the connections overflows.
\<close>

section \<open>A new connection\<close>

lemma acceptor_put_server [simp]: "acceptor_obj (put_server v w) = acceptor_obj w"
  by (simp add: put_server_def)

lemma register_server:
  assumes reg: "register_connection K c ch f peer w = Inr (l, w')" and v: "server w = Some v"
  shows "\<exists>p t. getNextLoop (threadPool v) = Inr (l, p) \<and>
     server w' = Some (v\<lparr>threadPool := p, nextConnId := nextConnId v + 1,
       connections := AList.update (connName v (nextConnId v)) c (connections v)\<rparr>) \<and>
     acceptor_obj w' = acceptor_obj w \<and> conns w' c = Some t \<and> length (buf_data (inputBuffer t)) = 1032 \<and>
     length (buf_data (outputBuffer t)) = 1032 \<and> highWaterMarkCallback t = None"
proof -
  obtain r e a k1 where call: "sys_getsockname K f (os (wsys w)) = ((r, e, a), k1)" by (metis prod.exhaust)
  from reg v call show ?thesis
    by (auto simp: register_connection_def bind_r_Inr_iff toIpPort_eq call_os_os Let_def mk_TcpConnection_def
        CheckLoopNotNull_def mk_Buffer_default conn_setCloseCallback_def setWriteCompleteCallback_def setMessageCallback_def
        setConnectionCallback_def split: if_splits prod.splits)
qed

lemma names_ok_register:
  assumes n: "names_ok v cs" and wf: "server_wf addr v" and id: "nextConnId v < 2 ^ 31 - 1"
    and c: "cs c = None" and t: "conn_name t = connName v (nextConnId v)"
    and v': "srv_name v' = srv_name v" "ipPort v' = ipPort v" "nextConnId v' = nextConnId v + 1"
      "connections v' = AList.update (connName v (nextConnId v)) c (connections v)"
  shows "names_ok v' (cs(c \<mapsto> t))"
proof -
  note N = n [unfolded names_ok_def]
  have nm: "connName v' = connName v" using v'(1,2) by (intro ext) (simp add: connName_def)
  have key: "connName v = conn_key (srv_name v) addr" using wf by (intro connName_key_fun) (simp add: server_wf_def)
  have pos: "1 \<le> nextConnId v" using wf by (simp add: server_wf_def)
  have new: "conn_name s \<noteq> connName v (nextConnId v)" if s: "cs d = Some s" for d s
  proof
    assume eq: "conn_name s = connName v (nextConnId v)"
    from N s obtain i where i: "1 \<le> i" "i < nextConnId v" "conn_name s = connName v i" by blast
    then have "i = nextConnId v" using cn.key_inj [of i "nextConnId v" "srv_name v" addr] eq id pos by (simp add: key valid_id_def)
    then show False using i(2) by simp
  qed
  have conn': "map_of (connections v') = (map_of (connections v))(connName v (nextConnId v) \<mapsto> c)"
    unfolding v'(4) by (rule update_conv')
  show ?thesis
    unfolding names_ok_def nm v'(3) conn'
  proof (intro conjI allI impI)
    show "\<exists>i. 1 \<le> i \<and> i < nextConnId v + 1 \<and> conn_name s = connName v i" if "(cs(c \<mapsto> t)) d = Some s" for d s
    proof (cases "d = c")
      case True
      then show ?thesis using that t pos by (intro exI [of _ "nextConnId v"]) simp
    next
      case False
      then have "cs d = Some s" using that by simp
      with N obtain i where "1 \<le> i" "i < nextConnId v" "conn_name s = connName v i" by blast
      then show ?thesis by (intro exI [of _ i]) simp
    qed
    show "d = e" if a: "(cs(c \<mapsto> t)) d = Some s \<and> (cs(c \<mapsto> t)) e = Some r \<and> conn_name s = conn_name r" for d e s r
    proof -
      consider "d = c" "e = c" | "d = c" "e \<noteq> c" | "d \<noteq> c" "e = c" | "d \<noteq> c" "e \<noteq> c" by blast
      then show ?thesis
      proof cases
        case 2
        then show ?thesis using a new [of e r] t by simp
      next
        case 3
        then show ?thesis using a new [of d s] t by simp
      next
        case 4
        then show ?thesis using a N by (metis fun_upd_apply)
      qed simp
    qed
    show "((map_of (connections v))(connName v (nextConnId v) \<mapsto> c)) (conn_name s) = Some d"
      if a: "(cs(c \<mapsto> t)) d = Some s \<and> conn_state s \<noteq> KDisconnected" for d s
    proof (cases "d = c")
      case True
      then show ?thesis using a t by simp
    next
      case False
      then have s: "cs d = Some s" using a by simp
      then have "map_of (connections v) (conn_name s) = Some d" using N a by blast
      then show ?thesis using new [OF s] by simp
    qed
    show "\<exists>s. (cs(c \<mapsto> t)) d = Some s \<and> conn_name s = m"
      if a: "((map_of (connections v))(connName v (nextConnId v) \<mapsto> c)) m = Some d" for m d
    proof (cases "m = connName v (nextConnId v)")
      case True
      then show ?thesis using a t by auto
    next
      case False
      then have "map_of (connections v) m = Some d" using a by simp
      with N obtain s where "cs d = Some s" "conn_name s = m" by blast
      then show ?thesis using c by (intro exI [of _ s]) auto
    qed
  qed
qed

text \<open>
  Adding one connection with its channel, on a descriptor nothing else has; its \<^verbatim>\<open>connectionEstablished\<close> is owed
  to its loop.
\<close>

lemma inv_new_conn:
  assumes inv: "server_inv interest opened addr B X w" and new: "conns w c = None" "chans w ch = None"
    and net: "net_wf interest opened w'"
    and upd: "conns w' = (conns w)(c \<mapsto> t)" "chans w' = (chans w)(ch \<mapsto> x)" "loops w' = loops w" "acceptor_obj w' = acceptor_obj w"
      "cur_thread w' = cur_thread w" "cachedTid w' = cachedTid w"
    and t: "conn_channel t = ch" "conn_good X c t x" "ch_index x = kNew" "conn_loop t = l" "conn_state t = KConnecting"
    and v: "server w = Some v" "server w' = Some v'" "srv_loop v' = srv_loop v" "\<And>d. d \<noteq> c \<Longrightarrow> listed w' d \<longleftrightarrow> listed w d"
    and good: "\<And>a. acceptor_obj w = Some a \<Longrightarrow> server_good addr v a (\<lambda>l. loops w l \<noteq> None) (conns w) \<Longrightarrow>
      server_good addr v' a (\<lambda>l. loops w l \<noteq> None) (conns w')"
  shows "server_inv interest opened addr (B(l := ConnectionEstablished c # B l)) X w' \<and> stable w w'"
proof -
  note I = server_invD [OF inv] and D = objs_wfD [OF server_invD(2) [OF inv]]
  let ?B = "B(l := ConnectionEstablished c # B l)"
  have ow: "owed ?B w' l' = (if l' = l then ConnectionEstablished c # owed B w l' else owed B w l')" for l'
    by (simp add: owed_def upd(3))
  have old: "conns w' d = Some s" if "conns w d = Some s" for d s using that new(1) upd(1) by auto
  have oldc: "chans w' i = Some y" if "chans w i = Some y" for i y using that new(2) upd(2) by auto
  have owner: "owner_ok h i w'" if "owner_ok h i w" for h i
    by (rule owner_ok_cong [OF that same_loops_refl [OF upd(3)] upd(4)]) (use old in blast)
  have rc: "readCallback x = Some (ConnHandleRead c)" using t(2) by (simp add: conn_good_def conn_chan_def)
  have "objs_wf X w'"
    unfolding objs_wf_def
  proof (intro conjI allI impI)
    fix i y assume "chans w' i = Some y"
    then show "owner_ok (readCallback y) i w'"
      using D(1) [of i y] owner upd(1,2) t(1) rc by (cases "i = ch") auto
  next
    fix l el assume "loops w' l = Some el"
    then show "\<exists>y. chans w' (wakeupChannel el) = Some y \<and> loop_good l el y" using D(2) oldc upd(3) by metis
  next
    fix a assume "acceptor_obj w' = Some a"
    then show "\<exists>y. chans w' (acceptChannel a) = Some y \<and> acceptor_chan a y" using D(3) oldc upd(4) by metis
  next
    fix d s assume s: "conns w' d = Some s"
    show "\<exists>y. chans w' (conn_channel s) = Some y \<and> conn_good X d s y"
    proof (cases "d = c")
      case True
      then show ?thesis using s upd(1,2) t(1,2) by simp
    next
      case False
      then show ?thesis using s D(4) [of d s] oldc upd(1) by auto
    qed
  qed
  moreover have "tasks_wf ?B w'"
    unfolding tasks_wf_def
  proof
    fix l'
    have T: "tasks_ok w l' (owed B w l')" using I(3) by (simp add: tasks_wf_def)
    have keep: "task_ok w' l' tk" if "task_ok w l' tk" for tk
      using that v old by (cases tk) fastforce+
    have "\<not> task_ok w l' (ConnectionEstablished c)" using new(1) by simp
    then have "c \<notin> set (established_ids (owed B w l'))" using T unfolding established_ids_mem tasks_ok_def by blast
    then show "tasks_ok w' l' (owed ?B w' l')"
      using T keep upd(1) t(4,5) by (auto simp: ow tasks_ok_def established_ids_Cons)
  qed
  moreover have "server_ok addr w'"
  proof -
    obtain a where "acceptor_obj w = Some a" "server_good addr v a (\<lambda>l. loops w l \<noteq> None) (conns w)"
      using I(4) v(1) by (auto elim: server_okE)
    then show ?thesis using good v(2) upd(3,4) by (simp add: server_ok_def)
  qed
  moreover have pol: "polled w' s = polled w s" if s: "conns w d = Some s" for d s
  proof -
    from D(4) [OF s] obtain y where "chans w (conn_channel s) = Some y" by blast
    then show ?thesis using oldc by (intro polled_same) simp
  qed
  have "cared_ok ?B w'"
    unfolding cared_ok_def
  proof (intro allI impI)
    fix d s l' tk assume a: "conns w' d = Some s \<and> due w' d s = Some (l', tk)"
    show "tk \<in> set (owed ?B w' l')"
    proof (cases "d = c")
      case True
      then have "tk = ConnectionEstablished c" "l' = l" using a upd(1) t(4,5) by (simp_all add: due_def)
      then show ?thesis by (simp add: ow)
    next
      case False
      then have s: "conns w d = Some s" using a upd(1) by simp
      have "due w' d s = due w d s" using v pol [OF s] False by (intro due_cong) simp_all
      then show ?thesis using I(5) a s by (auto simp: cared_ok_def ow)
    qed
  qed
  moreover have "stable w w'"
  proof -
    have "onward w w'"
      unfolding onward_def
    proof (intro allI impI)
      fix d s assume s: "conns w d = Some s"
      then have "d \<noteq> c" using new(1) by auto
      then show "\<exists>s'. conns w' d = Some s' \<and> conn_loop s' = conn_loop s \<and> conn_channel s' = conn_channel s \<and>
        (conn_state s \<noteq> KConnecting \<longrightarrow> conn_state s' \<noteq> KConnecting) \<and>
        (conn_state s = KDisconnected \<longrightarrow> conn_state s' = KDisconnected) \<and> (\<not> listed w d \<longrightarrow> \<not> listed w' d) \<and>
        (conn_state s = KDisconnected \<and> \<not> polled w s \<longrightarrow> \<not> polled w' s')"
        using old [OF s] pol [OF s] v(4) by simp
    qed
    then show ?thesis using oldc upd(3-6) unfolding stable_def threads_def by auto
  qed
  ultimately show ?thesis using net by (simp add: server_inv_def)
qed

lemma register_safe:
  assumes K: "net_kernel K interest opened" and inv: "server_inv interest opened addr B X w"
    and new: "conns w c = None" "chans w ch = None"
    and f: "0 \<le> f" "f \<in> opened (os (wsys w))" "\<And>i d. chans w i = Some d \<Longrightarrow> ch_fd d \<noteq> f" "\<And>l. loop_epoll w l \<noteq> Some f"
  shows "runs (exits K interest) (\<lambda>(l, w'). server_inv interest opened addr (B(l := ConnectionEstablished c # B l)) X w' \<and> stable w w' \<and>
     loops w' l \<noteq> None \<and> (\<exists>t. conns w' c = Some t)) (register_connection K c ch f peer w)"
proof -
  obtain v a where v: "server w = Some v" "acceptor_obj w = Some a" "server_good addr v a (\<lambda>l. loops w l \<noteq> None) (conns w)"
    using server_invD(4) [OF inv] by (rule server_okE)
  then have wf: "server_wf addr v" by (simp add: server_good_def)
  obtain p where p: "getNextLoop (threadPool v) = Inr (next_loop v, p)" "pool_ok p" "getAllLoops p = getAllLoops (threadPool v)"
    using rr.pick_law [of "threadPool v"] wf unfolding next_loop_def server_wf_def by blast
  show ?thesis
  proof (cases "nextConnId v = 2 ^ 31 - 1")
    case True
    then show ?thesis using v(1) p(1) by (simp add: register_connection_def)
  next
    case False
    then have id: "nextConnId v < 2 ^ 31 - 1" using v(3) by (simp add: server_good_def)
    let ?l = "next_loop v" and ?x = "conn_channel_init c (next_loop v) f"
    obtain w' t v' k' where w': "register_connection K c ch f peer w = Inr (?l, w')"
      "conns w' c = Some t" "\<forall>d. d \<noteq> c \<longrightarrow> conns w' d = conns w d" "new_connection v ?l ch f peer t"
      "chans w' = (chans w)(ch \<mapsto> ?x)" "loops w' = loops w" "k' = snd (sys_getsockname K f (os (wsys w)))"
      "os (wsys w') = snd (sys_setsockopt K f SO_KEEPALIVE (optval True) k')"
      "cur_thread w' = cur_thread w" "cachedTid w' = cachedTid w"
      using register_ok [OF v(1) wf id f(1), of K c ch peer] by blast
    let ?v = "v\<lparr>threadPool := p, nextConnId := nextConnId v + 1,
       connections := AList.update (connName v (nextConnId v)) c (connections v)\<rparr>"
    from register_server [OF w'(1) v(1)] p(1) w'(2) have s': "server w' = Some ?v" "acceptor_obj w' = acceptor_obj w"
      "length (buf_data (inputBuffer t)) = 1032" "length (buf_data (outputBuffer t)) = 1032" "highWaterMarkCallback t = None"
      by auto
    have cs: "conns w' = (conns w)(c \<mapsto> t)" using w'(2,3) by auto
    have q: "quiet interest opened (os (wsys w)) (os (wsys w'))"
      unfolding w'(8,7) by (rule quiet_trans [OF quietD(10) [OF K] quietD(8) [OF K]])
    have live: "loops w ?l \<noteq> None"
    proof -
      have "?l \<in> set (getAllLoops (threadPool v))"
        using wf by (auto simp: next_loop_def server_wf_def pool_ok_def getAllLoops_def intro!: nth_mem split: if_splits)
      then show ?thesis using v(3) by (simp add: server_good_def)
    qed
    have "net_wf interest opened (put_chan ch ?x w)"
      by (rule net_new_chan [OF server_invD(1) [OF inv] new(2)]) (use f live in auto)
    then have net: "net_wf interest opened w'"
      by (rule net_wf_cong) (use w'(5,6,10) q in simp_all)
    have xc: "readCallback ?x = Some (ConnHandleRead c)" "writeCallback ?x = Some (ConnHandleWrite c)"
      "closeCallback ?x = Some (ConnHandleClose c)" "errorCallback ?x = Some (ConnHandleError c)" "\<not> ch_tied ?x"
      by (simp_all add: conn_channel_init_def mk_Channel_def setErrorCallback_def setCloseCallback_def
          setWriteCallback_def setReadCallback_def)
    have good: "conn_good X c t ?x"
      using w'(4) s'(3-5) xc v(3)
      by (simp add: conn_good_def new_connection_def conn_chan_def buffers_good_def callbacks_good_def max_buffer_def server_good_def)
    have t: "conn_channel t = ch" "conn_loop t = ?l" "conn_state t = KConnecting" "conn_name t = connName v (nextConnId v)"
      using w'(4) by (simp_all add: new_connection_def)
    have nm: "connName ?v = connName v" by (intro ext) (simp add: connName_def)
    have wf': "server_wf addr ?v"
      using wf p(2) reg_wf_update(2) [OF wf id, of c] by (simp add: server_wf_def nm)
    have sg: "server_good addr ?v b (\<lambda>l. loops w l \<noteq> None) (conns w')"
      if b: "server_good addr v b (\<lambda>l. loops w l \<noteq> None) (conns w)" for b
    proof -
      have "names_ok ?v (conns w')"
        unfolding cs by (rule names_ok_register [of v "conns w" addr c t, OF _ wf id new(1) t(4)]) (use b in \<open>simp_all add: server_good_def\<close>)
      then show ?thesis using b wf' p(3) id by (simp add: server_good_def)
    qed
    have "listed w' d \<longleftrightarrow> listed w d" if "d \<noteq> c" for d
    proof -
      have "((map_of (connections v))(connName v (nextConnId v) \<mapsto> c)) n = Some d \<longleftrightarrow> map_of (connections v) n = Some d" for n
        using that reg_wf_update(1) [OF wf id] by (cases "n = connName v (nextConnId v)") auto
      then show ?thesis using v(1) s'(1) by (simp add: listed_def update_conv')
    qed
    from inv_new_conn [OF inv new net cs w'(5,6) s'(2) w'(9,10) t(1) good _ t(2,3) v(1) s'(1) _ this] sg
    have "server_inv interest opened addr (B(?l := ConnectionEstablished c # B ?l)) X w' \<and> stable w w'" by simp
    then show ?thesis using w'(1,2,6) live t by simp
  qed
qed

section \<open>Ready handlers\<close>

text \<open>\<open>alloc\<close> always finds identities that are not in use.\<close>

definition allocates :: "(('k, 'm) sworld_scheme \<Rightarrow> conn_id \<times> chan_id) \<Rightarrow> bool" where
  "allocates alloc \<longleftrightarrow> (\<forall>w. finite (dom (conns w)) \<and> finite (dom (chans w)) \<longrightarrow>
     conns w (fst (alloc w)) = None \<and> chans w (snd (alloc w)) = None)"

text \<open>
  A connection whose channel is registered, called in the thread of its loop; a handler that may be called;
  a channel all of whose handlers may be called.
\<close>

definition conn_ready :: "conn_id \<Rightarrow> ('k, 'm) sworld_scheme \<Rightarrow> bool" where
  "conn_ready c w \<longleftrightarrow> (\<exists>t ch. conns w c = Some t \<and> conn_state t \<noteq> KConnecting \<and> running (conn_loop t) w \<and>
     chans w (conn_channel t) = Some ch \<and> ch_index ch \<noteq> kNew)"

fun ready :: "handler \<Rightarrow> ('k, 'm) sworld_scheme \<Rightarrow> bool" where
  "ready (LoopHandleRead l) w \<longleftrightarrow> loops w l \<noteq> None"
| "ready AcceptorHandleRead w \<longleftrightarrow> True"
| "ready (ConnHandleRead c) w \<longleftrightarrow> conn_ready c w"
| "ready (ConnHandleWrite c) w \<longleftrightarrow> conn_ready c w"
| "ready (ConnHandleClose c) w \<longleftrightarrow> conn_ready c w"
| "ready (ConnHandleError c) w \<longleftrightarrow> conn_ready c w"

definition chan_ready :: "chan_id \<Rightarrow> ('k, 'm) sworld_scheme \<Rightarrow> bool" where
  "chan_ready i w \<longleftrightarrow> (\<exists>ch. chans w i = Some ch \<and> (\<forall>h. Some h \<in> set (handlers ch) \<longrightarrow> ready h w))"

lemma conn_ready_stable:
  assumes "conn_ready c w" and st: "stable w w'"
  shows "conn_ready c w'"
proof -
  from assms(1) obtain t ch where t: "conns w c = Some t" "conn_state t \<noteq> KConnecting" "running (conn_loop t) w"
    "chans w (conn_channel t) = Some ch" "ch_index ch \<noteq> kNew" by (auto simp: conn_ready_def)
  from stable_connD [OF st t(1)] obtain t' where t': "conns w' c = Some t'" "conn_loop t' = conn_loop t"
    "conn_channel t' = conn_channel t" "conn_state t' \<noteq> KConnecting" using t(2) by blast
  from stable_chanD [OF st t(4)] obtain ch' where ch': "chans w' (conn_channel t) = Some ch'" "ch_index ch' \<noteq> kNew"
    using t(5) by blast
  have "running (conn_loop t) w'" by (rule stable_running [OF st t(3)])
  then show ?thesis using t' ch' unfolding conn_ready_def by auto
qed

lemma ready_stable: "ready h w \<Longrightarrow> stable w w' \<Longrightarrow> ready h w'"
  using conn_ready_stable [of _ w w'] stable_loopD [of w w'] by (cases h) simp_all

lemma chan_ready_stable: "chan_ready i w \<Longrightarrow> stable w w' \<Longrightarrow> chan_ready i w'"
proof -
  assume r: "chan_ready i w" and st: "stable w w'"
  then obtain ch where ch: "chans w i = Some ch" "\<forall>h. Some h \<in> set (handlers ch) \<longrightarrow> ready h w"
    by (auto simp: chan_ready_def)
  from st ch(1) obtain ch' where "chans w' i = Some ch'" "handlers ch' = handlers ch" unfolding stable_def by blast
  with ch(2) ready_stable [OF _ st] show ?thesis unfolding chan_ready_def by metis
qed

text \<open>A channel that the poller knows is ready in the thread of its loop.\<close>

lemma registered_ready:
  assumes inv: "server_inv interest opened addr B {} w" and th: "running l w"
    and ch: "chans w i = Some ch" "ch_loop ch = l" "ch_index ch \<noteq> kNew"
  shows "chan_ready i w"
proof -
  note D = objs_wfD [OF server_invD(2) [OF inv]]
  have "\<forall>h. Some h \<in> set (handlers ch) \<longrightarrow> ready h w"
    using D(1) [OF ch(1)]
  proof (cases "(readCallback ch, i, w)" rule: owner_ok.cases)
    case (1 l' i' w0)
    then obtain el where el: "loops w l' = Some el" "wakeupChannel el = i" using D(1) [OF ch(1)] by auto
    then have "loop_good l' el ch" using D(2) [OF el(1)] ch(1) by simp
    then show ?thesis using el(1) by (auto simp: loop_good_def handlers_def)
  next
    case (2 i' w0)
    then obtain a where a: "acceptor_obj w = Some a" "acceptChannel a = i" using D(1) [OF ch(1)] by auto
    then have "acceptor_chan a ch" using D(3) [OF a(1)] ch(1) by simp
    then show ?thesis by (auto simp: acceptor_chan_def handlers_def)
  next
    case (3 c i' w0)
    then obtain t where t: "conns w c = Some t" "conn_channel t = i" using D(1) [OF ch(1)] by auto
    then have good: "conn_good {} c t ch" using D(4) [OF t(1)] ch(1) by simp
    then have "conn_state t \<noteq> KConnecting" using ch(3) by (auto simp: conn_good_def)
    then have "conn_ready c w"
      using t ch th good by (auto simp: conn_ready_def conn_good_def conn_chan_def)
    then show ?thesis using good by (auto simp: conn_good_def conn_chan_def handlers_def)
  qed auto
  then show ?thesis using ch(1) by (auto simp: chan_ready_def)
qed

section \<open>Functors that have run\<close>

text \<open>What a functor is there for: it stays achieved, whatever else happens.\<close>

fun settled :: "task \<Rightarrow> ('k, 'm) sworld_scheme \<Rightarrow> bool" where
  "settled (ConnectionEstablished c) w \<longleftrightarrow> (\<exists>t. conns w c = Some t \<and> conn_state t \<noteq> KConnecting)"
| "settled (RemoveConnectionInLoop c) w \<longleftrightarrow> conns w c \<noteq> None \<and> \<not> listed w c"
| "settled (ConnectionDestroyed c) w \<longleftrightarrow> (\<exists>t. conns w c = Some t \<and> conn_state t = KDisconnected \<and> \<not> polled w t)"
| "settled _ w \<longleftrightarrow> True"

lemma settled_stays:
  assumes "settled tk w" and "threads w w'"
  shows "settled tk w'"
proof -
  have on: "onward w w'" using assms(2) by (simp add: threads_def)
  show ?thesis
  proof (cases "(tk, w)" rule: settled.cases)
    case (1 c w0)
    with assms(1) obtain t where "conns w c = Some t" "conn_state t \<noteq> KConnecting" by auto
    then show ?thesis using 1 onwardD [OF on, of c t] by auto
  next
    case (2 c w0)
    with assms(1) obtain t where "conns w c = Some t" "\<not> listed w c" by auto
    then show ?thesis using 2 onwardD [OF on, of c t] by auto
  next
    case (3 c w0)
    with assms(1) obtain t where "conns w c = Some t" "conn_state t = KDisconnected" "\<not> polled w t" by auto
    then show ?thesis using 3 onwardD [OF on, of c t] by auto
  qed simp_all
qed

text \<open>
  What a pass of loop \<open>l\<close> achieves for the connections there were before it: those of the loop have come
  up; the server's loop has removed from the map those that were down; the poller has forgotten those
  of the loop that were down and out of the map.
\<close>

definition caught_up :: "loop_id \<Rightarrow> ('k, 'm) sworld_scheme \<Rightarrow> ('k, 'm) sworld_scheme \<Rightarrow> bool" where
  "caught_up l w w' \<longleftrightarrow> (\<forall>c t. conns w c = Some t \<longrightarrow> (\<exists>t'. conns w' c = Some t' \<and>
     (conn_loop t = l \<longrightarrow> conn_state t' \<noteq> KConnecting) \<and>
     (conn_state t = KDisconnected \<and> srv_loop (the (server w)) = l \<longrightarrow> \<not> listed w' c) \<and>
     (conn_state t = KDisconnected \<and> conn_loop t = l \<and> \<not> listed w c \<longrightarrow> \<not> polled w' t')))"

text \<open>The functors due in a state, once run, are the progress of the states before it.\<close>

lemma caught_upI:
  assumes inv: "server_inv interest opened addr B X w1" and B: "B l = []" and el: "loops w1 l = Some el"
    and ran: "\<And>tk. tk \<in> set (pendingFunctors el) \<Longrightarrow> settled tk w2" and on: "onward w w1" "onward w1 w2"
    and srv: "srv_loop (the (server w1)) = srv_loop (the (server w))"
  shows "caught_up l w w2"
  unfolding caught_up_def
proof (intro allI impI)
  fix c t assume t: "conns w c = Some t"
  obtain t1 where t1: "conns w1 c = Some t1" "conn_loop t1 = conn_loop t" "conn_channel t1 = conn_channel t"
    "conn_state t = KDisconnected \<longrightarrow> conn_state t1 = KDisconnected" "\<not> listed w c \<longrightarrow> \<not> listed w1 c"
    by (rule onwardD [OF on(1) t]) blast
  obtain t2 where t2: "conns w2 c = Some t2" "conn_loop t2 = conn_loop t1" "conn_channel t2 = conn_channel t1"
    "conn_state t1 \<noteq> KConnecting \<longrightarrow> conn_state t2 \<noteq> KConnecting" "\<not> listed w1 c \<longrightarrow> \<not> listed w2 c"
    "conn_state t1 = KDisconnected \<and> \<not> polled w1 t1 \<longrightarrow> \<not> polled w2 t2"
    by (rule onwardD [OF on(2) t1(1)]) blast
  have fin: "settled tk w2" if "due w1 c t1 = Some (l, tk)" for tk
  proof -
    have "tk \<in> set (owed B w1 l)" using server_invD(5) [OF inv] t1(1) that unfolding cared_ok_def by blast
    then show ?thesis using ran el B by (simp add: owed_def)
  qed
  have "conn_state t2 \<noteq> KConnecting" if "conn_loop t = l"
    using fin [of "ConnectionEstablished c"] that t1(2) t2(1,4) by (cases "conn_state t1 = KConnecting") (auto simp: due_def)
  moreover have "\<not> listed w2 c" if "conn_state t = KDisconnected" "srv_loop (the (server w)) = l"
    using fin [of "RemoveConnectionInLoop c"] that t1(4) t2(5) srv by (cases "listed w1 c") (auto simp: due_def)
  moreover have "\<not> polled w2 t2" if "conn_state t = KDisconnected" "conn_loop t = l" "\<not> listed w c"
    using fin [of "ConnectionDestroyed c"] that t1(2,4,5) t2(1,6) by (cases "polled w1 t1") (auto simp: due_def)
  ultimately show "\<exists>t'. conns w2 c = Some t' \<and> (conn_loop t = l \<longrightarrow> conn_state t' \<noteq> KConnecting) \<and>
     (conn_state t = KDisconnected \<and> srv_loop (the (server w)) = l \<longrightarrow> \<not> listed w2 c) \<and>
     (conn_state t = KDisconnected \<and> conn_loop t = l \<and> \<not> listed w c \<longrightarrow> \<not> polled w2 t')"
    using t2(1) by blast
qed

section \<open>Handlers, functors and passes\<close>

context server_user
begin

lemma newConnection_keeps:
  assumes kernel: "server_kernel K interest opened" and inv: "inv B {} w" and new: "conns w c = None" "chans w ch = None"
    and f: "0 \<le> f" "f \<in> opened (os (wsys w))" "\<And>i d. chans w i = Some d \<Longrightarrow> ch_fd d \<noteq> f" "\<And>l. loop_epoll w l \<noteq> Some f"
  shows "keeps B w (newConnection K CB c ch f peer w)"
  unfolding newConnection_def
proof (rule runs_bind [OF register_safe [OF server_kernelD(1) [OF kernel] inv new f]])
  fix r assume "case r of (l, w') \<Rightarrow> inv (B(l := ConnectionEstablished c # B l)) {} w' \<and> stable w w' \<and> loops w' l \<noteq> None \<and>
     (\<exists>t. conns w' c = Some t)"
  then obtain l w' t el where r: "r = (l, w')" "inv (B(l := ConnectionEstablished c # B l)) {} w'" "stable w w'" "loops w' l = Some el"
      "conns w' c = Some t" by (cases r) auto
  show "keeps B w (case r of (ioLoop, w') \<Rightarrow> runInLoop K ioLoop (connectionEstablished K CB c) (ConnectionEstablished c) w')"
  proof (cases "isInLoopThread el w'")
    case True
    have "keeps B w' (connectionEstablished K CB c w')"
      using established_keeps [OF kernel r(2,5)] by (rule runs_mono) simp
    then show ?thesis using r(1,4) True keeps_trans [OF r(3)] by (simp add: runInLoop_def)
  next
    case False
    have "keeps B w' (queueInLoop K l (ConnectionEstablished c) w')"
      by (rule keeps_Ex) (rule inv_queue [OF server_kernelD(1) [OF kernel] r(2)], use r in simp)
    then show ?thesis using r(1,4) False keeps_trans [OF r(3)] by (simp add: runInLoop_def)
  qed
qed

lemma accept_keeps:
  assumes kernel: "server_kernel K interest opened" and inv: "inv B {} w" and alloc: "allocates alloc"
  shows "keeps B w (Acceptor_handleRead K
     (\<lambda>_ f peer u. newConnection K CB (fst (alloc u)) (snd (alloc u)) f peer u) ia w)"
proof -
  obtain v a where a: "acceptor_obj w = Some a" "newConnectionCallback a = Some newConnection_ref"
    using server_invD(4) [OF inv] by (auto elim!: server_okE simp: server_good_def)
  obtain n e peer k' where call: "sys_accept4 K (sockfd (acceptSocket a)) (os (wsys w)) = ((n, e, peer), k')"
    by (metis prod.exhaust)
  note N = net_wfD [OF server_invD(1) [OF inv]]
  have cr: "creates opened (os (wsys w)) n k'" and il: "interest ep k' = interest ep (os (wsys w))" for ep
    using descriptorD(4) [OF server_kernelD(1) [OF kernel], of "os (wsys w)" "sockfd (acceptSocket a)"] descriptorD(9) [OF server_kernelD(1) [OF kernel], of ep "sockfd (acceptSocket a)" "os (wsys w)"] call
    by simp_all
  show ?thesis
  proof (cases "0 \<le> n")
    case False
    then have q: "quiet interest opened (os (wsys w)) k'" using cr il by (simp add: creates_def quiet_def)
    obtain ls where "Acceptor_handleRead K (\<lambda>_ f peer u. newConnection K CB (fst (alloc u)) (snd (alloc u)) f peer u) ia w =
        Inr (put_sys \<lparr>os = k', logs = ls\<rparr> w)"
      unfolding Acceptor_handleRead_disposes [OF a(1) call] using False by auto
    then show ?thesis using inv_put_sys [OF inv, of "\<lparr>os = k', logs = ls\<rparr>"] q by simp
  next
    case True
    let ?w1 = "put_sys ((wsys w)\<lparr>os := k'\<rparr>) w"
    have op: "n \<notin> opened (os (wsys w))" "opened k' = insert n (opened (os (wsys w)))" using cr True by (simp_all add: creates_def)
    have "net_wf interest opened ?w1"
      by (rule net_wf_grow [OF server_invD(1) [OF inv]]) (use op il in auto)
    then have w1: "inv B {} ?w1 \<and> stable w ?w1"
      by (intro inv_frame [OF inv]) (auto intro!: revents_same same_loops_refl simp: same_objs_def)
    have fresh: "conns ?w1 (fst (alloc ?w1)) = None" "chans ?w1 (snd (alloc ?w1)) = None"
      using alloc inv_finite [OF conjunct1 [OF w1]] unfolding allocates_def by blast+
    have n: "ch_fd d \<noteq> n" if "chans ?w1 i = Some d" for i d using N(7) [of i d] that op(1) by auto
    have e: "loop_epoll ?w1 l \<noteq> Some n" for l using N(3) [of l n] op(1) by (auto simp: loop_epoll_def)
    have "keeps B ?w1 (newConnection K CB (fst (alloc ?w1)) (snd (alloc ?w1)) n (InetAddress_of peer) ?w1)"
      by (rule newConnection_keeps [OF kernel conjunct1 [OF w1] fresh True _ n e]) (simp add: op)
    then show ?thesis
      unfolding Acceptor_handleRead_disposes [OF a(1) call] using True a(2) keeps_trans [OF conjunct2 [OF w1]] by simp
  qed
qed

lemma wakeup_read_keeps:
  assumes kernel: "server_kernel K interest opened" and inv: "inv B {} w" and l: "loops w l \<noteq> None"
  shows "keeps B w (loop_handleRead K l w)"
proof -
  obtain el where el: "loops w l = Some el" using l by blast
  obtain n e k' where call: "sys_read8 K (wakeupFd el) (os (wsys w)) = ((n, e), k')" by (metis prod.exhaust)
  let ?w1 = "put_sys ((wsys w)\<lparr>os := k'\<rparr>) w"
  have "quiet interest opened (os (wsys w)) k'" using quietD(2) [OF server_kernelD(1) [OF kernel], of "os (wsys w)" "wakeupFd el"] call by simp
  then have w1: "inv B {} ?w1 \<and> stable w ?w1" by (intro inv_put_sys [OF inv]) simp
  then show ?thesis
    using el call inv_log_err [OF conjunct1 [OF w1]] stable_trans by (auto simp: loop_handleRead_def Let_def)
qed

lemma dispatch_keeps:
  assumes kernel: "server_kernel K interest opened" and inv: "inv B {} w" and h: "ready h w" and alloc: "allocates alloc"
  shows "keeps B w (dispatch K CB alloc ia tm h w)"
proof (cases h)
  case (LoopHandleRead l)
  then show ?thesis using wakeup_read_keeps [OF kernel inv] h by simp
next
  case AcceptorHandleRead
  then show ?thesis using accept_keeps [OF kernel inv alloc] by simp
next
  case (ConnHandleRead c)
  then show ?thesis using handleRead_keeps [OF kernel inv] h by (auto simp: conn_ready_def)
next
  case (ConnHandleWrite c)
  with h obtain t where t: "conns w c = Some t" by (auto simp: conn_ready_def)
  show ?thesis unfolding ConnHandleWrite dispatch.simps by (rule handleWrite_safe [OF kernel inv t])
next
  case (ConnHandleClose c)
  then show ?thesis using handleClose_keeps [OF kernel inv] h by (auto simp: conn_ready_def)
next
  case (ConnHandleError c)
  with h obtain t where t: "conns w c = Some t" by (auto simp: conn_ready_def)
  show ?thesis unfolding ConnHandleError dispatch.simps by (rule keeps_Ex [OF handleError_safe [OF server_kernelD(1) [OF kernel] inv t]])
qed

text \<open>The four calls of one event; each reads the channel again.\<close>

lemma call_if_keeps:
  assumes kernel: "server_kernel K interest opened" and inv: "inv B {} w" and r: "chan_ready i w" and alloc: "allocates alloc"
    and cb: "\<And>ch. cb ch \<in> set (handlers ch)"
  shows "keeps B w (call_if (\<lambda>v. chans v i) (dispatch K CB alloc ia tm) cond cb w)"
proof -
  from r obtain ch where ch: "chans w i = Some ch" "\<And>h. Some h \<in> set (handlers ch) \<Longrightarrow> ready h w" by (auto simp: chan_ready_def)
  show ?thesis
  proof (cases "cb ch")
    case None
    then show ?thesis using ch(1) inv by (simp add: call_if_def)
  next
    case (Some h)
    then have "ready h w" using ch(2) cb [of ch] by simp
    then show ?thesis using ch(1) Some inv dispatch_keeps [OF kernel inv _ alloc] by (simp add: call_if_def)
  qed
qed

lemma handleEvent_keeps:
  assumes kernel: "server_kernel K interest opened" and inv: "inv B {} w" and r: "chan_ready i w" and alloc: "allocates alloc"
  shows "keeps B w (handleEvent (\<lambda>v. chans v i) alive (dispatch K CB alloc ia tm) w)"
proof -
  have four: "closeCallback ch \<in> set (handlers ch)" "errorCallback ch \<in> set (handlers ch)"
    "readCallback ch \<in> set (handlers ch)" "writeCallback ch \<in> set (handlers ch)" for ch by (simp_all add: handlers_def)
  have step: "keeps B w (call_if (\<lambda>v. chans v i) (dispatch K CB alloc ia tm) cond cb u)"
    if "inv B {} u \<and> stable w u" "\<And>ch. cb ch \<in> set (handlers ch)" for u cond cb
    by (rule keeps_trans [OF conjunct2 [OF that(1)]])
      (rule call_if_keeps [OF kernel conjunct1 [OF that(1)] chan_ready_stable [OF r conjunct2 [OF that(1)]] alloc that(2)])
  have "keeps B w (handleEventWithGuard (\<lambda>v. chans v i) (dispatch K CB alloc ia tm) w)"
    unfolding handleEventWithGuard_def
    by (intro runs_bind [where P = "\<lambda>u. inv B {} u \<and> stable w u"] step four) (use inv in simp_all)
  moreover obtain ch where "chans w i = Some ch" using r by (auto simp: chan_ready_def)
  ultimately show ?thesis using inv by (simp add: handleEvent_def split: option.split)
qed

lemma events_keep:
  assumes kernel: "server_kernel K interest opened" and alloc: "allocates alloc"
  shows "inv B {} w \<Longrightarrow> \<forall>i \<in> set is. chan_ready i w \<Longrightarrow>
     keeps B w (fold_r (\<lambda>i. handleEvent (\<lambda>v. chans v i) alive (dispatch K CB alloc ia tm)) is w)"
proof (induction "is" arbitrary: w)
  case (Cons i "is")
  have "keeps B w (handleEvent (\<lambda>v. chans v i) alive (dispatch K CB alloc ia tm) w)"
    by (rule handleEvent_keeps [OF kernel Cons.prems(1) _ alloc]) (use Cons.prems(2) in simp)
  then show ?case
    unfolding fold_r.simps
  proof (rule runs_bind)
    fix u assume u: "inv B {} u \<and> stable w u"
    then have "\<forall>i \<in> set is. chan_ready i u" using Cons.prems(2) chan_ready_stable by auto
    then show "keeps B w (fold_r (\<lambda>i. handleEvent (\<lambda>v. chans v i) alive (dispatch K CB alloc ia tm)) is u)"
      using keeps_trans [OF conjunct2 [OF u]] Cons.IH [OF conjunct1 [OF u]] by blast
  qed
qed simp

text \<open>A functor at the head of the batch runs, is settled and is forgotten.\<close>

lemma keeps_threads: "keeps B w r \<Longrightarrow> runs (exits K interest) (\<lambda>w'. inv B {} w' \<and> threads w w') r"
  by (erule runs_mono) (blast intro: stable_threads)

lemma run_task_keeps:
  assumes kernel: "server_kernel K interest opened" and inv: "inv (B(l := tk # ts)) {} w"
  shows "runs (exits K interest) (\<lambda>w'. inv (B(l := ts)) {} w' \<and> threads w w' \<and> settled tk w') (run_task K CB user tk w)"
proof -
  note ok = batch_task(1) [OF inv]
  show ?thesis
  proof (cases tk)
    case (ConnectionEstablished c)
    then obtain t where t: "conns w c = Some t" using ok by auto
    from inv ConnectionEstablished have "inv (B(l := ConnectionEstablished c # ts)) {} w" by simp
    from established_keeps [OF kernel this t] show ?thesis
      unfolding ConnectionEstablished run_task.simps by (rule runs_mono) (auto intro: stable_threads)
  next
    case (ConnectionDestroyed c)
    then obtain t where t: "conns w c = Some t" "conn_state t = KDisconnected" using ok by auto
    from connectionDestroyed_safe [OF server_kernelD(1) [OF kernel] inv t] obtain w' where w': "connectionDestroyed K CB c w = Inr w'"
      "inv (B(l := tk # ts)) {} w'" "threads w w'" "conns w' = conns w"
      "\<exists>ch'. chans w' (conn_channel t) = Some ch' \<and> ch_index ch' = kNew" by blast
    have np: "\<not> polled w' t" using w'(5) by (auto simp: polled_def)
    have "inv (B(l := ts)) {} w'"
      by (rule inv_batch_drop [OF w'(2)])
        (use w'(4) t np ConnectionDestroyed in \<open>auto simp: holds_def due_def split: if_splits\<close>)
    then show ?thesis using ConnectionDestroyed w'(1,3,4) t np by simp
  next
    case (RemoveConnectionInLoop c)
    then obtain t where t: "conns w c = Some t" "conn_state t = KDisconnected" using ok by auto
    from removeConnectionInLoop_safe [OF server_kernelD(1) [OF kernel] inv t] obtain w' where w': "removeConnectionInLoop K c w = Inr w'"
      "inv (B(l := tk # ts)) {} w'" "stable w w'" "\<not> listed w' c" by blast
    then have "inv (B(l := ts)) {} w'" using RemoveConnectionInLoop by (intro inv_drop_remove [of _ _ _ B l c ts]) simp_all
    moreover have "conns w' c \<noteq> None" using stable_connD [OF w'(3) t(1)] by auto
    ultimately show ?thesis using RemoveConnectionInLoop w'(1,4) stable_threads [OF w'(3)] by simp
  qed (use ok in simp_all)
qed

lemma functors_keep:
  assumes kernel: "server_kernel K interest opened"
  shows "inv (B(l := ts)) {} w \<Longrightarrow>
    runs (exits K interest) (\<lambda>w'. inv (B(l := [])) {} w' \<and> threads w w' \<and> (\<forall>tk \<in> set ts. settled tk w')) (fold_r (run_task K CB user) ts w)"
proof (induction ts arbitrary: w)
  case (Cons tk ts)
  show ?case
    unfolding fold_r.simps
  proof (rule runs_bind [OF run_task_keeps [OF kernel Cons.prems]])
    fix u assume u: "inv (B(l := ts)) {} u \<and> threads w u \<and> settled tk u"
    then have "runs (exits K interest) (\<lambda>w'. inv (B(l := [])) {} w' \<and> threads u w' \<and> (\<forall>tk \<in> set ts. settled tk w')) (fold_r (run_task K CB user) ts u)"
      using Cons.IH by blast
    then show "runs (exits K interest) (\<lambda>w'. inv (B(l := [])) {} w' \<and> threads w w' \<and> (\<forall>tk \<in> set (tk # ts). settled tk w')) (fold_r (run_task K CB user) ts u)"
      by (rule runs_mono) (use u threads_trans settled_stays in auto)
  qed
qed simp

text \<open>What changes no functor, channel or poller of a loop object changes nothing.\<close>

lemma inv_put_loop:
  assumes inv: "inv B {} w" and el: "loops w l = Some el" and same: "loop_view el' = loop_view el" "loop_poller el' = loop_poller el"
  shows "inv B {} (put_loop l el' w) \<and> threads w (put_loop l el' w)"
proof -
  have "inv B {} (put_loop l el' w) \<and> stable w (put_loop l el' w)"
    by (rule inv_frame [OF inv net_put_loop [OF server_invD(1) [OF inv] el same(2)]])
      (use el same(1) in \<open>auto intro!: revents_same simp: same_loops_def same_objs_def\<close>)
  then show ?thesis using stable_threads by blast
qed

lemma functors_taken:
  assumes inv: "inv B {} w" and el: "loops w l = Some el" and B: "B l = []"
  shows "inv (B(l := pendingFunctors el)) {} (put_loop l (el\<lparr>callingPendingFunctors := True, pendingFunctors := []\<rparr>) w)"
    (is "inv ?B {} ?w")
proof -
  note I = server_invD [OF inv] and D = objs_wfD [OF server_invD(2) [OF inv]]
  have ow: "owed ?B ?w = owed B w" using el B by (intro ext) (simp add: owed_def)
  have none: "loops ?w l' \<noteq> None \<longleftrightarrow> loops w l' \<noteq> None" for l' using el by simp
  have owner: "owner_ok h i ?w" if "owner_ok h i w" for h i
    using that el by (cases "(h, i, w)" rule: owner_ok.cases) auto
  have "net_wf interest opened ?w" by (rule net_put_loop [OF I(1) el]) simp
  moreover have "objs_wf {} ?w"
    using D owner el unfolding objs_wf_def by (auto simp: loop_good_def split: if_splits)
  moreover have "task_ok ?w l' t = task_ok w l' t" for l' t by (cases t) simp_all
  then have "tasks_wf ?B ?w" using I(3) by (simp add: tasks_wf_def tasks_ok_def ow)
  moreover have "server_ok addr ?w" using I(4) none unfolding server_ok_def by simp
  moreover have "due ?w c t = due w c t" for c t
    by (rule due_cong) (simp_all add: listed_def polled_def)
  then have "cared_ok ?B ?w" using I(5) by (simp add: cared_ok_def ow)
  ultimately show ?thesis by (simp add: server_inv_def)
qed

lemma doPendingFunctors_keeps:
  assumes kernel: "server_kernel K interest opened" and inv: "inv B {} w" and el: "loops w l = Some el" and B: "B l = []"
  shows "runs (exits K interest) (\<lambda>w'. inv B {} w' \<and> threads w w' \<and> (\<forall>tk \<in> set (pendingFunctors el). settled tk w'))
    (doPendingFunctors (run_task K CB user) l w)"
proof -
  let ?w1 = "put_loop l (el\<lparr>callingPendingFunctors := True, pendingFunctors := []\<rparr>) w"
  have t1: "threads w ?w1" using el by (intro threads_put_loop) simp_all
  have "runs (exits K interest) (\<lambda>w'. inv B {} w' \<and> threads w w' \<and> (\<forall>tk \<in> set (pendingFunctors el). settled tk w'))
      (bind_r (fold_r (run_task K CB user) (pendingFunctors el) ?w1) (\<lambda>w2.
          with_loop l w2 (\<lambda>el2. Inr (put_loop l (el2\<lparr>callingPendingFunctors := False\<rparr>) w2))))"
  proof (rule runs_bind [OF functors_keep [OF kernel functors_taken [OF inv el B]]])
    fix w2 assume a: "inv (B(l := [])) {} w2 \<and> threads ?w1 w2 \<and> (\<forall>tk \<in> set (pendingFunctors el). settled tk w2)"
    then have w2: "inv B {} w2" "threads w w2" using B threads_trans [OF t1] by (auto simp: fun_upd_idem)
    then obtain el2 where el2: "loops w2 l = Some el2" using el unfolding threads_def by blast
    have i3: "inv B {} (put_loop l (el2\<lparr>callingPendingFunctors := False\<rparr>) w2) \<and>
        threads w2 (put_loop l (el2\<lparr>callingPendingFunctors := False\<rparr>) w2)"
      by (rule inv_put_loop [OF w2(1) el2]) (simp_all add: loop_view_def)
    then have "\<forall>tk \<in> set (pendingFunctors el). settled tk (put_loop l (el2\<lparr>callingPendingFunctors := False\<rparr>) w2)"
      using a settled_stays by blast
    then show "runs (exits K interest) (\<lambda>w'. inv B {} w' \<and> threads w w' \<and> (\<forall>tk \<in> set (pendingFunctors el). settled tk w'))
        (with_loop l w2 (\<lambda>el2. Inr (put_loop l (el2\<lparr>callingPendingFunctors := False\<rparr>) w2)))"
      using el2 i3 threads_trans [OF w2(2)] by simp
  qed
  then show ?thesis using el by (simp add: doPendingFunctors_def Let_def)
qed

text \<open>One pass of a loop in its own thread.\<close>

lemma pass_keeps:
  assumes kernel: "server_kernel K interest opened" and inv: "inv B {} w" and th: "running l w" and B: "B l = []" and alloc: "allocates alloc"
  shows "runs (exits K interest) (\<lambda>w'. inv B {} w' \<and> threads w w' \<and> caught_up l w w')
    (loop_iter K (dispatch K CB alloc ia) alive (run_task K CB user) l w)"
proof -
  obtain el where el: "loops w l = Some el" using th by (auto simp: running_def)
  from net_poll [OF server_kernelD(1) [OF kernel] server_invD(1) [OF inv] el] obtain w1 p active now where w1: "loop_poll K l w = Inr w1"
    "net_wf interest opened w1"
    "loops w1 = (loops w)(l \<mapsto> el\<lparr>loop_poller := Some p, activeChannels := active, pollReturnTime := now\<rparr>)"
    "\<forall>i. \<exists>r. chans w1 i = map_option (set_revents r) (chans w i)"
    "\<forall>i \<in> set active. \<exists>ch. chans w i = Some ch \<and> ch_loop ch = l \<and> ch_index ch \<noteq> kNew"
    "same_rest w w1" by blast
  let ?el = "el\<lparr>loop_poller := Some p, activeChannels := active, pollReturnTime := now\<rparr>"
  have i1: "inv B {} w1 \<and> stable w w1"
    by (rule inv_frame [OF inv w1(2)])
      (use same_rest_objs [OF w1(6)] w1(3,4) el in \<open>auto simp: same_loops_def loop_view_def\<close>)
  have "chan_ready i w" if "i \<in> set active" for i using w1(5) registered_ready [OF inv th] that by blast
  then have rd: "\<forall>i \<in> set active. chan_ready i w1" using chan_ready_stable [OF _ conjunct2 [OF i1]] by blast
  have el1: "loops w1 l = Some ?el" using w1(3) by simp
  show ?thesis
    unfolding loop_iter_def w1(1) bind_r.simps with_loop_Some [OF el1]
  proof (rule runs_bind)
    show "keeps B w1 (fold_r (\<lambda>i. handleEvent (\<lambda>v. chans v i) alive (dispatch K CB alloc ia (pollReturnTime ?el)))
        (activeChannels ?el) w1)"
      by (rule events_keep [OF kernel alloc conjunct1 [OF i1]]) (use rd in simp)
    fix w2 assume w2: "inv B {} w2 \<and> stable w1 w2"
    have st2: "stable w w2" using i1 w2 stable_trans by blast
    have t2: "threads w w2" by (rule stable_threads [OF st2])
    obtain el2 where el2: "loops w2 l = Some el2" using stable_loopD [OF conjunct2 [OF w2]] el1 by fastforce
    obtain v where "server w = Some v" using server_invD(4) [OF inv] by (rule server_okE)
    from server_stays [OF inv conjunct1 [OF w2] threads_moved [OF t2] this] this
    have srv: "srv_loop (the (server w2)) = srv_loop (the (server w))" by auto
    show "runs (exits K interest) (\<lambda>w'. inv B {} w' \<and> threads w w' \<and> caught_up l w w') (doPendingFunctors (run_task K CB user) l w2)"
    proof (rule runs_mono [OF doPendingFunctors_keeps [OF kernel conjunct1 [OF w2] el2 B]])
      fix w3 assume w3: "inv B {} w3 \<and> threads w2 w3 \<and> (\<forall>tk \<in> set (pendingFunctors el2). settled tk w3)"
      have "caught_up l w w3"
        by (rule caught_upI [OF conjunct1 [OF w2] B el2 _ _ _ srv]) (use w3 t2 in \<open>auto simp: threads_def\<close>)
      then show "inv B {} w3 \<and> threads w w3 \<and> caught_up l w w3" using w3 threads_trans [OF t2] by blast
    qed
  qed
qed

end

end
