(* ===== verification/EchoServer.thy ===== *)
theory EchoServer
  imports TcpServer
begin

text \<open>
  \<^verbatim>\<open>example/test_server.cc\<close>: the echo server built on the library. \<^verbatim>\<open>onMessage\<close> takes everything that was
  received, sends it back and shuts the connection down. The local \<^verbatim>\<open>std::string\<close> is a string object that
  exists for the duration of the call; its identity \<open>s\<close> is an argument.
\<close>

definition onConnection :: "conn_id \<Rightarrow> ('k, 'm) sworld_scheme \<Rightarrow> ('k, 'm) sworld_scheme res" where
  "onConnection c w = with_conn c w (\<lambda>t. bind_r (toIpPort (peerAddr t)) (\<lambda>_. Inr w))"

definition onMessage :: "'k kernel \<Rightarrow> str_id \<Rightarrow> conn_id \<Rightarrow> ('k, 'm) sworld_scheme \<Rightarrow> ('k, 'm) sworld_scheme res" where
  "onMessage K s c w = with_conn c w (\<lambda>t.
     bind_r (retrieveAllAsString (inputBuffer t)) (\<lambda>(msg, b).
       let w1 = (put_conn c (t\<lparr>inputBuffer := b\<rparr>) w)\<lparr>strings := (strings w)(s \<mapsto> msg)\<rparr>
       in bind_r (TcpConnection_send K c s w1) (\<lambda>w2.
          bind_r (TcpConnection_shutdown K c w2) (\<lambda>w3.
            Inr (w3\<lparr>strings := (strings w3)(s := None)\<rparr>)))))"

text \<open>The two callbacks the server object is given; the other kinds are never set.\<close>

definition onConnection_ref :: cb_ref where "onConnection_ref = 1"
definition onMessage_ref :: cb_ref where "onMessage_ref = 2"

definition echo_callbacks :: "'k kernel \<Rightarrow> (('k, 'm) sworld_scheme \<Rightarrow> str_id) \<Rightarrow> ('k, 'm) sworld_scheme callbacks" where
  "echo_callbacks K fresh =
     \<lparr>call_connection = (\<lambda>_ c. onConnection c), call_close = (\<lambda>_ _ _. Inl Bad_Function_Call),
      call_writeComplete = (\<lambda>_ _ _. Inl Bad_Function_Call),
      call_message = (\<lambda>_ c tm w. onMessage K (fresh w) c w), call_highWater = (\<lambda>_ _ _ _. Inl Bad_Function_Call)\<rparr>"

definition mk_EchoServer :: "'k kernel \<Rightarrow> loop_id \<Rightarrow> InetAddress \<Rightarrow> string \<Rightarrow> chan_id \<Rightarrow> c_int \<Rightarrow>
    ('k, 'm) sworld_scheme \<Rightarrow> ('k, 'm) sworld_scheme res" where
  "mk_EchoServer K l addr name ch started0 w =
     bind_r (mk_TcpServer K (Some l) addr name False ch started0 w) (\<lambda>w1.
     with_server w1 (\<lambda>v.
       TcpServer_setThreadNum K 3
         (put_server (srv_setMessageCallback onMessage_ref (srv_setConnectionCallback onConnection_ref v)) w1)))"

text \<open>
  \<^verbatim>\<open>main()\<close>: the loop, the address, the server and \<^verbatim>\<open>start()\<close>; then \<^verbatim>\<open>loop()\<close>, where \<open>None\<close> is a loop that
  runs for ever.
\<close>

definition echo_addr :: "(string \<Rightarrow> 32 word) \<Rightarrow> InetAddress" where
  "echo_addr inet_addr = mk_InetAddress inet_addr 8000 ''127.0.0.1''"

definition echo_start :: "'k kernel \<Rightarrow> bool \<Rightarrow> (string \<Rightarrow> 32 word) \<Rightarrow> (nat \<Rightarrow> thread_ids) \<Rightarrow> c_int \<Rightarrow>
    ('k, 'm) sworld_scheme \<Rightarrow> ('k, 'm) sworld_scheme res" where
  "echo_start K use_poll inet_addr ids started0 w =
     bind_r (mk_EventLoop K use_poll 0 0 w) (\<lambda>w1.
     bind_r (mk_EchoServer K 0 (echo_addr inet_addr) ''EchoServer-01'' 1 started0 w1) (TcpServer_start K use_poll ids))"

definition echo_main :: "'k kernel \<Rightarrow> bool \<Rightarrow> (string \<Rightarrow> 32 word) \<Rightarrow> (nat \<Rightarrow> thread_ids) \<Rightarrow> c_int \<Rightarrow>
    (('k, 'm) sworld_scheme \<Rightarrow> conn_id \<times> chan_id) \<Rightarrow> (('k, 'm) sworld_scheme \<Rightarrow> str_id) \<Rightarrow>
    (nat \<Rightarrow> ('k, 'm) sworld_scheme \<Rightarrow> ('k, 'm) sworld_scheme res) \<Rightarrow>
    ('k, 'm) sworld_scheme \<Rightarrow> ('k, 'm) sworld_scheme res option" where
  "echo_main K use_poll inet_addr ids started0 alloc fresh user w =
     (case echo_start K use_poll inet_addr ids started0 w of
        Inl e \<Rightarrow> Some (Inl e)
      | Inr w2 \<Rightarrow> server_loop K (echo_callbacks K fresh) user alloc inet_addr 0 w2)"

section \<open>Property\<close>

lemma onMessage_view:
  assumes K: "kernel_ok K interest sent" and v: "conn_view interest c t ch el w"
    and st: "conn_state t = KConnected" and th: "isInLoopThread el w"
    and idle: "content (outputBuffer t) = []" "\<not> isWriting ch" and reg: "ch_index ch = kNew \<or> ch_events ch \<noteq> 0"
    and len: "length (content (inputBuffer t)) + length (buf_data (outputBuffer t)) < 2 ^ 62"
    and nf: "\<not> send_faults K ch t (content (inputBuffer t)) (os (wsys w))"
  shows "\<exists>w' t' ch' el' fin. onMessage K s c w = Inr w' \<and> conn_view interest c t' ch' el' w' \<and>
     conn_state t' = KDisconnecting \<and> content (inputBuffer t') = [] \<and>
     content (outputBuffer t') =
       drop (accepted K ch t (content (inputBuffer t)) (os (wsys w))) (content (inputBuffer t)) \<and>
     (content (outputBuffer t') \<noteq> [] \<longrightarrow> isWriting ch') \<and>
     sent (ch_fd ch) (os (wsys w')) = sent (ch_fd ch) (os (wsys w)) @
       map Byte (take (accepted K ch t (content (inputBuffer t)) (os (wsys w))) (content (inputBuffer t))) @ fin \<and>
     (accepted K ch t (content (inputBuffer t)) (os (wsys w)) < length (content (inputBuffer t)) \<longrightarrow> fin = []) \<and>
     (length (content (inputBuffer t)) \<le> accepted K ch t (content (inputBuffer t)) (os (wsys w)) \<and>
        (\<forall>k. 0 \<le> fst (fst (sys_shutdown_wr K (ch_fd ch) k))) \<longrightarrow> fin = [Fin]) \<and>
     conn_channel t' = conn_channel t \<and> conn_loop t' = conn_loop t \<and> ch_revents ch' = ch_revents ch \<and>
     pendingFunctors el' = pendingFunctors el @
       (if send_completes K ch t (content (inputBuffer t)) (os (wsys w)) then written_tasks c t else []) @
       buffered_tasks c t (length (content (inputBuffer t)) - accepted K ch t (content (inputBuffer t)) (os (wsys w)))"
proof -
  let ?msg = "content (inputBuffer t)" and ?b = "retrieveAll (inputBuffer t)"
  let ?t1 = "t\<lparr>inputBuffer := ?b\<rparr>"
  let ?w1 = "(put_conn c ?t1 w)\<lparr>strings := (strings w)(s \<mapsto> ?msg)\<rparr>"
  have ok: "buffer_ok (inputBuffer t)" "buffer_ok (outputBuffer t)" "readerIndex (outputBuffer t) = KCheapPrend"
    and t: "conns w c = Some t"
    using v idle(1) by (simp_all add: conn_view_def)
  have v1: "conn_view interest c ?t1 ch el ?w1"
    using ok buffer_ok_retrieveAll [OF ok(1)] by (intro strings_view put_conn_view [OF v]) simp_all
  have acc: "accepted K ch ?t1 bs k = accepted K ch t bs k" "send_faults K ch ?t1 bs k = send_faults K ch t bs k" for bs k
    by (simp_all add: accepted_def send_faults_def direct_write_def)
  have tasks: "send_completes K ch ?t1 bs k = send_completes K ch t bs k" "written_tasks c ?t1 = written_tasks c t"
      "buffered_tasks c ?t1 n = buffered_tasks c t n" for bs k n
    by (simp_all add: send_completes_def direct_write_def written_tasks_def buffered_tasks_def high_water_tasks_def
        Let_def split: option.split)
  have app: "appendable (length ?msg) (outputBuffer ?t1)"
    using appendable_at_front [OF ok(2,3)] len by simp
  have os: "os (wsys ?w1) = os (wsys w)" and out: "content (outputBuffer ?t1) = []" using idle(1) by simp_all
  have pre: "conn_state ?t1 \<noteq> KDisconnected" "strings ?w1 s = Some ?msg"
      "length ?msg + length (buf_data (outputBuffer ?t1)) < 2 ^ 62" "\<not> send_faults K ch ?t1 ?msg (os (wsys ?w1))"
    using st len nf unfolding os acc by simp_all
  obtain w2 b2 ch2 el2 where w2: "sendInLoop K c s (of_nat (length ?msg)) ?w1 = Inr w2"
      "conn_view interest c (?t1\<lparr>outputBuffer := b2\<rparr>) ch2 el2 w2"
      "sent (ch_fd ch) (os (wsys w2)) =
         sent (ch_fd ch) (os (wsys w)) @ map Byte (take (accepted K ch t ?msg (os (wsys w))) ?msg)"
      "content b2 = drop (accepted K ch t ?msg (os (wsys w))) ?msg"
      "content b2 \<noteq> [] \<longrightarrow> isWriting ch2"
      "isWriting ch2 \<longleftrightarrow> isWriting ch \<or> accepted K ch t ?msg (os (wsys w)) < length ?msg" "isInLoopThread el2 w2 = isInLoopThread el ?w1"
      "ch_revents ch2 = ch_revents ch" "pendingFunctors el2 = pendingFunctors el @
         (if send_completes K ch t ?msg (os (wsys w)) then written_tasks c t else []) @
         buffered_tasks c t (length ?msg - accepted K ch t ?msg (os (wsys w)))"
    using sendInLoop_view [OF K v1 pre(1,2,3) app reg _ pre(4)] out
    unfolding os acc tasks out append_Nil by blast
  let ?t2 = "?t1\<lparr>outputBuffer := b2\<rparr>"
  let ?t3 = "set_conn_state KDisconnecting ?t2"
  have send: "TcpConnection_send K c s ?w1 = Inr w2"
    using v1 st th w2(1) by (simp add: TcpConnection_send_def conn_view_def string_size_def)
  have th2: "isInLoopThread el2 w2" using w2(7) th by simp
  have v3: "conn_view interest c ?t3 ch2 el2 (put_conn c ?t3 w2)"
    using w2(2) by (intro put_conn_view [OF w2(2)]) (auto simp: conn_view_def)
  obtain w3 where w3: "shutdownInLoop K c (put_conn c ?t3 w2) = Inr w3" "conn_view interest c ?t3 ch2 el2 w3"
      "sent (ch_fd ch2) (os (wsys w3)) = sent (ch_fd ch2) (os (wsys (put_conn c ?t3 w2))) @
         (if \<not> isWriting ch2 \<and> 0 \<le> fst (fst (sys_shutdown_wr K (ch_fd ch2) (os (wsys (put_conn c ?t3 w2))))) then [Fin] else [])"
    using shutdownInLoop_view [OF K v3] by blast
  have fd: "ch_fd ch2 = ch_fd ch" using w2(2) v by (simp add: conn_view_def)
  have down: "TcpConnection_shutdown K c w2 = Inr w3"
    using w2(2) st th2 w3(1) by (simp add: TcpConnection_shutdown_def runInLoop_def conn_view_def)
  let ?w4 = "w3\<lparr>strings := (strings w3)(s := None)\<rparr>"
  have "onMessage K s c w = Inr ?w4"
    using t retrieveAllAsString_ok [OF ok(1)] send down by (simp add: onMessage_def)
  moreover have "conn_view interest c ?t3 ch2 el2 ?w4" by (rule strings_view [OF w3(2)])
  ultimately show ?thesis using w3(3) w2(3-6,8,9) idle(2) unfolding fd
    by (intro exI [of _ ?w4] exI [of _ ?t3] exI [of _ ch2] exI [of _ el2]) auto
qed

text \<open>
  Echo: on an open connection with nothing left to write, called in the loop's thread, \<^verbatim>\<open>onMessage\<close> returns
  with the input consumed and the connection \<^verbatim>\<open>kDisconnecting\<close>; the stream has grown by the part of the
  message the kernel took, the rest of the message is in the output buffer with write interest, and the
  stream is ended at once if and only if the whole message was taken (and the kernel accepts the
  shutdown). The functors queued are exactly the notifications owed, and the events being handled
  stay as they are.
\<close>

lemma onMessage_echoes:
  assumes K: "kernel_ok K interest sent" and v: "conn_view interest c t ch el w"
    and st: "conn_state t = KConnected" and th: "isInLoopThread el w"
    and idle: "content (outputBuffer t) = []" "\<not> isWriting ch" and reg: "ch_index ch = kNew \<or> ch_events ch \<noteq> 0"
    and len: "length (content (inputBuffer t)) + length (buf_data (outputBuffer t)) < 2 ^ 62"
    and nf: "\<not> send_faults K ch t (content (inputBuffer t)) (os (wsys w))"
  shows "\<exists>w' t' ch' el' fin. onMessage K s c w = Inr w' \<and> conn_view interest c t' ch' el' w' \<and>
     conn_state t' = KDisconnecting \<and> content (inputBuffer t') = [] \<and>
     content (outputBuffer t') =
       drop (accepted K ch t (content (inputBuffer t)) (os (wsys w))) (content (inputBuffer t)) \<and>
     (content (outputBuffer t') \<noteq> [] \<longrightarrow> isWriting ch') \<and>
     sent (ch_fd ch) (os (wsys w')) = sent (ch_fd ch) (os (wsys w)) @
       map Byte (take (accepted K ch t (content (inputBuffer t)) (os (wsys w))) (content (inputBuffer t))) @ fin \<and>
     (accepted K ch t (content (inputBuffer t)) (os (wsys w)) < length (content (inputBuffer t)) \<longrightarrow> fin = []) \<and>
     (length (content (inputBuffer t)) \<le> accepted K ch t (content (inputBuffer t)) (os (wsys w)) \<and>
        (\<forall>k. 0 \<le> fst (fst (sys_shutdown_wr K (ch_fd ch) k))) \<longrightarrow> fin = [Fin]) \<and>
     conn_channel t' = conn_channel t \<and> conn_loop t' = conn_loop t \<and> ch_revents ch' = ch_revents ch \<and>
     pendingFunctors el' = pendingFunctors el @
       (if send_completes K ch t (content (inputBuffer t)) (os (wsys w)) then written_tasks c t else []) @
       buffered_tasks c t (length (content (inputBuffer t)) - accepted K ch t (content (inputBuffer t)) (os (wsys w)))"
  using assms by (rule onMessage_view)

definition demo_echo_conn :: tcp_connection where
  "demo_echo_conn = (demo_conn KConnected [])\<lparr>inputBuffer := demo_buffer [7]\<rparr>"

lemma demo_echo_view:
  "conn_view sim_watch 0 demo_echo_conn (demo_chan kReadEvent) demo_cloop (put_conn 0 demo_echo_conn demo_sworld)"
proof -
  let ?t = "demo_conn KConnected []"
  have "length ([] :: byte list) < 100" by simp
  from demo_view [OF this, of KConnected kReadEvent 2]
  have "conn_view sim_watch 0 ?t (demo_chan kReadEvent) demo_cloop demo_sworld"
    using demo_sworld_ok by (simp add: conn_view_def demo_sworld_fields demo_conn_def)
  then show ?thesis by (rule put_conn_view) (simp_all add: demo_echo_conn_def demo_conn_def)
qed

lemma onMessage_echoes_witness:
  "\<exists>w'. onMessage sim_kernel 1 0 (put_conn 0 demo_echo_conn demo_sworld) = Inr w' \<and>
     sim_out (os (wsys w')) 5 = [Byte 7, Fin]"
proof -
  let ?w = "put_conn 0 demo_echo_conn demo_sworld"
  have t: "conn_state demo_echo_conn = KConnected" "content (outputBuffer demo_echo_conn) = []"
      "content (inputBuffer demo_echo_conn) = [7]" "length (buf_data (outputBuffer demo_echo_conn)) = 16"
    by (simp_all add: demo_echo_conn_def demo_conn_def)
  have w: "isInLoopThread demo_cloop ?w" "\<not> isWriting (demo_chan kReadEvent)" "ch_fd (demo_chan kReadEvent) = 5"
      "sim_out (os (wsys ?w)) = (\<lambda>_. [])" "sim_room (os (wsys ?w)) = 2"
    using demo_send_ok(8,11) [OF refl]
    by (simp_all add: demo_sworld_fields demo_cloop_def demo_loop_def isInLoopThread_def tid_of_def cacheTid_def Let_def)
      (simp_all add: demo_cworld_def sim0_def)
  have nf: "\<not> send_faults sim_kernel (demo_chan kReadEvent) demo_echo_conn (content (inputBuffer demo_echo_conn)) (os (wsys ?w))"
      and acc: "accepted sim_kernel (demo_chan kReadEvent) demo_echo_conn [7] (os (wsys ?w)) = 1"
    using t w(2,5) by (simp_all add: send_faults_def accepted_def direct_write_def sim_kernel_def)
  have len: "length (content (inputBuffer demo_echo_conn)) + length (buf_data (outputBuffer demo_echo_conn)) < 2 ^ 62"
    using t by simp
  have sh: "\<forall>k. 0 \<le> fst (fst (sys_shutdown_wr sim_kernel 5 k))" by (simp add: sim_kernel_def)
  from onMessage_echoes [OF sim_kernel_ok demo_echo_view t(1) w(1) t(2) w(2) demo_registered len nf, of 1] sh
  show ?thesis unfolding t(3) acc w(3,4) by fastforce
qed

end
