(* ===== verification/EchoSafety.thy ===== *)
theory EchoSafety
  imports ServerSafety EchoServer
begin

text \<open>
  The example's callbacks are a user of the server: they keep the invariant in every state. One message
  is sent per connection, so the buffers of a connection stay within \<open>max_buffer\<close> bytes.
\<close>

section \<open>Sending the one message\<close>

text \<open>What \<^verbatim>\<open>send\<close> does to an idle connection; the rest of the program stays as it is.\<close>

definition sent_rest :: "(fd \<Rightarrow> 'k \<Rightarrow> interest_list) \<Rightarrow> ('k \<Rightarrow> fd set) \<Rightarrow> conn_id \<Rightarrow> tcp_connection \<Rightarrow> channel \<Rightarrow>
    ('k, 'm) sworld_scheme \<Rightarrow> ('k, 'm) sworld_scheme \<Rightarrow> bool" where
  "sent_rest interest opened c t ch w w' \<longleftrightarrow> net_wf interest opened w' \<and> same_loops w w' \<and> same_objs w w' \<and>
     (\<exists>b ch'. conns w' = (conns w)(c \<mapsto> t\<lparr>outputBuffer := b\<rparr>) \<and> chans w' = (chans w)(conn_channel t \<mapsto> ch') \<and>
        buffer_ok b \<and> readerIndex b = KCheapPrend \<and> length (buf_data b) \<le> max_buffer \<and>
        (content b \<noteq> [] \<longrightarrow> isWriting ch') \<and> (ch' = ch \<or> (\<exists>n. n \<noteq> kNew \<and> ch' = set_index n (request EnableWriting ch))))"

lemma sent_nothing:
  assumes "net_wf interest opened w'" and "conns w' = conns w" "chans w' = chans w" "loops w' = loops w" "same_objs w w'"
    and "conns w c = Some t" "chans w (conn_channel t) = Some ch" "buffers_good t" "content (outputBuffer t) = []"
  shows "sent_rest interest opened c t ch w w'"
  using assms unfolding sent_rest_def buffers_good_def
  by (intro conjI exI [of _ "outputBuffer t"] exI [of _ ch]) (simp_all add: same_loops_refl fun_upd_idem)

lemma buffer_rest_effect:
  assumes K: "net_kernel K interest opened" and wf: "net_wf interest opened w"
    and t: "conns w c = Some t" "chans w (conn_channel t) = Some ch" "buffers_good t" "callbacks_good t" "content (outputBuffer t) = []"
    and ch: "\<not> isWriting ch" "ch_index ch = kNew \<or> ch_events ch \<noteq> 0"
    and s: "strings w s = Some msg" "length msg + 8 \<le> max_buffer" "n \<le> length msg"
  shows "runs (exits K interest) (sent_rest interest opened c t ch w) (buffer_rest K c s (int n) (int (length msg - n)) fault w)"
proof (cases "\<not> fault \<and> n < length msg")
  case False
  then have "buffer_rest K c s (int n) (int (length msg - n)) fault w = Inr w" by (auto simp: buffer_rest_def)
  moreover have "sent_rest interest opened c t ch w w" by (rule sent_nothing [OF wf]) (use t in \<open>simp_all add: same_objs_def\<close>)
  ultimately show ?thesis by simp
next
  case True
  have B: "buffer_ok (outputBuffer t)" "length (buf_data (outputBuffer t)) \<le> max_buffer" "readerIndex (outputBuffer t) = KCheapPrend"
    using t(3,5) by (simp_all add: buffers_good_def)
  have "length (drop n msg) + 8 \<le> max_buffer" using s(2) by simp
  from append_front [OF B(1,3) t(5) B(2) this] obtain b where
    b: "append_buf (drop n msg) (outputBuffer t) = Inr b" "buffer_ok b" "content b = drop n msg" "readerIndex b = KCheapPrend"
      "length (buf_data b) \<le> max_buffer" by auto
  let ?w2 = "put_conn c (t\<lparr>outputBuffer := b\<rparr>) w"
  have nw: "net_wf interest opened ?w2" using wf by simp
  have ch2: "chans ?w2 (conn_channel t) = Some ch" using t(2) by simp
  have wr: "isWriting (set_index m (request EnableWriting ch))" for m by simp
  have hw: "notify_high_water K c t r w = Inr w" for r
    using t(4) by (simp add: notify_high_water_def callbacks_good_def Let_def)
  have rg: "string_range s (nat (int n)) (nat (int (length msg - n))) w = Inr (drop n msg)"
    using s(1,3) by (simp add: string_range_def)
  have base: "buffer_rest K c s (int n) (int (length msg - n)) fault w = Channel_request K EnableWriting (conn_channel t) ?w2"
    using True t(1) hw rg b(1) ch2 ch(1) by (simp add: buffer_rest_def Let_def)
  have pre: "ch_index ch = kNew \<or> ch_events ch \<noteq> 0 \<or> request_events EnableWriting (ch_events ch) = 0" using ch(2) by blast
  show ?thesis
  proof (rule request_effect [OF K nw ch2 pre])
    assume "Channel_request K EnableWriting (conn_channel t) ?w2 = Inl Exit_Fatal" "\<not> epoll_ctl_grants K interest"
    then show ?thesis using base by simp
  next
    fix w3 m assume w3: "Channel_request K EnableWriting (conn_channel t) ?w2 = Inr w3" "net_wf interest opened w3" "m \<noteq> kNew"
      "chans w3 = (chans ?w2)(conn_channel t \<mapsto> set_index m (request EnableWriting ch))" "same_loops ?w2 w3" "same_objs ?w2 w3"
      "conns w3 = conns ?w2"
    have "sent_rest interest opened c t ch w w3"
      unfolding sent_rest_def using w3(2-7) b wr
      by (intro conjI exI [of _ b] exI [of _ "set_index m (request EnableWriting ch)"])
        (auto simp: same_loops_def same_objs_def)
    then show ?thesis using base w3(1) by simp
  qed
qed

lemma sent_rest_from:
  assumes "sent_rest interest opened c t ch w1 w'" and "conns w1 = conns w" "chans w1 = chans w" "loops w1 = loops w" "same_objs w w1"
  shows "sent_rest interest opened c t ch w w'"
  using assms unfolding sent_rest_def same_loops_def same_objs_def by simp

lemma send_effect:
  assumes K: "server_kernel K interest opened" and wf: "net_wf interest opened w"
    and t: "conns w c = Some t" "chans w (conn_channel t) = Some ch" "buffers_good t" "callbacks_good t" "content (outputBuffer t) = []"
    and st: "conn_state t \<noteq> KDisconnected"
    and ch: "\<not> isWriting ch" "ch_index ch = kNew \<or> ch_events ch \<noteq> 0"
    and s: "strings w s = Some msg" "length msg + 8 \<le> max_buffer"
  shows "runs (exits K interest) (sent_rest interest opened c t ch w) (sendInLoop K c s (of_nat (length msg)) w)"
proof -
  note N = server_kernelD(1) [OF K]
  let ?len = "of_nat (length msg) :: size_t"
  have len: "unat ?len = length msg" using s(2) by (simp add: size_simps max_buffer_def)
  have rb: "readableBytes (outputBuffer t) = 0"
    using t(3,5) length_content [of "outputBuffer t"] by (simp add: buffers_good_def unat_eq_0)
  have rg: "string_range s 0 (unat ?len) w = Inr msg" using s(1) len by (simp add: string_range_def)
  obtain n e k' where call: "sys_write K (ch_fd ch) msg (os (wsys w)) = ((n, e), k')" by (metis prod.exhaust)
  have q: "quiet interest opened (os (wsys w)) k'" using quietD(1) [OF N, of "os (wsys w)" "ch_fd ch" msg] call by simp
  let ?w1 = "put_sys ((wsys w)\<lparr>os := k'\<rparr>) w"
  have w1: "net_wf interest opened ?w1" by (rule net_put_sys [OF wf]) (simp add: q)
  have w2: "net_wf interest opened (log_err m ?w1)" for m using w1 by simp
  have sz: "sint ?len = int (length msg)"
    using s(2) by (intro sint_of_nat_size) (simp add: max_buffer_def)
  have base: "sendInLoop K c s ?len w =
     (if broken_pipe K n e then Inl Killed_SIGPIPE
      else if 0 \<le> n
      then (let remaining = sint (?len - word_of_int n)
            in bind_r (if remaining = 0 then notify_written K c t ?w1 else Inr ?w1) (buffer_rest K c s n remaining False))
      else if e \<noteq> EWOULDBLOCK
      then buffer_rest K c s 0 (sint ?len) (e = EPIPE \<or> e = ECONNRESET) (log_err ''TcpConnection::sendInLoop'' ?w1)
      else buffer_rest K c s 0 (sint ?len) False ?w1)"
    using t(1,2) st ch(1) rb rg call by (simp add: sendInLoop_def Let_def)
  have rest: "runs (exits K interest) (sent_rest interest opened c t ch w) (buffer_rest K c s (int m) (int (length msg - m)) fault u)"
    if u: "net_wf interest opened u" "conns u = conns w" "chans u = chans w" "loops u = loops w" "same_objs w u" "strings u = strings w"
      and m: "m \<le> length msg" for m fault u
  proof (rule runs_mono)
    show "runs (exits K interest) (sent_rest interest opened c t ch u) (buffer_rest K c s (int m) (int (length msg - m)) fault u)"
      by (rule buffer_rest_effect [OF N u(1) _ _ t(3-5) ch _ s(2) m]) (use t(1,2) s(1) u(2,3,6) in simp_all)
    show "sent_rest interest opened c t ch w w'" if "sent_rest interest opened c t ch u w'" for w'
      by (rule sent_rest_from [OF that u(2-5)])
  qed
  consider "broken_pipe K n e" | "\<not> broken_pipe K n e" "0 \<le> n"
    | "\<not> broken_pipe K n e" "n < 0" "e \<noteq> EWOULDBLOCK" | "\<not> broken_pipe K n e" "n < 0" "e = EWOULDBLOCK" by linarith
  then show ?thesis
  proof cases
    case 1
    then show ?thesis using base by (simp add: broken_pipe_def)
  next
    case 2
    have n: "nat n \<le> length msg" "int (nat n) = n"
      using server_kernelD(3) [OF K] call 2 unfolding write_contract_def by force+
    have "length msg < 2 ^ 62" using s(2) by (simp add: max_buffer_def)
    then have rem: "sint (?len - word_of_int n) = int (length msg - nat n)"
      using sint_diff_size [OF n(1)] n(2) by (metis of_int_of_nat_eq)
    have "notify_written K c t ?w1 = Inr ?w1" using t(4) by (simp add: notify_written_def callbacks_good_def)
    then have "sendInLoop K c s ?len w = buffer_rest K c s (int (nat n)) (int (length msg - nat n)) False ?w1"
      using base 2 rem n(2) by (simp add: Let_def)
    then show ?thesis using rest [of ?w1 "nat n" False] w1 n(1) by (simp add: same_objs_def)
  next
    case 3
    then have "sendInLoop K c s ?len w =
       buffer_rest K c s (int 0) (int (length msg - 0)) (e = EPIPE \<or> e = ECONNRESET) (log_err ''TcpConnection::sendInLoop'' ?w1)"
      using base sz by simp
    then show ?thesis
      using rest [of "log_err ''TcpConnection::sendInLoop'' ?w1" 0 "e = EPIPE \<or> e = ECONNRESET"] w2 by (simp add: same_objs_def)
  next
    case 4
    then have "sendInLoop K c s ?len w = buffer_rest K c s (int 0) (int (length msg - 0)) False ?w1" using base sz by simp
    then show ?thesis using rest [of ?w1 0 False] w1 by (simp add: same_objs_def)
  qed
qed

section \<open>The message callback\<close>

lemma inv_strings:
  assumes inv: "server_inv interest opened addr B X w"
  shows "server_inv interest opened addr B X (w\<lparr>strings := f\<rparr>) \<and> stable w (w\<lparr>strings := f\<rparr>)"
proof (rule inv_frame [OF inv])
  show "net_wf interest opened (w\<lparr>strings := f\<rparr>)"
    by (rule net_wf_cong [OF server_invD(1) [OF inv]]) (simp_all add: quiet_refl)
qed (auto intro!: revents_same same_loops_refl simp: same_objs_def)

lemma retrieveAll_fields:
  "readerIndex (retrieveAll b) = KCheapPrend" "buf_data (retrieveAll b) = buf_data b"
  by (simp_all add: retrieveAll_def)

lemma onMessage_keeps:
  assumes K: "server_kernel K interest opened" and inv: "server_inv interest opened addr B {c} w"
    and t: "conns w c = Some t" and th: "running (conn_loop t) w" and st: "conn_state t \<noteq> KConnecting"
  shows "runs (exits K interest) (\<lambda>w'. server_inv interest opened addr B {} w' \<and> stable w w') (onMessage K s c w)"
proof -
  note N = server_kernelD(1) [OF K]
  obtain ch where ch: "chans w (conn_channel t) = Some ch" and good: "conn_good {c} c t ch" using inv_connE [OF inv t] .
  then have G: "buffers_good t" "callbacks_good t" "state_good (conn_state t) t ch" by (simp_all add: conn_good_def)
  then have ok: "buffer_ok (inputBuffer t)" "readerIndex (inputBuffer t) = KCheapPrend"
    "length (buf_data (inputBuffer t)) \<le> max_buffer" by (simp_all add: buffers_good_def)
  let ?msg = "content (inputBuffer t)" and ?t = "t\<lparr>inputBuffer := retrieveAll (inputBuffer t)\<rparr>"
  have len: "length ?msg + 8 \<le> max_buffer"
    using ok unat_readableBytes [OF ok(1)] length_content [OF ok(1)] buffer_okD(1,2,3) [OF ok(1)] by simp
  have sg: "state_good (conn_state t) ?t ch" using G(3) by (cases "conn_state t") simp_all
  have good1: "conn_good {} c ?t ch"
    using good sg buffer_ok_retrieveAll [OF ok(1)] retrieveAll_fields
    by (simp add: conn_good_def conn_chan_def buffers_good_def callbacks_good_def)
  let ?w0 = "put_conn c ?t w" and ?w1 = "(put_conn c ?t w)\<lparr>strings := (strings w)(s \<mapsto> ?msg)\<rparr>"
  have i0: "server_inv interest opened addr B {} ?w0 \<and> stable w ?w0"
    by (rule inv_put_conn [OF inv t ch _ _ _ _ good1]) simp_all
  have i1: "server_inv interest opened addr B {} ?w1" "stable w ?w1"
    using inv_strings [OF conjunct1 [OF i0]] i0 stable_trans by blast+
  have eq: "onMessage K s c w =
      bind_r (TcpConnection_send K c s ?w1) (\<lambda>w2.
          bind_r (TcpConnection_shutdown K c w2) (\<lambda>w3. Inr (w3\<lparr>strings := (strings w3)(s := None)\<rparr>)))"
    using t retrieveAllAsString_ok [OF ok(1)] by (simp add: onMessage_def)
  show ?thesis
  proof (cases "conn_state t = KConnected")
    case False
    have "onMessage K s c w = Inr (?w1\<lparr>strings := (strings ?w1)(s := None)\<rparr>)"
      unfolding eq using False by (simp add: TcpConnection_send_def TcpConnection_shutdown_def with_conn_def)
    moreover have "server_inv interest opened addr B {} (?w1\<lparr>strings := (strings ?w1)(s := None)\<rparr>) \<and>
        stable w (?w1\<lparr>strings := (strings ?w1)(s := None)\<rparr>)"
      using inv_strings [OF i1(1)] i1(2) stable_trans by blast
    ultimately show ?thesis by simp
  next
    case True
    have c1: "conns ?w1 c = Some ?t" "chans ?w1 (conn_channel ?t) = Some ch" "strings ?w1 s = Some ?msg" using ch by simp_all
    have ev: "kReadEvent \<noteq> 0" by (simp add: event_defs)
    have S: "ch_index ch \<noteq> kNew" "ch_events ch = kReadEvent" "ch_tied ch" "content (outputBuffer ?t) = []"
      using G(3) True by simp_all
    have nw: "\<not> isWriting ch" using S(2) by (simp add: isWriting_def event_defs)
    obtain el1 where el1: "loops ?w1 (conn_loop t) = Some el1" "isInLoopThread el1 ?w1"
      using stable_running [OF i1(2) th] unfolding running_def by blast
    have send: "TcpConnection_send K c s ?w1 = sendInLoop K c s (of_nat (length ?msg)) ?w1"
      using c1(1,3) True el1 by (simp add: TcpConnection_send_def with_conn_def string_size_def)
    have sent: "runs (exits K interest) (sent_rest interest opened c ?t ch ?w1) (TcpConnection_send K c s ?w1)"
      unfolding send using send_effect [OF K server_invD(1) [OF i1(1)] c1(1,2) _ _ S(4) _ nw _ c1(3) len] good1 True S(1,2) ev
      by (auto simp: conn_good_def)
    show ?thesis
      unfolding eq
    proof (rule runs_bind [OF sent])
    fix w2 assume w2: "sent_rest interest opened c ?t ch ?w1 w2"
    obtain b ch2 where b: "net_wf interest opened w2" "same_loops ?w1 w2" "same_objs ?w1 w2"
      "conns w2 = (conns ?w1)(c \<mapsto> ?t\<lparr>outputBuffer := b\<rparr>)" "chans w2 = (chans ?w1)(conn_channel t \<mapsto> ch2)"
      "buffer_ok b" "readerIndex b = KCheapPrend" "length (buf_data b) \<le> max_buffer" "content b \<noteq> [] \<longrightarrow> isWriting ch2"
      "ch2 = ch \<or> (\<exists>n. n \<noteq> kNew \<and> ch2 = set_index n (request EnableWriting ch))"
      using w2 unfolding sent_rest_def by auto
    let ?t3 = "set_conn_state KDisconnecting (?t\<lparr>outputBuffer := b\<rparr>)"
    let ?w3 = "put_conn c ?t3 w2"
    have chf: "handlers ch2 = handlers ch" "ch_index ch2 \<noteq> kNew" "ch_events ch2 \<noteq> 0" "ch_tied ch2" "conn_chan c ?t3 ch2"
      using b(10) S(1-3) good by (auto simp: handlers_def conn_good_def conn_chan_def set_conn_state_def event_defs)
    have good3: "conn_good {} c ?t3 ch2"
      using chf b(6-9) good1 by (simp add: conn_good_def buffers_good_def callbacks_good_def set_conn_state_def)
    have "server_inv interest opened addr B {} ?w3 \<and> stable ?w1 ?w3"
    proof (rule inv_conn_step [OF i1(1) c1(1,2) _ _ _ _ _ _ _ _ chf(1) good3])
      show "net_wf interest opened ?w3" using b(1) by simp
      show "conns ?w3 = (conns ?w1)(c \<mapsto> ?t3)" using b(4) by simp
      show "chans ?w3 = (chans ?w1)(conn_channel ?t \<mapsto> ch2)" using b(5) by simp
      show "same_loops ?w1 ?w3" using b(2) by (simp add: same_loops_def)
      show "same_objs ?w1 ?w3" using b(3) by (simp add: same_objs_def)
      show "conn_state ?t3 = conn_state ?t \<and> (ch_index ch = kNew \<longrightarrow> ch_index ch2 = kNew) \<or>
          conn_state ?t = KConnected \<and> conn_state ?t3 = KDisconnecting"
        using True by (simp add: set_conn_state_def)
    qed (use chf S(1) in \<open>simp_all add: set_conn_state_def\<close>)
    then have i3: "server_inv interest opened addr B {} ?w3" "stable w ?w3" using i1(2) stable_trans by blast+
    obtain w4 where w4: "shutdownInLoop K c ?w3 = Inr w4" "server_inv interest opened addr B {} w4" "stable ?w3 w4"
      using shutdownInLoop_safe [OF N i3(1), of c ?t3] by auto
    obtain el3 where el3: "loops ?w3 (conn_loop t) = Some el3" "isInLoopThread el3 ?w3"
      using stable_running [OF i3(2) th] unfolding running_def by blast
    have "conns w2 c = Some (?t\<lparr>outputBuffer := b\<rparr>)" using b(4) by simp
    then have "TcpConnection_shutdown K c w2 = Inr w4"
      using True el3 w4(1) by (simp add: TcpConnection_shutdown_def with_conn_def runInLoop_def)
    moreover have "server_inv interest opened addr B {} (w4\<lparr>strings := (strings w4)(s := None)\<rparr>) \<and>
        stable w (w4\<lparr>strings := (strings w4)(s := None)\<rparr>)"
      using inv_strings [OF w4(2)] i3(2) w4(3) stable_trans by blast
    ultimately show "runs (exits K interest) (\<lambda>w'. server_inv interest opened addr B {} w' \<and> stable w w')
        (bind_r (TcpConnection_shutdown K c w2) (\<lambda>w3. Inr (w3\<lparr>strings := (strings w3)(s := None)\<rparr>)))" by simp
    qed
  qed
qed

text \<open>The example is a user of the server, on every kernel.\<close>

interpretation echo: server_user K interest opened addr "echo_callbacks K fresh"
  for K :: "'k kernel" and interest opened addr and fresh :: "('k, 'm) sworld_scheme \<Rightarrow> str_id"
proof
  fix B c t cb and w :: "('k, 'm) sworld_scheme"
  assume "server_inv interest opened addr B {} w" "conns w c = Some t"
  then show "runs (exits K interest) (\<lambda>w'. server_inv interest opened addr B {} w' \<and> stable w w') (call_connection (echo_callbacks K fresh) cb c w)"
    by (simp add: echo_callbacks_def onConnection_def toIpPort_eq)
next
  fix B c t cb tm and w :: "('k, 'm) sworld_scheme"
  assume a: "server_kernel K interest opened" "server_inv interest opened addr B {c} w" "conns w c = Some t"
    "running (conn_loop t) w" "conn_state t \<noteq> KConnecting"
  from onMessage_keeps [OF a, of "fresh w"]
  show "runs (exits K interest) (\<lambda>w'. server_inv interest opened addr B {} w' \<and> stable w w') (call_message (echo_callbacks K fresh) cb c tm w)"
    by (auto simp: echo_callbacks_def)
qed

end
