(* ===== verification/EchoPass.thy ===== *)
theory EchoPass
  imports EchoServer LoopPass
begin

text \<open>
  The example server end to end: one pass of a loop in which a connection becomes readable goes through
  the poller, the channel, \<^verbatim>\<open>handleRead\<close>, the example's \<^verbatim>\<open>onMessage\<close>, \<^verbatim>\<open>send\<close> and \<^verbatim>\<open>shutdown\<close>.
\<close>

lemma no_functors:
  assumes "conn_view interest c t ch el w" and "pendingFunctors el = []"
  shows "\<exists>w' el'. doPendingFunctors run (conn_loop t) w = Inr w' \<and> conn_view interest c t ch el' w' \<and>
     pendingFunctors el' = [] \<and> \<not> callingPendingFunctors el' \<and> os (wsys w') = os (wsys w)"
proof -
  let ?el1 = "el\<lparr>callingPendingFunctors := True, pendingFunctors := []\<rparr>"
  let ?w1 = "put_loop (conn_loop t) ?el1 w"
  let ?el2 = "?el1\<lparr>callingPendingFunctors := False\<rparr>"
  have v1: "conn_view interest c t ch ?el1 ?w1" by (rule put_loop_view [OF assms(1)]) simp_all
  have v2: "conn_view interest c t ch ?el2 (put_loop (conn_loop t) ?el2 ?w1)" by (rule put_loop_view [OF v1]) simp_all
  have "doPendingFunctors run (conn_loop t) w = Inr (put_loop (conn_loop t) ?el2 ?w1)"
    using assms by (simp add: doPendingFunctors_def conn_view_def)
  with v2 show ?thesis by (intro exI [of _ "put_loop (conn_loop t) ?el2 ?w1"] exI [of _ ?el2]) simp
qed

text \<open>The connection as the echo server makes it: no notifications, and the message callback set.\<close>

definition plain_conn :: "tcp_connection \<Rightarrow> bool" where
  "plain_conn t \<longleftrightarrow> messageCallback t \<noteq> None \<and> writeCompleteCallback t = None \<and> highWaterMarkCallback t = None"

lemma plain_no_tasks: "plain_conn t \<Longrightarrow> written_tasks c t = []" "plain_conn t \<Longrightarrow> buffered_tasks c t n = []"
  by (simp_all add: plain_conn_def written_tasks_def buffered_tasks_def high_water_tasks_def Let_def)

section \<open>Property\<close>

text \<open>
  The echo server echoes: a pass of the loop in which an idle open connection becomes readable returns, and
  of the bytes the read delivered the part the kernel took is on the stream, in order, the rest is
  in the output buffer with write interest; the connection is \<^verbatim>\<open>kDisconnecting\<close> and its stream is ended
  at once if and only if everything was taken (and the kernel accepts the shutdown). No functor is left.
\<close>

lemma echo_pass:
  assumes K: "kernel_ok K interest sent" "readv_contract K" "epoll_wait_contract K"
    and v: "conn_view interest c t ch el w" and th: "isInLoopThread el w" and pend: "pendingFunctors el = []"
    and tied: "ch_tied ch" "ch_tie ch = Some c" "readCallback ch = Some (ConnHandleRead c)"
    and st: "conn_state t = KConnected" "plain_conn t" "isReading ch" "\<not> isWriting ch"
    and idle: "content (outputBuffer t) = []" "content (inputBuffer t) = []" "readerIndex (inputBuffer t) = KCheapPrend"
    and p: "loop_poller el = Some p" and wait: "reports K p (conn_channel t) EPOLLIN (os (wsys w)) k1"
    and got: "sys_readv K (ch_fd ch) (input_iov t) k1 = ((n, e, bs), k2)" "0 < n"
    and len: "length bs + length (buf_data (outputBuffer t)) < 2 ^ 62" "length (buf_data (inputBuffer t)) + length bs < 2 ^ 62"
    and nf: "\<not> send_faults K ch t bs k2"
  shows "\<exists>w' t' ch' el' fin.
     loop_iter K (dispatch K (server_callbacks K (echo_callbacks K fresh)) alloc ia) conn_alive
       (run_task K (server_callbacks K (echo_callbacks K fresh)) user) (conn_loop t) w = Inr w' \<and>
     conn_view interest c t' ch' el' w' \<and> conn_state t' = KDisconnecting \<and> pendingFunctors el' = [] \<and>
     content (outputBuffer t') = drop (accepted K ch t bs k2) bs \<and>
     (content (outputBuffer t') \<noteq> [] \<longrightarrow> isWriting ch') \<and>
     sent (ch_fd ch) (os (wsys w')) =
       sent (ch_fd ch) (os (wsys w)) @ map Byte (take (accepted K ch t bs k2) bs) @ fin \<and>
     (accepted K ch t bs k2 < length bs \<longrightarrow> fin = []) \<and>
     (length bs \<le> accepted K ch t bs k2 \<and> (\<forall>k. 0 \<le> fst (fst (sys_shutdown_wr K (ch_fd ch) k))) \<longrightarrow> fin = [Fin])"
proof -
  let ?CB = "server_callbacks K (echo_callbacks K fresh)" and ?ch = "set_revents EPOLLIN ch"
  obtain w1 p1 now where w1: "loop_poll K (conn_loop t) w = Inr w1"
      "conn_view interest c t ?ch
         (el\<lparr>loop_poller := Some p1, activeChannels := [conn_channel t], pollReturnTime := now\<rparr>) w1"
      "cur_thread w1 = cur_thread w" "cachedTid w1 = cachedTid w" "os (wsys w1) = k1"
      "sent (ch_fd ch) k1 = sent (ch_fd ch) (os (wsys w))"
    using poll_view [OF K(1,3) v p wait, of "ch_fd ch"] by blast
  let ?el1 = "el\<lparr>loop_poller := Some p1, activeChannels := [conn_channel t], pollReturnTime := now\<rparr>"
  have chf: "ch_fd ?ch = ch_fd ch" "isWriting ?ch = isWriting ch" "isReading ?ch = isReading ch"
      "ch_events ?ch = ch_events ch" "ch_revents ?ch = EPOLLIN"
    by (simp_all add: set_revents_def isWriting_def isReading_def)
  have got1: "sys_readv K (ch_fd ?ch) (input_iov t) (os (wsys w1)) = ((n, e, bs), k2)"
    using got(1) w1(5) chf(1) by simp
  obtain w2 b where w2: "w2 = put_conn c (t\<lparr>inputBuffer := b\<rparr>) (put_sys ((wsys w1)\<lparr>os := k2\<rparr>) w1)"
      "conn_view interest c (t\<lparr>inputBuffer := b\<rparr>) ?ch ?el1 w2" "content b = bs"
      "conn_handleRead K ?CB now c w1 = invoke (messageCallback t) (\<lambda>cb. call_message ?CB cb c now w2)"
    using handleRead_view [OF K(1,2) w1(2) idle(3) len(2) got1, of ?CB now] idle(2) got(2) by auto
  let ?t2 = "t\<lparr>inputBuffer := b\<rparr>"
  have os2: "os (wsys w2) = k2" unfolding w2(1) by simp
  have eqs: "accepted K ?ch ?t2 bs k2 = accepted K ch t bs k2" "send_faults K ?ch ?t2 bs k2 = send_faults K ch t bs k2"
    using chf by (simp_all add: accepted_def send_faults_def direct_write_def)
  have th2: "isInLoopThread ?el1 w2"
    using th isInLoopThread_cong [of ?el1 el w2 w] w1(3,4) unfolding w2(1) by simp
  have plain: "plain_conn ?t2" using st(2) by (simp add: plain_conn_def)
  have pre: "conn_state ?t2 = KConnected" "content (outputBuffer ?t2) = []" "\<not> isWriting ?ch"
      "ch_index ?ch = kNew \<or> ch_events ?ch \<noteq> 0" "content (inputBuffer ?t2) = bs"
      "length (content (inputBuffer ?t2)) + length (buf_data (outputBuffer ?t2)) < 2 ^ 62"
      "\<not> send_faults K ?ch ?t2 (content (inputBuffer ?t2)) (os (wsys w2))"
    using st idle(1) chf len(1) nf w2(3) by (simp_all add: os2 eqs isReading_def) auto
  obtain w3 t3 ch3 el3 fin where w3: "onMessage K (fresh w2) c w2 = Inr w3" "conn_view interest c t3 ch3 el3 w3"
      "conn_state t3 = KDisconnecting" "content (outputBuffer t3) = drop (accepted K ch t bs k2) bs"
      "content (outputBuffer t3) \<noteq> [] \<longrightarrow> isWriting ch3"
      "sent (ch_fd ch) (os (wsys w3)) = sent (ch_fd ch) k2 @ map Byte (take (accepted K ch t bs k2) bs) @ fin"
      "accepted K ch t bs k2 < length bs \<longrightarrow> fin = []"
      "length bs \<le> accepted K ch t bs k2 \<and> (\<forall>k. 0 \<le> fst (fst (sys_shutdown_wr K (ch_fd ch) k))) \<longrightarrow> fin = [Fin]"
      "ch_revents ch3 = EPOLLIN" "pendingFunctors el3 = []" "conn_channel t3 = conn_channel t" "conn_loop t3 = conn_loop t"
    using onMessage_view [OF K(1) w2(2) pre(1) th2 pre(2,3,4,6,7), of "fresh w2"] plain_no_tasks [OF plain] pend
    unfolding os2 chf pre(5) eqs by force
  have chans: "chans w1 (conn_channel t) = Some ?ch" "chans w3 (conn_channel t) = Some ch3"
      "loops w1 (conn_loop t) = Some ?el1" "conns w1 c = Some t"
    using w1(2) w3(2,11) by (simp_all add: conn_view_def)
  obtain m where m: "messageCallback t = Some m" using st(2) by (auto simp: plain_conn_def)
  have read: "conn_handleRead K ?CB now c w1 = Inr w3"
    using w2(4) w3(1) m by (simp add: invoke_def server_callbacks_def echo_callbacks_def)
  have "handleEvent (\<lambda>u. chans u (conn_channel t)) conn_alive (dispatch K ?CB alloc ia now) w1 = Inr w3"
    using chans tied read w3(9)
    by (intro handleEvent_readable [of _ _ ?ch c _ "ConnHandleRead c" _ _ ch3])
      (simp_all add: set_revents_def conn_alive_def)
  then have iter: "loop_iter K (dispatch K ?CB alloc ia) conn_alive (run_task K ?CB user) (conn_loop t) w =
      doPendingFunctors (run_task K ?CB user) (conn_loop t) w3"
    by (intro loop_iter_one [OF w1(1) chans(3)]) simp_all
  from no_functors [OF w3(2,10), of "run_task K ?CB user"] obtain w4 el4 where w4:
    "doPendingFunctors (run_task K ?CB user) (conn_loop t) w3 = Inr w4" "conn_view interest c t3 ch3 el4 w4"
    "pendingFunctors el4 = []" "os (wsys w4) = os (wsys w3)" unfolding w3(12) by blast
  have "sent (ch_fd ch) k2 = sent (ch_fd ch) (os (wsys w))"
    using stream_otherD(2) [OF kernel_okD(4) [OF K(1)], of "ch_fd ch" "ch_fd ch" "input_iov t" k1] got(1) w1(6) by simp
  with iter w4 w3(3-8) show ?thesis by (intro exI [of _ w4] exI [of _ t3] exI [of _ ch3] exI [of _ el4] exI [of _ fin]) simp
qed

definition demo_plain :: tcp_connection where
  "demo_plain = setWriteCompleteCallback None (setHighWaterMark None 1 (demo_conn KConnected []))"

lemma demo_plain_facts:
  "demo_ready demo_plain" "conn_state demo_plain = KConnected" "plain_conn demo_plain"
  "content (outputBuffer demo_plain) = []" "content (inputBuffer demo_plain) = []"
  "length [7 :: byte] + length (buf_data (outputBuffer demo_plain)) < 2 ^ 62"
  "length (buf_data (inputBuffer demo_plain)) + length [7 :: byte] < 2 ^ 62" "conn_loop demo_plain = 0"
  by (simp_all add: demo_ready_def demo_plain_def setWriteCompleteCallback_def setHighWaterMark_def demo_conn_def
      plain_conn_def)

lemma echo_pass_witness:
  "\<exists>w'. loop_iter sim_kernel (dispatch sim_kernel (server_callbacks sim_kernel (echo_callbacks sim_kernel (\<lambda>_. 1)))
          (\<lambda>_. (1, 2)) (\<lambda>_. 0)) conn_alive
       (run_task sim_kernel (server_callbacks sim_kernel (echo_callbacks sim_kernel (\<lambda>_. 1))) (\<lambda>_. Inr)) 0
       (demo_ready_world demo_plain [7]) = Inr w' \<and> sim_out (os (wsys w')) 5 = [Byte 7, Fin]"
proof -
  let ?w = "demo_ready_world demo_plain [7]" and ?ch = "tie 0 (demo_chan kReadEvent)"
  let ?k2 = "(os (wsys ?w))\<lparr>sim_ready := [], sim_in := []\<rparr>"
  note d = demo_ready_facts [OF demo_plain_facts(1)] and q = demo_plain_facts
  have ch: "isReading ?ch" "\<not> isWriting ?ch" "ch_fd ?ch = 5"
    using demo_send_ok(8,11) [OF refl] by (simp_all add: demo_chan_def isReading_def isWriting_def tie_def event_defs)
  have out: "sim_out (os (wsys ?w)) 5 = []" "sim_room ?k2 = 2"
    using demo_send_ok(10) [OF refl] by (simp_all add: demo_ready_world_def demo_sworld_fields) (simp add: demo_cworld_def)
  have "input_iov demo_plain = [8, extrabuf_size]"
    using demo_plain_facts(1)
    by (simp add: input_iov_def Let_def demo_ready_def demo_buffer_def writableBytes_def vec_size_def KCheapPrend_def extrabuf_size_def)
  then have got: "sys_readv sim_kernel (ch_fd ?ch) (input_iov demo_plain) ((os (wsys ?w))\<lparr>sim_ready := []\<rparr>) = ((1, 0, [7]), ?k2)"
    using d(9) by (simp add: sim_kernel_def)
  have acc: "accepted sim_kernel ?ch demo_plain [7] ?k2 = 1" "\<not> send_faults sim_kernel ?ch demo_plain [7] ?k2"
    using ch(2) q(4) out(2) by (simp_all add: accepted_def send_faults_def direct_write_def sim_kernel_def)
  have shut: "\<forall>k. 0 \<le> fst (fst (sys_shutdown_wr sim_kernel 5 k))" by (simp add: sim_kernel_def)
  from echo_pass [OF sim_kernel_ok sim_readv_contract sim_epoll_wait_contract d(1-6) q(2,3) ch(1,2) q(4,5) d(7,10,11) got _
      q(6,7) acc(2), of "\<lambda>_. 1" "\<lambda>_. (1, 2)" "\<lambda>_. 0" "\<lambda>_. Inr"]
  show ?thesis unfolding acc(1) ch(3) out(1) q(8) using shut by auto
qed

end
