(* ===== verification/ServerConfig.thy ===== *)
theory ServerConfig
  imports TcpServer
begin

text \<open>
  Construction, configuration and destruction of the server: the well-formedness that the other
  operations rely on is established by the constructor and kept by \<^verbatim>\<open>setThreadNum\<close> and \<^verbatim>\<open>start\<close>; the destructor
  hands every connection to its own loop.
\<close>

section \<open>Well-formedness\<close>

lemma new_server_wf:
  assumes "threadPool v = mk_EventLoopThreadPool l name" and "toIpPort addr = Inr (ipPort v)"
    and "nextConnId v = 1" and "connections v = []"
  shows "server_wf addr v"
  using assms by (simp add: server_wf_def pool_ok_def mk_EventLoopThreadPool_def reg_wf_def)

lemma mk_TcpServer_wf:
  assumes mk: "mk_TcpServer K lo addr name reuse ch started0 w = Inr w'"
  shows "\<exists>v. server w' = Some v \<and> server_wf addr v \<and> connections v = [] \<and> nextConnId v = 1"
proof -
  from mk obtain l ip w1 a where w1: "toIpPort addr = Inr ip"
      "server w' = Some \<lparr>srv_connectionCallback = None, srv_messageCallback = None,
            srv_threadInitCallback = None, srv_writeCompleteCallback = None, srv_loop = l, ipPort = ip,
            srv_name = name, threadPool = mk_EventLoopThreadPool l name, srv_started = started0,
            nextConnId = 1, connections = []\<rparr>" (is "_ = Some ?v")
    by (auto simp: mk_TcpServer_def bind_r_Inr_iff setNewConnectionCallback_def with_acceptor_def put_server_def
        split: option.splits)
  have "server_wf addr ?v" by (rule new_server_wf) (simp_all add: w1(1))
  then show ?thesis using w1(2) by simp
qed

lemma setThreadNum_ok: "pool_ok p \<Longrightarrow> pool_ok (setThreadNum n p)"
  by (simp add: pool_ok_def setThreadNum_def)

lemma server_wf_pool: "server_wf addr v \<Longrightarrow> pool_ok p \<Longrightarrow> server_wf addr (v\<lparr>threadPool := p\<rparr>)"
proof -
  assume "server_wf addr v" "pool_ok p"
  moreover have "connName (v\<lparr>threadPool := p\<rparr>) = connName v" by (intro ext) (simp add: connName_def)
  ultimately show ?thesis by (simp add: server_wf_def)
qed

lemma server_wf_started: "server_wf addr (v\<lparr>srv_started := n\<rparr>) \<longleftrightarrow> server_wf addr v"
proof -
  have "connName (v\<lparr>srv_started := n\<rparr>) = connName v" by (intro ext) (simp add: connName_def)
  then show ?thesis by (simp add: server_wf_def)
qed

lemma Acceptor_listen_server: "Acceptor_listen K w = Inr w' \<Longrightarrow> server w' = server w"
  by (auto simp: Acceptor_listen_def with_acceptor_def bind_r_Inr_iff Let_def dest!: Channel_request_more more_server
      split: option.splits)

lemma queueInLoop_more: "queueInLoop K l t w = Inr w' \<Longrightarrow> world.more w' = world.more w"
  using queueInLoop_ok [of w l _ K t] by (cases "loops w l") (auto simp: queueInLoop_def with_loop_def)

lemma setThreadNum_server:
  assumes "TcpServer_setThreadNum K n w = Inr w'" and "server w = Some v"
  shows "server w' = Some (v\<lparr>threadPool := setThreadNum n (threadPool v)\<rparr>)"
  using assms
  by (auto simp: TcpServer_setThreadNum_def runInLoop_def with_loop_def dest!: Acceptor_listen_server queueInLoop_more
      more_server split: option.splits if_splits)

lemma pool_start_ok_inv:
  assumes "pool_start K up None ids (p, w) = Inr (p', w')" and "pool_ok p"
  shows "pool_ok p'"
proof -
  from assms(1) have run: "fold_r (start_thread K up None ids) [0..<nat (numThreads p)] (p\<lparr>pool_started := True\<rparr>, w) =
      Inr (p', w')"
    by (auto simp: pool_start_def bind_r_Inr_iff split: if_splits)
  have "pool_ok (fst (p', w'))"
  proof (rule fold_r_invariant [OF _ _ run])
    show "pool_ok (fst (p\<lparr>pool_started := True\<rparr>, w))" using assms(2) by (simp add: pool_ok_def)
    fix i s s'
    assume "pool_ok (fst s)" "start_thread K up None ids i s = Inr s'"
    then show "pool_ok (fst s')"
      by (auto simp: start_thread_def bind_r_Inr_iff pool_ok_def split: prod.splits if_splits)
  qed
  then show ?thesis by simp
qed

lemma start_server:
  assumes st: "TcpServer_start K up ids w = Inr w'" and v: "server w = Some v" "server_wf addr v"
  shows "\<exists>v'. server w' = Some v' \<and> server_wf addr v' \<and> connections v' = connections v"
proof (cases "srv_started v = 0")
  case False
  with st v show ?thesis by (auto simp: TcpServer_start_def Let_def server_wf_started)
next
  case True
  let ?v1 = "v\<lparr>srv_started := srv_started v + 1\<rparr>" and ?w1 = "put_server (v\<lparr>srv_started := srv_started v + 1\<rparr>) w"
  from st True v(1) obtain p w2 v2 where w2: "pool_start K up None ids (threadPool v, ?w1) = Inr (p, w2)"
      "server w2 = Some v2" "w' = put_server (v2\<lparr>threadPool := p\<rparr>) w2"
    by (auto simp: TcpServer_start_def Let_def bind_r_Inr_iff with_server_def split: option.splits)
  have "server w2 = Some ?v1" using more_server [OF pool_start_more [OF w2(1)]] by simp
  then have v2: "v2 = ?v1" using w2(2) by simp
  have "pool_ok p" using pool_start_ok_inv [OF w2(1)] v(2) by (simp add: server_wf_def)
  moreover have "server_wf addr ?v1" using v(2) by (simp only: server_wf_started)
  ultimately have "server_wf addr (?v1\<lparr>threadPool := p\<rparr>)" by (intro server_wf_pool)
  then show ?thesis unfolding w2(3) v2 by simp
qed

section \<open>Destruction\<close>

text \<open>The functors the destructor queues in a loop, in the order of the map.\<close>

definition destroyed_in :: "('k, 'm) sworld_scheme \<Rightarrow> loop_id \<Rightarrow> (string \<times> conn_id) list \<Rightarrow> task list" where
  "destroyed_in w l cs =
     map (\<lambda>(name, c). ConnectionDestroyed c) (filter (\<lambda>(name, c). map_option conn_loop (conns w c) = Some l) cs)"

text \<open>Every connection exists, with a loop that runs in another thread.\<close>

definition remote_conns :: "('k, 'm) sworld_scheme \<Rightarrow> (string \<times> conn_id) list \<Rightarrow> bool" where
  "remote_conns w cs \<longleftrightarrow> (\<forall>(name, c) \<in> set cs. \<exists>t el. conns w c = Some t \<and> loops w (conn_loop t) = Some el \<and>
     \<not> isInLoopThread el w)"

lemma destroy_remote:
  assumes "remote_conns w cs"
  shows "\<exists>w'. fold_r (\<lambda>(name, c) u. with_conn c u (\<lambda>t.
               runInLoop K (conn_loop t) (connectionDestroyed K CB c) (ConnectionDestroyed c) u)) cs w = Inr w' \<and>
     conns w' = conns w \<and> server w' = server w \<and>
     (\<forall>l. loops w' l = map_option (\<lambda>el. el\<lparr>pendingFunctors := pendingFunctors el @ destroyed_in w l cs\<rparr>) (loops w l))"
  using assms
proof (induction cs arbitrary: w)
  case Nil
  have "loops w l = map_option (\<lambda>el. el\<lparr>pendingFunctors := pendingFunctors el @ destroyed_in w l []\<rparr>) (loops w l)" for l
    by (cases "loops w l") (simp_all add: destroyed_in_def)
  then show ?case by simp
next
  case (Cons nc cs)
  obtain name c where nc: "nc = (name, c)" by fastforce
  from Cons.prems nc obtain t el where t: "conns w c = Some t" "loops w (conn_loop t) = Some el" "\<not> isInLoopThread el w"
    by (auto simp: remote_conns_def)
  let ?el = "el\<lparr>pendingFunctors := pendingFunctors el @ [ConnectionDestroyed c]\<rparr>"
  from queueInLoop_ok [OF t(2), of K "ConnectionDestroyed c"] obtain w1 where
    w1: "queueInLoop K (conn_loop t) (ConnectionDestroyed c) w = Inr w1" "loops w1 = (loops w)(conn_loop t \<mapsto> ?el)"
      "world.more w1 = world.more w" "cur_thread w1 = cur_thread w" "cachedTid w1 = cachedTid w" by blast
  have same: "conns w1 = conns w" "server w1 = server w"
    using more_conns(1) [OF w1(3)] more_server [OF w1(3)] by simp_all
  have th: "isInLoopThread e' w1 = isInLoopThread e w" if "threadId e' = threadId e" for e e'
    by (rule isInLoopThread_cong) (simp_all add: that w1(4,5))
  have "remote_conns w1 cs"
    unfolding remote_conns_def
  proof (clarify)
    fix name' d assume "(name', d) \<in> set cs"
    with Cons.prems obtain u e where u: "conns w d = Some u" "loops w (conn_loop u) = Some e" "\<not> isInLoopThread e w"
      by (auto simp: remote_conns_def)
    then show "\<exists>t el. conns w1 d = Some t \<and> loops w1 (conn_loop t) = Some el \<and> \<not> isInLoopThread el w1"
      using same(1) w1(2) th [of ?el el] th [of e e] t(3) by (cases "conn_loop u = conn_loop t") simp_all
  qed
  from Cons.IH [OF this] obtain w2 where w2:
    "fold_r (\<lambda>(name, c) u. with_conn c u (\<lambda>t.
        runInLoop K (conn_loop t) (connectionDestroyed K CB c) (ConnectionDestroyed c) u)) cs w1 = Inr w2"
    "conns w2 = conns w1" "server w2 = server w1"
    "\<And>l. loops w2 l = map_option (\<lambda>el. el\<lparr>pendingFunctors := pendingFunctors el @ destroyed_in w1 l cs\<rparr>) (loops w1 l)"
    by blast
  have "loops w2 l = map_option (\<lambda>el. el\<lparr>pendingFunctors := pendingFunctors el @ destroyed_in w l (nc # cs)\<rparr>) (loops w l)" for l
    using t w1(2) w2(4) [of l] same(1) nc by (auto simp: destroyed_in_def)
  then show ?case using w1(1) w2(1-3) same t nc by (simp add: runInLoop_def)
qed

section \<open>Properties\<close>

text \<open>
  C30. The server is well formed from construction on: a constructor that returns gives a well-formed server
  with no connections and the first id, and from a well-formed server \<^verbatim>\<open>setThreadNum\<close> and \<^verbatim>\<open>start\<close>, when they
  return, give a well-formed server with the same connections (the cursor of the pool always stays
  inside the vector of loops).
\<close>

theorem server_well_formed:
  shows "(mk_TcpServer K lo addr name reuse ch started0 w = Inr w' \<longrightarrow>
        (\<exists>v. server w' = Some v \<and> server_wf addr v \<and> connections v = [] \<and> nextConnId v = 1)) \<and>
     (server w = Some v \<and> server_wf addr v \<and>
        (TcpServer_setThreadNum K n w = Inr w' \<or> TcpServer_start K up ids w = Inr w') \<longrightarrow>
        (\<exists>v'. server w' = Some v' \<and> server_wf addr v' \<and> connections v' = connections v))"
proof (intro conjI impI)
  assume "mk_TcpServer K lo addr name reuse ch started0 w = Inr w'"
  then show "\<exists>v. server w' = Some v \<and> server_wf addr v \<and> connections v = [] \<and> nextConnId v = 1"
    by (rule mk_TcpServer_wf)
next
  assume A: "server w = Some v \<and> server_wf addr v \<and>
    (TcpServer_setThreadNum K n w = Inr w' \<or> TcpServer_start K up ids w = Inr w')"
  then have v: "server w = Some v" "server_wf addr v" by simp_all
  from A consider "TcpServer_setThreadNum K n w = Inr w'" | "TcpServer_start K up ids w = Inr w'" by blast
  then show "\<exists>v'. server w' = Some v' \<and> server_wf addr v' \<and> connections v' = connections v"
  proof cases
    case 1
    have "pool_ok (setThreadNum n (threadPool v))" using v(2) by (intro setThreadNum_ok) (simp add: server_wf_def)
    with setThreadNum_server [OF 1 v(1)] server_wf_pool [OF v(2)] show ?thesis by simp
  next
    case 2
    from start_server [OF 2 v] show ?thesis .
  qed
qed

theorem server_well_formed_witness:
  "\<exists>v'. server (put_server (demo_server\<lparr>srv_started := 2\<rparr>) demo_sworld) = Some v' \<and>
     server_wf (InetAddress_of zero_sockaddr) v' \<and> connections v' = []"
proof -
  let ?v = "demo_server\<lparr>srv_started := 1\<rparr>"
  have "TcpServer_start sim_kernel False demo_ids (put_server ?v demo_sworld) =
      Inr (put_server (demo_server\<lparr>srv_started := 2\<rparr>) (put_server ?v demo_sworld))"
    by (simp add: TcpServer_start_def Let_def)
  moreover have "server_wf (InetAddress_of zero_sockaddr) ?v" using demo_server_wf by (simp only: server_wf_started)
  moreover have "server (put_server ?v demo_sworld) = Some ?v" "connections ?v = []" by (simp_all add: demo_server_def)
  ultimately show ?thesis
    using server_well_formed [where w = "put_server ?v demo_sworld" and v = ?v and addr = "InetAddress_of zero_sockaddr"
        and K = sim_kernel and up = False and ids = demo_ids
        and w' = "put_server (demo_server\<lparr>srv_started := 2\<rparr>) (put_server ?v demo_sworld)"]
    by (simp add: put_server_def)
qed

text \<open>
  C31. The destructor hands every connection to its own loop: when the connections live in loops of other
  threads, its body returns, and each loop has got exactly the \<^verbatim>\<open>connectionDestroyed\<close> functors of its own
  connections, in the order of the map and behind what was pending; the connections themselves are
  not touched from the destructor's thread.
\<close>

theorem destructor_hands_over:
  assumes "server w = Some v" and "remote_conns w (connections v)"
  shows "\<exists>w'. destroy_connections K CB w = Inr w' \<and> conns w' = conns w \<and>
     (\<forall>l. loops w' l =
        map_option (\<lambda>el. el\<lparr>pendingFunctors := pendingFunctors el @ destroyed_in w l (connections v)\<rparr>) (loops w l))"
  using destroy_remote [OF assms(2), of K CB] assms(1) by (auto simp: destroy_connections_def)

definition demo_doomed :: "sim sworld" where
  "demo_doomed = (put_server (demo_server\<lparr>connections := [(''c'', 0)]\<rparr>) demo_sworld)\<lparr>cur_thread := 8\<rparr>"

theorem destructor_hands_over_witness:
  "\<exists>w'. destroy_connections sim_kernel quiet_callbacks demo_doomed = Inr w' \<and>
     map_option pendingFunctors (loops w' 0) = Some [ConnectionDestroyed 0]"
proof -
  let ?v = "demo_server\<lparr>connections := [(''c'', 0)]\<rparr>"
  have w: "server demo_doomed = Some ?v" "conns demo_doomed 0 = Some (demo_conn KConnected [])"
      "loops demo_doomed 0 = Some demo_cloop" "\<not> isInLoopThread demo_cloop demo_doomed"
      "conn_loop (demo_conn KConnected []) = 0" "pendingFunctors demo_cloop = []"
    by (simp_all add: demo_doomed_def demo_sworld_fields isInLoopThread_def tid_of_def cacheTid_def Let_def
        demo_cloop_def demo_loop_def demo_conn_def put_server_def)
  have "remote_conns demo_doomed (connections ?v)" using w by (simp add: remote_conns_def)
  from destructor_hands_over [OF w(1) this, of sim_kernel quiet_callbacks] show ?thesis
    using w by (auto simp: destroyed_in_def)
qed

end
