(* ===== verification/EchoLife.thy ===== *)
theory EchoLife
  imports EchoSafety EchoPass ServerConfig
begin

text \<open>
  The life of the example program: it starts, its loops make their passes in any order, connections that
  nothing refers to are destroyed. Every state it reaches satisfies the invariant.
\<close>

section \<open>Release of a connection\<close>

text \<open>Nothing holds the connection: neither the server's map nor a functor.\<close>

lemma release_safe:
  assumes K: "net_kernel K interest opened" and inv: "server_inv interest opened addr B X w" and t: "conns w c = Some t"
    and free: "\<not> held B w c"
  shows "\<exists>w'. destroy_TcpConnection K c w = Inr w' \<and> server_inv interest opened addr B X w' \<and>
     conn_state t = KDisconnected \<and> conns w' = (conns w)(c := None)"
proof -
  note I = server_invD [OF inv] and D = objs_wfD [OF server_invD(2) [OF inv]] and O = conn_chan_other [OF server_invD(2) [OF inv] t]
  obtain ch where ch: "chans w (conn_channel t) = Some ch" and good: "conn_good X c t ch" using inv_connE [OF inv t] .
  have down: "conn_state t = KDisconnected" using held_open [OF inv t] free by blast
  have new: "ch_index ch = kNew" using held_polled [OF inv t] ch free by (auto simp: polled_def)
  let ?w = "w\<lparr>wsys := destroy_Socket K (conn_socket t) (wsys w), chans := (chans w)(conn_channel t := None),
      conns := (conns w)(c := None)\<rparr>"
  have fd: "ch_fd ch = sockfd (conn_socket t)" using good by (simp add: conn_good_def conn_chan_def)
  have net: "net_wf interest opened ?w"
    by (rule net_close_chan [OF K I(1) ch new]) (simp_all add: destroy_Socket_def fd)
  have ow: "owed B ?w = owed B w" by (intro ext) (simp add: owed_def)
  have other: "conns w d = Some s \<and> d \<noteq> c" if "conns ?w d = Some s" for d s using that by (simp split: if_splits)
  have "objs_wf X ?w"
    unfolding objs_wf_def
  proof (intro conjI allI impI)
    fix i x assume "chans ?w i = Some x"
    then have i: "chans w i = Some x" "i \<noteq> conn_channel t" by (simp_all split: if_splits)
    then show "owner_ok (readCallback x) i ?w"
      using D(1) [OF i(1)] t by (cases "(readCallback x, i, w)" rule: owner_ok.cases) auto
  next
    fix l el assume "loops ?w l = Some el"
    then have "loops w l = Some el" by simp
    then show "\<exists>x. chans ?w (wakeupChannel el) = Some x \<and> loop_good l el x" using D(2) O(1) by fastforce
  next
    fix a assume "acceptor_obj ?w = Some a"
    then have "acceptor_obj w = Some a" by simp
    then show "\<exists>x. chans ?w (acceptChannel a) = Some x \<and> acceptor_chan a x" using D(3) O(2) by fastforce
  next
    fix d s assume "conns ?w d = Some s"
    from other [OF this] show "\<exists>x. chans ?w (conn_channel s) = Some x \<and> conn_good X d s x" using D(4) O(3) by fastforce
  qed
  moreover have "tasks_wf B ?w"
    unfolding tasks_wf_def ow tasks_ok_def
  proof (intro allI conjI ballI)
    fix l tk assume tk: "tk \<in> set (owed B w l)"
    then have ok: "task_ok w l tk" using I(3) by (simp add: tasks_wf_def tasks_ok_def)
    have "\<not> holds c tk" using free tk unfolding held_def by blast
    then show "task_ok ?w l tk" using ok by (cases tk) (auto simp: holds_def)
  next
    fix l show "distinct (established_ids (owed B w l))" using I(3) by (simp add: tasks_wf_def tasks_ok_def)
  qed
  moreover have "server_ok addr ?w"
  proof -
    obtain v a where v: "server w = Some v" "acceptor_obj w = Some a" "server_good addr v a (\<lambda>l. loops w l \<noteq> None) (conns w)"
      using I(4) by (rule server_okE)
    have nc: "map_of (connections v) n \<noteq> Some c" for n using free v(1) unfolding held_def listed_def by blast
    have "names_ok v (conns w)" using v(3) by (simp add: server_good_def)
    then have "names_ok v (conns ?w)" using nc unfolding names_ok_def by (auto split: if_splits)
    then have "server_good addr v a (\<lambda>l. loops ?w l \<noteq> None) (conns ?w)" using v(3) by (simp add: server_good_def)
    then show ?thesis using v(1,2) by (simp add: server_ok_def)
  qed
  moreover have "due ?w d s = due w d s" if "conns ?w d = Some s" for d s
    using O(3) [of d s] other [OF that] by (intro due_cong) (simp_all add: listed_def polled_def)
  then have "cared_ok B ?w" using I(5) unfolding cared_ok_def ow by (metis other)
  ultimately have "server_inv interest opened addr B X ?w" using net by (simp add: server_inv_def)
  moreover have "destroy_TcpConnection K c w = Inr ?w" using t by (simp add: destroy_TcpConnection_def)
  ultimately show ?thesis using down by (intro exI [of _ ?w]) simp
qed

section \<open>Start\<close>

text \<open>
  What a kernel may refuse a program that starts: the descriptors of its loops, their registration, the calls that
  make the listening socket. The program then exits. \<open>starts\<close>: a call returns with the property or exits so.
\<close>

definition listen_grants :: "'k kernel \<Rightarrow> bool" where
  "listen_grants K \<longleftrightarrow> (\<forall>k. 2 < fst (fst (sys_socket K k))) \<and> (\<forall>f a k. fst (fst (sys_bind K f a k)) = 0) \<and>
     (\<forall>f b k. fst (fst (sys_listen K f b k)) = 0)"

definition start_grants :: "'k kernel \<Rightarrow> (fd \<Rightarrow> 'k \<Rightarrow> interest_list) \<Rightarrow> bool" where
  "start_grants K interest \<longleftrightarrow> listen_grants K \<and> loop_grants K \<and> epoll_ctl_grants K interest"

definition start_exits :: "'k kernel \<Rightarrow> (fd \<Rightarrow> 'k \<Rightarrow> interest_list) \<Rightarrow> failure set" where
  "start_exits K interest = (if start_grants K interest then {} else {Exit_Fatal})"

lemma in_start_exits [simp]: "e \<in> start_exits K interest \<longleftrightarrow> e = Exit_Fatal \<and> \<not> start_grants K interest"
  by (simp add: start_exits_def)

abbreviation starts :: "'k kernel \<Rightarrow> (fd \<Rightarrow> 'k \<Rightarrow> interest_list) \<Rightarrow> ('w \<Rightarrow> bool) \<Rightarrow> 'w res \<Rightarrow> bool" where
  "starts K interest \<equiv> runs (start_exits K interest)"

lemma listen_refused:
  "sys_socket K k = ((f, e), k') \<Longrightarrow> f \<le> 2 \<Longrightarrow> \<not> start_grants K interest"
  "sys_bind K f a k = ((r, e), k') \<Longrightarrow> r \<noteq> 0 \<Longrightarrow> \<not> start_grants K interest"
  "sys_listen K f b k = ((r, e), k') \<Longrightarrow> r \<noteq> 0 \<Longrightarrow> \<not> start_grants K interest"
  unfolding listen_grants_def start_grants_def by (metis fst_conv linorder_not_less, metis fst_conv, metis fst_conv)

text \<open>A new loop, in a thread that has none.\<close>

lemma inv_new_loop:
  assumes K: "net_kernel K interest opened" and inv: "server_inv interest opened addr B X w"
    and new: "loops w l = None" "chans w ch = None" "loopInThread w (cur_thread w) = None"
  shows "starts K interest (\<lambda>w'. \<exists>el c. server_inv interest opened addr B X w' \<and>
     loops w' = (loops w)(l \<mapsto> el) \<and> chans w' = (chans w)(ch \<mapsto> c) \<and> same_rest w w' \<and>
     loopInThread w' = (loopInThread w)(cur_thread w \<mapsto> l)) (mk_EventLoop K False l ch w)"
proof (cases "mk_EventLoop K False l ch w")
  case (Inl e)
  then show ?thesis using net_mk_EventLoop [OF K server_invD(1) [OF inv] new] by (auto simp: start_grants_def)
next
  case (Inr w')
  note I = server_invD [OF inv] and D = objs_wfD [OF server_invD(2) [OF inv]]
  from Inr net_mk_EventLoop [OF K I(1) new] obtain el0 p c where w': "mk_EventLoop K False l ch w = Inr w'"
    "net_wf interest opened w'" "loops w' = (loops w)(l \<mapsto> el0\<lparr>loop_poller := Some p\<rparr>)" "pendingFunctors el0 = []"
    "wakeupChannel el0 = ch" "chans w' = (chans w)(ch \<mapsto> c)" "loop_good l el0 c" "same_rest w w'"
    "loopInThread w' = (loopInThread w)(cur_thread w \<mapsto> l)" by auto
  let ?el = "el0\<lparr>loop_poller := Some p\<rparr>"
  have so: "server w' = server w" "acceptor_obj w' = acceptor_obj w" "conns w' = conns w"
    using same_rest_objs [OF w'(8)] by (simp_all add: same_objs_def)
  have ow: "owed B w' = owed B w" using w'(3,4) new(1) by (intro ext) (simp add: owed_def)
  have oldc: "chans w' i = Some x" if "chans w i = Some x" for i x using that w'(6) new(2) by auto
  have owner: "owner_ok h i w'" if "owner_ok h i w" for h i
    using that new(1) w'(3) so by (cases "(h, i, w)" rule: owner_ok.cases) auto
  have wc: "loop_good l ?el c" using w'(7) by (simp add: loop_good_def)
  have "objs_wf X w'"
    unfolding objs_wf_def
  proof (intro conjI allI impI)
    fix i x assume i: "chans w' i = Some x"
    show "owner_ok (readCallback x) i w'"
    proof (cases "i = ch")
      case True
      then have "x = c" using i w'(6) by simp
      then show ?thesis using w'(3,5,7) True by (simp add: loop_good_def)
    next
      case False
      then have "chans w i = Some x" using i w'(6) by simp
      then show ?thesis by (intro owner D(1))
    qed
  next
    fix l' el' assume l': "loops w' l' = Some el'"
    show "\<exists>x. chans w' (wakeupChannel el') = Some x \<and> loop_good l' el' x"
    proof (cases "l' = l")
      case True
      then have "el' = ?el" using l' w'(3) by simp
      then show ?thesis using wc w'(5,6) True by simp
    next
      case False
      then have "loops w l' = Some el'" using l' w'(3) by simp
      from D(2) [OF this] obtain x where x: "chans w (wakeupChannel el') = Some x" "loop_good l' el' x" by blast
      then show ?thesis using oldc [OF x(1)] by blast
    qed
  next
    fix a assume "acceptor_obj w' = Some a"
    then show "\<exists>x. chans w' (acceptChannel a) = Some x \<and> acceptor_chan a x" using D(3) oldc so(2) by metis
  next
    fix d s assume "conns w' d = Some s"
    then show "\<exists>x. chans w' (conn_channel s) = Some x \<and> conn_good X d s x" using D(4) oldc so(3) by metis
  qed
  moreover have "task_ok w' l' tk = task_ok w l' tk" for l' tk using so by (cases tk) simp_all
  then have "tasks_wf B w'" using I(3) by (simp add: tasks_wf_def tasks_ok_def ow)
  moreover have "server_ok addr w'"
  proof -
    obtain v a where v: "server w = Some v" "acceptor_obj w = Some a" "server_good addr v a (\<lambda>l. loops w l \<noteq> None) (conns w)"
      using I(4) by (rule server_okE)
    have "{l'. loops w' l' \<noteq> None} = insert l {l'. loops w l' \<noteq> None}" using w'(3) by auto
    then have "finite {l'. loops w' l' \<noteq> None}" using v(3) by (simp add: server_good_def)
    moreover have "loops w' l' \<noteq> None" if "loops w l' \<noteq> None" for l' using that w'(3) by simp
    ultimately have "server_good addr v a (\<lambda>l. loops w' l \<noteq> None) (conns w)" using v(3) unfolding server_good_def by blast
    then show ?thesis using v(1,2) so by (simp add: server_ok_def)
  qed
  moreover have "due w' d s = due w d s" if s: "conns w d = Some s" for d s
  proof -
    obtain y where "chans w (conn_channel s) = Some y" using D(4) [OF s] by blast
    then have "polled w' s = polled w s" using oldc by (intro polled_same) simp
    then show ?thesis using so listed_same [OF so(1)] by (intro due_cong) simp_all
  qed
  then have "cared_ok B w'" using I(5) unfolding cared_ok_def ow so by metis
  ultimately show ?thesis using Inr w' by (auto simp: server_inv_def)
qed

text \<open>The threads of the pool, each with its loop. \<open>ids_ok\<close>: the identities of the new objects are new.\<close>

definition ids_ok :: "nat \<Rightarrow> (nat \<Rightarrow> thread_ids) \<Rightarrow> ('k, 'm) world_scheme \<Rightarrow> bool" where
  "ids_ok n ids w \<longleftrightarrow>
     (\<forall>i < n. case ids i of (tid, l, ch) \<Rightarrow> loops w l = None \<and> chans w ch = None \<and> loopInThread w tid = None) \<and>
     (\<forall>i < n. \<forall>j < n. i \<noteq> j \<longrightarrow> fst (ids i) \<noteq> fst (ids j) \<and> fst (snd (ids i)) \<noteq> fst (snd (ids j)) \<and>
        snd (snd (ids i)) \<noteq> snd (snd (ids j)))"

lemma inv_cur_thread:
  assumes inv: "server_inv interest opened addr B X w" and c: "\<And>t. ca t = cachedTid w t \<or> ca t = t"
  shows "server_inv interest opened addr B X (w\<lparr>numCreated := n, cur_thread := x, cachedTid := ca\<rparr>)"
    (is "server_inv _ _ _ _ _ ?w")
proof -
  note I = server_invD [OF inv]
  have fr: "chans ?w = chans w" "loops ?w = loops w" "conns ?w = conns w" "acceptor_obj ?w = acceptor_obj w" "server ?w = server w"
    "wsys ?w = wsys w" by simp_all
  have "cache_ok ?w"
    unfolding cache_ok_def
  proof
    fix t show "cachedTid ?w t = 0 \<or> cachedTid ?w t = t" using net_wfD(1) [OF I(1)] c [of t] by (auto simp: cache_ok_def)
  qed
  then have "net_wf interest opened ?w" by (intro net_wf_same [OF I(1)]) (simp_all add: quiet_refl)
  moreover have "owner_ok h i ?w = owner_ok h i w" for h i by (cases "(h, i, w)" rule: owner_ok.cases) simp_all
  then have "objs_wf X ?w" using I(2) by (simp add: objs_wf_def fr)
  moreover have "task_ok ?w l tk = task_ok w l tk" for l tk by (cases tk) simp_all
  then have "tasks_wf B ?w" using I(3) by (simp add: tasks_wf_def tasks_ok_def owed_def)
  moreover have "server_ok addr ?w" using I(4) by (simp add: server_ok_def)
  moreover have "due ?w c t = due w c t" for c t
    by (rule due_cong) (simp_all add: listed_def polled_def)
  then have "cared_ok B ?w" using I(5) by (simp add: cared_ok_def owed_def)
  ultimately show ?thesis by (simp add: server_inv_def)
qed

lemma start_thread_safe:
  assumes K: "net_kernel K interest opened" and inv: "server_inv interest opened addr B X w"
    and ids: "ids i = (tid, l, ch)" "loops w l = None" "chans w ch = None" "loopInThread w tid = None"
  shows "starts K interest (\<lambda>(p', w'). \<exists>el c. server_inv interest opened addr B X w' \<and>
     pool_loops p' = pool_loops p @ [l] \<and> loops w' = (loops w)(l \<mapsto> el) \<and> chans w' = (chans w)(ch \<mapsto> c) \<and>
     loopInThread w' = (loopInThread w)(tid \<mapsto> l) \<and> world.more w' = world.more w \<and> cur_thread w' = cur_thread w)
     (start_thread K False None ids i (p, w))"
proof -
  let ?w = "w\<lparr>numCreated := numCreated w + 1, cur_thread := tid, cachedTid := (cachedTid w)(tid := tid)\<rparr>"
  have "server_inv interest opened addr B X ?w" by (rule inv_cur_thread [OF inv]) simp
  note made = inv_new_loop [OF K this, of l ch]
  show ?thesis
  proof (cases "mk_EventLoop K False l ch ?w")
  case (Inl e)
  then show ?thesis using made ids
    by (simp add: start_thread_def mk_EventLoopThread_def mk_Thread_def startLoop_def threadFunc_init_def enter_thread_def)
  next
  case (Inr w1)
  with made ids obtain el c where w1: "mk_EventLoop K False l ch ?w = Inr w1"
    "server_inv interest opened addr B X w1" "loops w1 = (loops w)(l \<mapsto> el)" "chans w1 = (chans w)(ch \<mapsto> c)"
    "same_rest ?w w1" "loopInThread w1 = (loopInThread w)(tid \<mapsto> l)" by auto
  let ?w2 = "w1\<lparr>cur_thread := cur_thread w\<rparr>"
  have "server_inv interest opened addr B X (w1\<lparr>numCreated := numCreated w1, cur_thread := cur_thread w, cachedTid := cachedTid w1\<rparr>)"
    by (rule inv_cur_thread [OF w1(2)]) simp
  then have "server_inv interest opened addr B X ?w2" by simp
  moreover have "\<exists>e'. start_thread K False None ids i (p, w) =
      Inr (p\<lparr>pool_threads := pool_threads p @ [e'], pool_loops := pool_loops p @ [l]\<rparr>, ?w2)"
    using w1(1) ids(1)
    by (simp add: start_thread_def mk_EventLoopThread_def mk_Thread_def startLoop_def threadFunc_init_def enter_thread_def) blast
  moreover have "world.more ?w2 = world.more w" using w1(5) by (simp add: same_rest_def)
  ultimately show ?thesis using w1 by auto
  qed
qed

text \<open>The threads made so far have their loops; the identities of the others are still new.\<close>

definition threads_made :: "(fd \<Rightarrow> 'k \<Rightarrow> interest_list) \<Rightarrow> ('k \<Rightarrow> fd set) \<Rightarrow> InetAddress \<Rightarrow> (loop_id \<Rightarrow> task list) \<Rightarrow> conn_id set \<Rightarrow>
    (nat \<Rightarrow> thread_ids) \<Rightarrow> nat \<Rightarrow> nat \<Rightarrow> thread_pool \<Rightarrow> ('k, 'm) sworld_scheme \<Rightarrow> thread_pool \<times> ('k, 'm) sworld_scheme \<Rightarrow> bool" where
  "threads_made interest opened addr B X ids m n p w = (\<lambda>(p', w').
     server_inv interest opened addr B X w' \<and> (\<exists>ls. pool_loops p' = pool_loops p @ ls \<and> (\<forall>l \<in> set ls. loops w' l \<noteq> None)) \<and>
     (\<forall>l el. loops w l = Some el \<longrightarrow> loops w' l = Some el) \<and> world.more w' = world.more w \<and> cur_thread w' = cur_thread w \<and>
     (\<forall>i. m \<le> i \<and> i < n \<longrightarrow> (case ids i of (tid, l, ch) \<Rightarrow> loops w' l = None \<and> chans w' ch = None \<and> loopInThread w' tid = None)))"

lemma next_thread_made:
  assumes K: "net_kernel K interest opened" and made: "threads_made interest opened addr B X ids m n p w (p1, w1)"
    and m: "Suc m \<le> n" and ids: "ids_ok n ids w"
  shows "starts K interest (threads_made interest opened addr B X ids (Suc m) n p w) (start_thread K False None ids m (p1, w1))"
proof -
  obtain ls where w1: "server_inv interest opened addr B X w1" "pool_loops p1 = pool_loops p @ ls" "\<forall>l \<in> set ls. loops w1 l \<noteq> None"
     "\<forall>l el. loops w l = Some el \<longrightarrow> loops w1 l = Some el" "world.more w1 = world.more w \<and> cur_thread w1 = cur_thread w"
     "\<forall>i. m \<le> i \<and> i < n \<longrightarrow> (case ids i of (tid, l, ch) \<Rightarrow> loops w1 l = None \<and> chans w1 ch = None \<and> loopInThread w1 tid = None)"
    using made by (auto simp: threads_made_def)
  obtain tid l ch where i: "ids m = (tid, l, ch)" by (metis prod.exhaust)
  have new: "loops w1 l = None" "chans w1 ch = None" "loopInThread w1 tid = None" using w1(6) [rule_format, of m] i m by simp_all
  show ?thesis
  proof (rule runs_mono [OF start_thread_safe [where ids = ids, OF K w1(1) i new]], clarify)
    fix p2 :: thread_pool and w2 el c assume w2: "server_inv interest opened addr B X w2"
      "pool_loops p2 = pool_loops p1 @ [l]" "loops w2 = (loops w1)(l \<mapsto> el)" "chans w2 = (chans w1)(ch \<mapsto> c)"
      "loopInThread w2 = (loopInThread w1)(tid \<mapsto> l)" "world.more w2 = world.more w1" "cur_thread w2 = cur_thread w1"
    have "case ids j of (tid, l, ch) \<Rightarrow> loops w2 l = None \<and> chans w2 ch = None \<and> loopInThread w2 tid = None"
      if j: "Suc m \<le> j \<and> j < n" for j
    proof -
      obtain tid' l' ch' where ij: "ids j = (tid', l', ch')" by (metis prod.exhaust)
      have "m < n" "j < n" "m \<noteq> j" using j by simp_all
      then have "tid \<noteq> tid'" "l \<noteq> l'" "ch \<noteq> ch'" using ids i ij unfolding ids_ok_def by (metis fst_conv snd_conv)+
      then show ?thesis using w1(6) [rule_format, of j] j ij w2(3-5) by simp
    qed
    moreover have "\<forall>l' \<in> set (ls @ [l]). loops w2 l' \<noteq> None" using w1(3) w2(3) by auto
    moreover have "pool_loops p2 = pool_loops p @ (ls @ [l])" using w1(2) w2(2) by simp
    moreover have "\<forall>l el. loops w l = Some el \<longrightarrow> loops w2 l = Some el"
      using w1(4) w2(3) new(1) by (metis fun_upd_other option.distinct(1))
    ultimately show "threads_made interest opened addr B X ids (Suc m) n p w (p2, w2)"
      unfolding threads_made_def prod.case using w2(1,6,7) w1(5) by (intro conjI exI [of _ "ls @ [l]"] allI) simp_all
  qed
qed

lemma bind_fold_one: "bind_r r (fold_r f [x]) = bind_r r (f x)"
proof (rule bind_r_cong [OF refl])
  fix a show "fold_r f [x] a = f x a" by (cases "f x a") simp_all
qed

lemma start_threads_safe:
  assumes K: "net_kernel K interest opened" and inv: "server_inv interest opened addr B X w" and ids: "ids_ok n ids w"
  shows "starts K interest (threads_made interest opened addr B X ids n n p w)
     (fold_r (start_thread K False None ids) [0..<n] (p, w))"
proof -
  have "m \<le> n \<Longrightarrow> starts K interest (threads_made interest opened addr B X ids m n p w)
     (fold_r (start_thread K False None ids) [0..<m] (p, w))" for m
  proof (induction m)
    case 0
    then show ?case using inv ids by (auto simp: threads_made_def ids_ok_def)
  next
    case (Suc m)
    have "starts K interest (threads_made interest opened addr B X ids (Suc m) n p w)
       (bind_r (fold_r (start_thread K False None ids) [0..<m] (p, w)) (start_thread K False None ids m))"
    proof (rule runs_bind [OF Suc.IH])
      show "m \<le> n" using Suc.prems by simp
      fix u assume "threads_made interest opened addr B X ids m n p w u"
      then show "starts K interest (threads_made interest opened addr B X ids (Suc m) n p w) (start_thread K False None ids m u)"
        using next_thread_made [OF K _ Suc.prems ids] by (cases u) blast
    qed
    then show ?case by (simp add: fold_r_append bind_fold_one del: fold_r.simps)
  qed
  then show ?thesis by simp
qed

lemma start_safe:
  assumes K: "net_kernel K interest opened" and inv: "server_inv interest opened addr B X w" and v: "server w = Some v"
    and ids: "ids_ok (nat (numThreads (threadPool v))) ids w"
  shows "starts K interest (\<lambda>w'. server_inv interest opened addr B X w' \<and>
    (\<forall>l el. loops w l = Some el \<longrightarrow> loops w' l = Some el) \<and> cur_thread w' = cur_thread w) (TcpServer_start K False ids w)"
proof -
  let ?v1 = "v\<lparr>srv_started := srv_started v + 1\<rparr>" and ?w1 = "put_server (v\<lparr>srv_started := srv_started v + 1\<rparr>) w"
  have nm: "names_ok ?v1 cs = names_ok v cs" for cs
  proof -
    have "connName ?v1 = connName v" by (intro ext) (simp add: connName_def)
    then show ?thesis by (simp add: names_ok_def)
  qed
  have i1: "server_inv interest opened addr B X ?w1"
    by (rule conjunct1 [OF inv_put_server [OF inv v]])
      (use v in \<open>simp_all add: server_good_def server_wf_started nm listed_def\<close>)
  show ?thesis
  proof (cases "srv_started v = 0")
    case False
    then show ?thesis using v i1 by (simp add: TcpServer_start_def)
  next
    case True
    let ?p = "(threadPool v)\<lparr>pool_started := True\<rparr>"
    have "ids_ok (nat (numThreads (threadPool v))) ids ?w1" using ids by (simp add: ids_ok_def put_server_def)
    note made = start_threads_safe [OF K i1 this, of ?p]
    show ?thesis
    proof (cases "fold_r (start_thread K False None ids) [0..<nat (numThreads (threadPool v))] (?p, ?w1)")
    case (Inl e)
    then show ?thesis using made v True by (simp add: TcpServer_start_def pool_start_def)
    next
    case (Inr pw)
    with made obtain p' w' ls where st:
      "fold_r (start_thread K False None ids) [0..<nat (numThreads (threadPool v))] (?p, ?w1) = Inr (p', w')"
      "server_inv interest opened addr B X w'" "pool_loops p' = pool_loops (threadPool v) @ ls" "\<forall>l \<in> set ls. loops w' l \<noteq> None"
      "\<forall>l el. loops ?w1 l = Some el \<longrightarrow> loops w' l = Some el" "world.more w' = world.more ?w1" "cur_thread w' = cur_thread ?w1"
      by (cases pw) (auto simp: threads_made_def)
    have run: "pool_start K False None ids (threadPool v, ?w1) = Inr (p', w')" using st(1) by (simp add: pool_start_def)
    have v': "server w' = Some ?v1" using more_server [OF st(6)] by simp
    have fold: "baseLoop p' = baseLoop (threadPool v)"
    proof -
      have "(\<lambda>(q, u). baseLoop q = baseLoop (threadPool v)) (p', w')"
      proof (rule fold_r_invariant [OF _ _ st(1)])
        fix i s s' assume "(\<lambda>(q, u). baseLoop q = baseLoop (threadPool v)) s" "start_thread K False None ids i s = Inr s'"
        then show "(\<lambda>(q, u). baseLoop q = baseLoop (threadPool v)) s'"
          by (auto simp: start_thread_def bind_r_Inr_iff split: prod.splits)
      qed simp
      then show ?thesis by simp
    qed
    have old: "\<forall>l \<in> set (getAllLoops (threadPool v)). loops w' l \<noteq> None"
    proof
      fix l assume l: "l \<in> set (getAllLoops (threadPool v))"
      have "\<forall>l \<in> set (getAllLoops (threadPool ?v1)). loops ?w1 l \<noteq> None"
        using server_invD(4) [OF i1] by (auto elim!: server_okE simp: server_good_def)
      then obtain el where "loops ?w1 l = Some el" using l by auto
      then show "loops w' l \<noteq> None" using st(5) by (metis option.distinct(1))
    qed
    have live: "\<forall>l \<in> set (getAllLoops p'). loops w' l \<noteq> None"
      using old st(3,4) fold by (auto simp: getAllLoops_def split: if_splits)
    have "server_inv interest opened addr B X (put_server (?v1\<lparr>threadPool := p'\<rparr>) w')"
    proof (rule conjunct1 [OF inv_put_server [OF st(2) v']])
      fix a assume g: "server_good addr ?v1 a (\<lambda>l. loops w' l \<noteq> None) (conns w')"
      have "pool_ok p'" using pool_start_ok_inv [OF run] g by (simp add: server_good_def server_wf_def)
      then have "server_wf addr (?v1\<lparr>threadPool := p'\<rparr>)" using g server_wf_pool by (simp add: server_good_def)
      moreover have "connName (?v1\<lparr>threadPool := p'\<rparr>) = connName ?v1" by (intro ext) (simp add: connName_def)
      then have "names_ok (?v1\<lparr>threadPool := p'\<rparr>) (conns w') = names_ok ?v1 (conns w')" by (simp add: names_ok_def)
      ultimately show "server_good addr (?v1\<lparr>threadPool := p'\<rparr>) a (\<lambda>l. loops w' l \<noteq> None) (conns w')"
        using g live by (simp add: server_good_def)
    qed (use v' in \<open>simp_all add: listed_def\<close>)
    then show ?thesis using v True run v' st(5,7) by (simp add: TcpServer_start_def)
    qed
  qed
qed

text \<open>The acceptor is built and listens.\<close>

lemma mk_Acceptor_safe:
  assumes K: "net_kernel K interest opened" and wf: "net_wf interest opened w" and new: "loops w l \<noteq> None" "chans w ch = None"
  shows "starts K interest (\<lambda>w'. \<exists>f. net_wf interest opened w' \<and>
       chans w' = (chans w)(ch \<mapsto> setReadCallback AcceptorHandleRead (mk_Channel l f)) \<and> loops w' = loops w \<and> conns w' = conns w \<and>
       acceptor_obj w' = Some \<lparr>acc_loop = l, acceptSocket = \<lparr>sockfd = f\<rparr>, acceptChannel = ch, newConnectionCallback = None,
         listenning = False\<rparr> \<and> cur_thread w' = cur_thread w \<and> cachedTid w' = cachedTid w \<and> loopInThread w' = loopInThread w)
     (mk_Acceptor K l ch addr reuse w)" (is "starts K interest ?P _")
proof -
  note D = net_wfD [OF wf]
  obtain f e k1 where call: "sys_socket K (os (wsys w)) = ((f, e), k1)" by (metis prod.exhaust)
  show ?thesis
  proof (cases "f \<le> 2")
    case True
    then show ?thesis using call listen_refused(1) [OF call] by (simp add: mk_Acceptor_def createNonblocking_def call_os_os)
  next
    case False
    let ?s = "\<lparr>sockfd = f\<rparr>" and ?\<sigma>1 = "(wsys w)\<lparr>os := k1\<rparr>"
    let ?\<sigma>3 = "setReusePort K reuse ?s (setReuseAddr K True ?s ?\<sigma>1)"
    have cr: "f \<notin> opened (os (wsys w))" "opened k1 = insert f (opened (os (wsys w)))" "interest ep k1 = interest ep (os (wsys w))" for ep
      using descriptorD(3) [OF K, of "os (wsys w)"] descriptorD(8) [OF K, of ep "os (wsys w)"] call False
      by (simp_all add: creates_def)
    have q3: "quiet interest opened k1 (os ?\<sigma>3)"
      using quiet_trans [OF quietD(8) [OF K] quietD(8) [OF K]]
      by (auto simp: setReusePort_def setReuseAddr_def call_os_os split: prod.splits)
    obtain r e2 k4 where call4: "sys_bind K f (getSockAddr addr) (os ?\<sigma>3) = ((r, e2), k4)" by (metis prod.exhaust)
    have create: "createNonblocking K (wsys w) = Inr (f, ?\<sigma>1)" using call False by (simp add: createNonblocking_def call_os_os)
    show ?thesis
    proof (cases "r = 0")
      case False
      then show ?thesis using create call4 listen_refused(2) [OF call4] by (simp add: mk_Acceptor_def bindAddress_def call_os_os Let_def)
    next
      case True
      let ?\<sigma>4 = "?\<sigma>3\<lparr>os := k4\<rparr>" and ?x = "setReadCallback AcceptorHandleRead (mk_Channel l f)"
      let ?w1 = "put_chan ch ?x (put_sys ?\<sigma>4 w)"
      let ?w2 = "?w1\<lparr>acceptor_obj := Some \<lparr>acc_loop = l, acceptSocket = ?s, acceptChannel = ch, newConnectionCallback = None,
         listenning = False\<rparr>\<rparr>"
      have q4: "quiet interest opened k1 k4"
        using quiet_trans [OF q3] quietD(5) [OF K, of "os ?\<sigma>3" f "getSockAddr addr"] call4 by simp
      have "net_wf interest opened (put_sys ?\<sigma>4 w)"
        by (rule net_wf_grow [OF wf]) (use q4 cr in \<open>auto simp: quiet_def\<close>)
      then have "net_wf interest opened ?w1"
      proof (rule net_new_chan)
        show "ch_fd d \<noteq> ch_fd ?x" if "chans (put_sys ?\<sigma>4 w) j = Some d" for j d
          using that D(7) [of j d] cr(1) by (auto simp: setReadCallback_def mk_Channel_def)
        show "loop_epoll (put_sys ?\<sigma>4 w) l' \<noteq> Some (ch_fd ?x)" for l'
          using D(3) [of l' f] cr(1) by (auto simp: loop_epoll_def setReadCallback_def mk_Channel_def)
      qed (use new q4 cr in \<open>simp_all add: setReadCallback_def mk_Channel_def kNew_def quiet_def\<close>)
      then have "net_wf interest opened ?w2" by (rule net_wf_cong) (simp_all add: quiet_refl)
      then have "?P ?w2" by simp
      moreover have "mk_Acceptor K l ch addr reuse w = Inr ?w2"
        using create call4 True by (simp add: mk_Acceptor_def bindAddress_def call_os_os Let_def)
      ultimately show ?thesis by simp
    qed
  qed
qed

lemma Acceptor_listen_safe:
  fixes w :: "('k, 'm) sworld_scheme"
  assumes K: "net_kernel K interest opened" and wf: "net_wf interest opened w" and a: "acceptor_obj w = Some a"
    and x: "chans w (acceptChannel a) = Some x" "ch_index x = kNew" "ch_events x = 0"
  shows "starts K interest (\<lambda>w'. \<exists>n el p. net_wf interest opened w' \<and> n \<noteq> kNew \<and>
       chans w' = (chans w)(acceptChannel a \<mapsto> set_index n (request EnableReading x)) \<and> loops w (ch_loop x) = Some el \<and>
       loops w' = (loops w)(ch_loop x \<mapsto> el\<lparr>loop_poller := Some p\<rparr>) \<and> conns w' = conns w \<and> server w' = server w \<and>
       acceptor_obj w' = Some (a\<lparr>listenning := True\<rparr>) \<and> loopInThread w' = loopInThread w \<and> cur_thread w' = cur_thread w) (Acceptor_listen K w)"
proof -
  obtain r e k' where call: "sys_listen K (sockfd (acceptSocket a)) 1024 (os (wsys w)) = ((r, e), k')" by (metis prod.exhaust)
  let ?w1 = "put_sys ((wsys w)\<lparr>os := k'\<rparr>) (w\<lparr>acceptor_obj := Some (a\<lparr>listenning := True\<rparr>)\<rparr>)"
  have eq: "Acceptor_listen K w = (if r \<noteq> 0 then Inl Exit_Fatal else Channel_request K EnableReading (acceptChannel a) ?w1)"
    using a call by (simp add: Acceptor_listen_def with_acceptor_def Socket_listen_def call_os_os Let_def)
  have "quiet interest opened (os (wsys w)) k'" using quietD(6) [OF K, of "os (wsys w)" "sockfd (acceptSocket a)" 1024] call by simp
  then have wf1: "net_wf interest opened ?w1" by (intro net_wf_cong [OF wf]) simp_all
  have x1: "chans ?w1 (acceptChannel a) = Some x" using x(1) by simp
  have ok: "loop_ok interest (ch_loop x) ?w1" using net_wfD(2,6) [OF wf1] x1 by blast
  have pre: "ch_index x = kNew \<or> ch_events x \<noteq> 0 \<or> request_events EnableReading (ch_events x) = 0" using x(2) by blast
  show ?thesis
  proof (rule Channel_request_result [OF net_kernelD(1) [OF K] ok x1 pre])
    assume "Channel_request K EnableReading (acceptChannel a) ?w1 = Inl Exit_Fatal" "\<not> epoll_ctl_grants K interest"
    then show ?thesis unfolding eq by (simp add: start_grants_def)
  next
  fix w' assume req: "Channel_request K EnableReading (acceptChannel a) ?w1 = Inr w'"
  from net_request [OF K wf1 x1 req] obtain n el p where w':
    "net_wf interest opened w'" "n \<noteq> kNew"
    "chans w' = (chans w)(acceptChannel a \<mapsto> set_index n (request EnableReading x))" "loops w (ch_loop x) = Some el"
    "loops w' = (loops w)(ch_loop x \<mapsto> el\<lparr>loop_poller := Some p\<rparr>)" "same_rest ?w1 w'" "loopInThread w' = loopInThread w" by auto
  have "conns w' = conns w" "server w' = server w" "acceptor_obj w' = Some (a\<lparr>listenning := True\<rparr>)"
    "cur_thread w' = cur_thread w"
    using same_rest_objs [OF w'(6)] by (simp_all add: same_objs_def)
  then show ?thesis unfolding eq using req w' listen_refused(3) [OF call, where interest = interest] by auto
  qed
qed

text \<open>The first state: nothing exists, and no thread has cached a wrong id.\<close>

definition blank :: "('k, 'm) sworld_scheme \<Rightarrow> bool" where
  "blank w \<longleftrightarrow> chans w = (\<lambda>_. None) \<and> loops w = (\<lambda>_. None) \<and> conns w = (\<lambda>_. None) \<and> loopInThread w = (\<lambda>_. None) \<and> cache_ok w"

lemma net_blank: "blank w \<Longrightarrow> net_wf interest opened w"
  by (simp add: blank_def net_wf_def loop_epoll_def)

text \<open>A program with one loop and a server that has no connection yet.\<close>

lemma inv_first:
  assumes wf: "net_wf interest opened w"
    and w: "chans w = (\<lambda>_. None)(wakeupChannel el \<mapsto> c, acceptChannel a \<mapsto> x)" "loops w = (\<lambda>_. None)(l \<mapsto> el)"
      "conns w = (\<lambda>_. None)" "acceptor_obj w = Some a" "server w = Some v"
    and good: "loop_good l el c" "acceptor_chan a x" "pendingFunctors el = []" "wakeupChannel el \<noteq> acceptChannel a"
    and v: "server_good addr v a (\<lambda>l'. l' = l) (conns w)"
  shows "server_inv interest opened addr (\<lambda>_. []) {} w"
proof -
  have "objs_wf {} w" using w good by (auto simp: objs_wf_def loop_good_def acceptor_chan_def)
  moreover have "tasks_wf (\<lambda>_. []) w"
    using w(2) good(3) by (simp add: tasks_wf_def tasks_ok_def owed_def established_ids_def)
  moreover have "(\<lambda>l'. loops w l' \<noteq> None) = (\<lambda>l'. l' = l)" using w(2) by auto
  then have "server_ok addr w" using w(4,5) v by (simp add: server_ok_def)
  moreover have "cared_ok (\<lambda>_. []) w" using w(3) by (simp add: cared_ok_def)
  ultimately show ?thesis using wf by (simp add: server_inv_def)
qed

lemma mk_EchoServer_safe:
  fixes w :: "('k, 'm) sworld_scheme"
  assumes K: "net_kernel K interest opened" and wf: "net_wf interest opened w"
    and w: "chans w = (\<lambda>_. None)(ch0 \<mapsto> c)" "loops w = (\<lambda>_. None)(l \<mapsto> el)" "conns w = (\<lambda>_. None)"
    and el: "wakeupChannel el = ch0" "loop_good l el c" "pendingFunctors el = []" "isInLoopThread el w" and ch: "ch \<noteq> ch0"
  shows "starts K interest (\<lambda>w'. \<exists>v el' y z. server_inv interest opened addr (\<lambda>_. []) {} w' \<and> server w' = Some v \<and> numThreads (threadPool v) = 3 \<and>
       loops w' = (\<lambda>_. None)(l \<mapsto> el') \<and> threadId el' = threadId el \<and> chans w' = (\<lambda>_. None)(ch0 \<mapsto> y, ch \<mapsto> z) \<and>
       loopInThread w' = loopInThread w \<and> cur_thread w' = cur_thread w)
     (mk_EchoServer K l addr name ch started0 w)" (is "starts K interest ?P _")
proof -
  let ?v = "\<lparr>srv_connectionCallback = None, srv_messageCallback = None,
            srv_threadInitCallback = None, srv_writeCompleteCallback = None, srv_loop = l, ipPort = projr (toIpPort addr), srv_name = name,
            threadPool = mk_EventLoopThreadPool l name, srv_started = started0, nextConnId = 1,
            connections = []\<rparr>"
  let ?v1 = "srv_setMessageCallback onMessage_ref (srv_setConnectionCallback onConnection_ref ?v)"
  let ?v2 = "?v1\<lparr>threadPool := setThreadNum 3 (threadPool ?v1)\<rparr>"
  have ip: "toIpPort addr = Inr (projr (toIpPort addr))" by (simp add: toIpPort_eq)
  have "loops w l \<noteq> None" "chans w ch = None" using w(1,2) ch by simp_all
  from mk_Acceptor_safe [OF K wf this, of addr False] have acc: "starts K interest (\<lambda>w'. \<exists>f. net_wf interest opened w' \<and>
       chans w' = (chans w)(ch \<mapsto> setReadCallback AcceptorHandleRead (mk_Channel l f)) \<and> loops w' = loops w \<and> conns w' = conns w \<and>
       acceptor_obj w' = Some \<lparr>acc_loop = l, acceptSocket = \<lparr>sockfd = f\<rparr>, acceptChannel = ch, newConnectionCallback = None,
         listenning = False\<rparr> \<and> cur_thread w' = cur_thread w \<and> cachedTid w' = cachedTid w \<and> loopInThread w' = loopInThread w)
     (mk_Acceptor K l ch addr False w)" .
  have "mk_EchoServer K l addr name ch started0 w =
     bind_r (mk_Acceptor K l ch addr False w) (\<lambda>u.
       bind_r (setNewConnectionCallback newConnection_ref (put_server ?v u)) (\<lambda>w1. with_server w1 (\<lambda>v.
       TcpServer_setThreadNum K 3
         (put_server (srv_setMessageCallback onMessage_ref (srv_setConnectionCallback onConnection_ref v)) w1))))"
    using ip unfolding mk_EchoServer_def mk_TcpServer_def CheckLoopNotNull_def
    by (cases "mk_Acceptor K l ch addr False w") (simp_all add: toIpPort_eq)
  also have "starts K interest ?P \<dots>"
  proof (rule runs_bind [OF acc])
    fix u :: "('k, 'm) sworld_scheme"
    assume "\<exists>f. net_wf interest opened u \<and>
       chans u = (chans w)(ch \<mapsto> setReadCallback AcceptorHandleRead (mk_Channel l f)) \<and> loops u = loops w \<and> conns u = conns w \<and>
       acceptor_obj u = Some \<lparr>acc_loop = l, acceptSocket = \<lparr>sockfd = f\<rparr>, acceptChannel = ch, newConnectionCallback = None,
         listenning = False\<rparr> \<and> cur_thread u = cur_thread w \<and> cachedTid u = cachedTid w \<and> loopInThread u = loopInThread w"
    then obtain f where u: "net_wf interest opened u" "chans u = (chans w)(ch \<mapsto> setReadCallback AcceptorHandleRead (mk_Channel l f))"
      "loops u = loops w" "conns u = conns w" "acceptor_obj u = Some \<lparr>acc_loop = l, acceptSocket = \<lparr>sockfd = f\<rparr>, acceptChannel = ch,
         newConnectionCallback = None, listenning = False\<rparr>" "cur_thread u = cur_thread w" "cachedTid u = cachedTid w"
      "loopInThread u = loopInThread w" by blast
    let ?x = "setReadCallback AcceptorHandleRead (mk_Channel l f)"
    let ?a = "\<lparr>acc_loop = l, acceptSocket = \<lparr>sockfd = f\<rparr>, acceptChannel = ch,
         newConnectionCallback = Some newConnection_ref, listenning = False\<rparr>"
    let ?z = "(put_server ?v u)\<lparr>acceptor_obj := Some ?a\<rparr>"
    let ?u = "put_server ?v2 (put_server ?v1 ?z)"
    have uf: "net_wf interest opened ?u" by (rule net_wf_cong [OF u(1)]) (simp_all add: put_server_def quiet_refl)
    have x: "ch_index ?x = kNew" "ch_events ?x = 0" "ch_loop ?x = l" by (simp_all add: setReadCallback_def mk_Channel_def kNew_def)
    have a: "acceptor_obj ?u = Some ?a" "chans ?u (acceptChannel ?a) = Some ?x" using u(2) by (simp_all add: put_server_def)
    have th: "isInLoopThread el ?u" using isInLoopThread_cong [of el el ?u w] u(6,7) el(4) by (simp add: put_server_def)
    have set: "setNewConnectionCallback newConnection_ref (put_server ?v u) = Inr ?z"
      using u(5) by (simp add: setNewConnectionCallback_def with_acceptor_def)
    have num: "TcpServer_setThreadNum K 3 (put_server ?v1 ?z) = Acceptor_listen K ?u"
      using th u(3) w(2)
      by (simp add: TcpServer_setThreadNum_def runInLoop_def srv_setMessageCallback_def srv_setConnectionCallback_def)
    have "starts K interest ?P (Acceptor_listen K ?u)"
    proof (rule runs_mono [OF Acceptor_listen_safe [OF K uf a x(1,2)]])
      fix w' :: "('k, 'm) sworld_scheme"
      assume "\<exists>n el p. net_wf interest opened w' \<and> n \<noteq> kNew \<and>
       chans w' = (chans ?u)(acceptChannel ?a \<mapsto> set_index n (request EnableReading ?x)) \<and> loops ?u (ch_loop ?x) = Some el \<and>
       loops w' = (loops ?u)(ch_loop ?x \<mapsto> el\<lparr>loop_poller := Some p\<rparr>) \<and> conns w' = conns ?u \<and> server w' = server ?u \<and>
       acceptor_obj w' = Some (?a\<lparr>listenning := True\<rparr>) \<and> loopInThread w' = loopInThread ?u \<and> cur_thread w' = cur_thread ?u"
      then obtain n e p where w': "net_wf interest opened w'" "n \<noteq> kNew"
       "chans w' = (chans ?u)(acceptChannel ?a \<mapsto> set_index n (request EnableReading ?x))" "loops ?u (ch_loop ?x) = Some e"
       "loops w' = (loops ?u)(ch_loop ?x \<mapsto> e\<lparr>loop_poller := Some p\<rparr>)" "conns w' = conns ?u" "server w' = server ?u"
       "acceptor_obj w' = Some (?a\<lparr>listenning := True\<rparr>)" "loopInThread w' = loopInThread ?u"
       "cur_thread w' = cur_thread ?u" by blast
      let ?el = "el\<lparr>loop_poller := Some p\<rparr>" and ?y = "set_index n (request EnableReading ?x)" and ?a' = "?a\<lparr>listenning := True\<rparr>"
      have e: "e = el" using w'(4) u(3) w(2) x(3) by (simp add: put_server_def)
      have lp: "loops w' = (\<lambda>_. None)(l \<mapsto> ?el)" using w'(5) e u(3) w(2) x(3) by (simp add: put_server_def)
      have cs: "chans w' = (\<lambda>_. None)(wakeupChannel ?el \<mapsto> c, acceptChannel ?a' \<mapsto> ?y)"
        using w'(3) u(2) w(1) el(1) by (simp add: put_server_def)
      have cn: "conns w' = (\<lambda>_. None)" "server w' = Some ?v2" using w'(6,7) u(4) w(3) by (simp_all add: put_server_def)
      have wk: "loop_good l ?el c" using el(2) by (simp add: loop_good_def)
      have ac: "acceptor_chan ?a' ?y"
        using w'(2) by (simp add: acceptor_chan_def setReadCallback_def mk_Channel_def request_def set_index_def)
      have wf2: "server_wf addr ?v2"
        using ip by (simp add: server_wf_def pool_ok_def setThreadNum_def srv_setMessageCallback_def srv_setConnectionCallback_def
            mk_EventLoopThreadPool_def reg_wf_def)
      have sg: "server_good addr ?v2 ?a' (\<lambda>l'. l' = l) (conns w')"
        using wf2 cn(1) by (simp add: server_good_def names_ok_def setThreadNum_def srv_setMessageCallback_def
            srv_setConnectionCallback_def mk_EventLoopThreadPool_def getAllLoops_def)
      have "server_inv interest opened addr (\<lambda>_. []) {} w'"
        by (rule inv_first [OF w'(1) cs lp cn(1) w'(8) cn(2) wk ac _ _ sg]) (use el ch in simp_all)
      moreover have "numThreads (threadPool ?v2) = 3" by (simp add: setThreadNum_def)
      moreover have "loopInThread w' = loopInThread w" "cur_thread w' = cur_thread w" using w'(9,10) u(6,8) by (simp_all add: put_server_def)
      moreover have "threadId ?el = threadId el" by simp
      moreover have "chans w' = (\<lambda>_. None)(ch0 \<mapsto> c, ch \<mapsto> ?y)" using cs el(1) by simp
      ultimately show "?P w'" using cn(2) lp by blast
    qed
    then show "starts K interest ?P (bind_r (setNewConnectionCallback newConnection_ref (put_server ?v u)) (\<lambda>w1. with_server w1 (\<lambda>v.
       TcpServer_setThreadNum K 3
         (put_server (srv_setMessageCallback onMessage_ref (srv_setConnectionCallback onConnection_ref v)) w1))))"
      unfolding set bind_r.simps using num by (simp add: with_server_def put_server_def)
  qed
  finally show ?thesis .
qed

section \<open>The program\<close>

text \<open>The identities of the three threads, their loops and wakeup channels are new.\<close>

definition new_ids :: "tid \<Rightarrow> (nat \<Rightarrow> thread_ids) \<Rightarrow> bool" where
  "new_ids main ids \<longleftrightarrow>
     (\<forall>i < 3. case ids i of (tid, l, ch) \<Rightarrow> tid \<noteq> main \<and> l \<noteq> 0 \<and> ch \<noteq> 0 \<and> ch \<noteq> 1) \<and>
     (\<forall>i < 3. \<forall>j < 3. i \<noteq> j \<longrightarrow> fst (ids i) \<noteq> fst (ids j) \<and> fst (snd (ids i)) \<noteq> fst (snd (ids j)) \<and>
        snd (snd (ids i)) \<noteq> snd (snd (ids j)))"

lemma echo_start_safe:
  fixes w :: "('k, 'm) sworld_scheme"
  assumes K: "net_kernel K interest opened" and w: "blank w" and ids: "new_ids (cur_thread w) ids"
  shows "starts K interest (\<lambda>w'. server_inv interest opened (echo_addr ia) (\<lambda>_. []) {} w' \<and> running 0 w')
     (echo_start K False ia ids started0 w)"
proof -
  have b: "chans w = (\<lambda>_. None)" "loops w = (\<lambda>_. None)" "conns w = (\<lambda>_. None)" "loopInThread w = (\<lambda>_. None)"
    using w by (simp_all add: blank_def)
  have made: "(mk_EventLoop K False 0 0 w = Inl Exit_Fatal \<and> \<not> start_grants K interest) \<or>
     (\<exists>w1 el p c. mk_EventLoop K False 0 0 w = Inr w1 \<and> net_wf interest opened w1 \<and>
       loops w1 = (\<lambda>_. None)(0 \<mapsto> el\<lparr>loop_poller := Some p\<rparr>) \<and> pendingFunctors el = [] \<and> threadId el = cur_thread w \<and>
       wakeupChannel el = 0 \<and> chans w1 = (\<lambda>_. None)(0 \<mapsto> c) \<and> loop_good 0 el c \<and> same_rest w w1 \<and>
       loopInThread w1 = (\<lambda>_. None)(cur_thread w \<mapsto> 0))"
    using net_mk_EventLoop [OF K net_blank [OF w], of 0 0] b by (auto simp: start_grants_def)
  show ?thesis
  proof (cases "mk_EventLoop K False 0 0 w")
  case (Inl e)
  then show ?thesis using made by (simp add: echo_start_def)
  next
  case (Inr w')
  with made obtain w1 el p c where w1: "mk_EventLoop K False 0 0 w = Inr w1"
    "net_wf interest opened w1" "loops w1 = (\<lambda>_. None)(0 \<mapsto> el\<lparr>loop_poller := Some p\<rparr>)" "pendingFunctors el = []"
    "threadId el = cur_thread w" "wakeupChannel el = 0" "chans w1 = (\<lambda>_. None)(0 \<mapsto> c)" "loop_good 0 el c" "same_rest w w1"
    "loopInThread w1 = (\<lambda>_. None)(cur_thread w \<mapsto> 0)" by auto
  let ?el = "el\<lparr>loop_poller := Some p\<rparr>"
  have cn: "conns w1 = (\<lambda>_. None)" "cur_thread w1 = cur_thread w"
    using same_rest_objs [OF w1(9)] b(3) by (simp_all add: same_objs_def)
  have th: "isInLoopThread ?el w1"
    using w1(5) tid_of_eq [OF net_wfD(1) [OF w1(2)]] cn(2) by (simp add: isInLoopThread_def)
  have lg: "loop_good 0 ?el c" using w1(8) by (simp add: loop_good_def)
  have ne: "(1::nat) \<noteq> 0" by simp
  show ?thesis
    unfolding echo_start_def w1(1) bind_r.simps
  proof (rule runs_bind [OF mk_EchoServer_safe [OF K w1(2,7,3) cn(1) _ lg _ th ne]])
    fix w2 :: "('k, 'm) sworld_scheme"
    assume "\<exists>v el' y z. server_inv interest opened (echo_addr ia) (\<lambda>_. []) {} w2 \<and> server w2 = Some v \<and> numThreads (threadPool v) = 3 \<and>
       loops w2 = (\<lambda>_. None)(0 \<mapsto> el') \<and> threadId el' = threadId ?el \<and> chans w2 = (\<lambda>_. None)(0 \<mapsto> y, 1 \<mapsto> z) \<and>
       loopInThread w2 = loopInThread w1 \<and> cur_thread w2 = cur_thread w1"
    then obtain v el' y z where w2: "server_inv interest opened (echo_addr ia) (\<lambda>_. []) {} w2" "server w2 = Some v"
      "numThreads (threadPool v) = 3" "loops w2 = (\<lambda>_. None)(0 \<mapsto> el')" "threadId el' = threadId el"
      "chans w2 = (\<lambda>_. None)(0 \<mapsto> y, 1 \<mapsto> z)" "loopInThread w2 = loopInThread w1" "cur_thread w2 = cur_thread w1" by auto
    have "ids_ok (nat (numThreads (threadPool v))) ids w2"
      using ids w1(10) w2(4,6,7) by (auto simp: new_ids_def ids_ok_def w2(3) split: prod.splits)
    note start = start_safe [OF K w2(1,2) this]
    show "starts K interest (\<lambda>w'. server_inv interest opened (echo_addr ia) (\<lambda>_. []) {} w' \<and> running 0 w') (TcpServer_start K False ids w2)"
    proof (rule runs_mono [OF start])
    fix w3 assume "server_inv interest opened (echo_addr ia) (\<lambda>_. []) {} w3 \<and>
       (\<forall>l el. loops w2 l = Some el \<longrightarrow> loops w3 l = Some el) \<and> cur_thread w3 = cur_thread w2"
    then have w3: "server_inv interest opened (echo_addr ia) (\<lambda>_. []) {} w3" "\<forall>l el. loops w2 l = Some el \<longrightarrow> loops w3 l = Some el"
      "cur_thread w3 = cur_thread w2" by blast+
    have "loops w3 0 = Some el'" using w3(2) w2(4) by simp
    moreover have "threadId el' = tid_of w3"
      using tid_of_eq [OF net_wfD(1) [OF server_invD(1) [OF w3(1)]]] w3(3) w2(5,8) w1(5) cn(2) by simp
    ultimately have "running 0 w3" by (simp add: running_def isInLoopThread_def)
    then show "server_inv interest opened (echo_addr ia) (\<lambda>_. []) {} w3 \<and> running 0 w3" using w3(1) by simp
    qed
  qed (use w1 in simp_all)
  qed
qed

text \<open>
  One pass of a loop, in its thread. The step relation: any loop makes a pass, or a connection to which
  no reference is left is destroyed.
\<close>

definition echo_turn :: "'k kernel \<Rightarrow> (('k, 'm) sworld_scheme \<Rightarrow> conn_id \<times> chan_id) \<Rightarrow> (('k, 'm) sworld_scheme \<Rightarrow> str_id) \<Rightarrow>
    (string \<Rightarrow> 32 word) \<Rightarrow> (nat \<Rightarrow> ('k, 'm) sworld_scheme \<Rightarrow> ('k, 'm) sworld_scheme res) \<Rightarrow> loop_id \<Rightarrow>
    ('k, 'm) sworld_scheme \<Rightarrow> ('k, 'm) sworld_scheme res" where
  "echo_turn K alloc fresh ia user l w = with_loop l w (\<lambda>el.
     loop_iter K (dispatch K (server_callbacks K (echo_callbacks K fresh)) alloc ia) conn_alive
       (run_task K (server_callbacks K (echo_callbacks K fresh)) user) l (w\<lparr>cur_thread := threadId el\<rparr>))"

abbreviation unreferenced :: "('k, 'm) sworld_scheme \<Rightarrow> conn_id \<Rightarrow> bool" where
  "unreferenced w c \<equiv> conns w c \<noteq> None \<and> \<not> held (\<lambda>_. []) w c"

inductive echo_reach :: "'k kernel \<Rightarrow> (('k, 'm) sworld_scheme \<Rightarrow> conn_id \<times> chan_id) \<Rightarrow> (('k, 'm) sworld_scheme \<Rightarrow> str_id) \<Rightarrow>
    (string \<Rightarrow> 32 word) \<Rightarrow> (nat \<Rightarrow> ('k, 'm) sworld_scheme \<Rightarrow> ('k, 'm) sworld_scheme res) \<Rightarrow>
    (nat \<Rightarrow> thread_ids) \<Rightarrow> ('k, 'm) sworld_scheme \<Rightarrow> ('k, 'm) sworld_scheme \<Rightarrow> bool"
  for K alloc fresh ia user ids w0 where
  started: "echo_start K False ia ids started0 w0 = Inr w \<Longrightarrow> echo_reach K alloc fresh ia user ids w0 w"
| passes: "echo_reach K alloc fresh ia user ids w0 w \<Longrightarrow> echo_turn K alloc fresh ia user l w = Inr w' \<Longrightarrow>
     echo_reach K alloc fresh ia user ids w0 w'"
| releases: "echo_reach K alloc fresh ia user ids w0 w \<Longrightarrow> unreferenced w c \<Longrightarrow> destroy_TcpConnection K c w = Inr w' \<Longrightarrow>
     echo_reach K alloc fresh ia user ids w0 w'"

lemma moved_thread: "moved (w\<lparr>cur_thread := x\<rparr>) w' = moved w w'"
  and caught_up_thread: "caught_up l (w\<lparr>cur_thread := x\<rparr>) w' = caught_up l w w'"
  by (simp_all add: moved_def onward_def caught_up_def listed_def polled_def)

lemma echo_turn_safe:
  assumes K: "server_kernel K interest opened" and alloc: "allocates alloc"
    and inv: "server_inv interest opened addr (\<lambda>_. []) {} w" and l: "loops w l \<noteq> None"
  shows "runs (exits K interest) (\<lambda>w'. server_inv interest opened addr (\<lambda>_. []) {} w' \<and> moved w w' \<and> caught_up l w w')
    (echo_turn K alloc fresh ia user l w)"
proof -
  obtain el where el: "loops w l = Some el" using l by blast
  let ?w = "w\<lparr>cur_thread := threadId el\<rparr>"
  have "server_inv interest opened addr (\<lambda>_. []) {} (w\<lparr>numCreated := numCreated w, cur_thread := threadId el, cachedTid := cachedTid w\<rparr>)"
    by (rule inv_cur_thread [OF inv]) simp
  then have i: "server_inv interest opened addr (\<lambda>_. []) {} ?w" by simp
  have "running l ?w"
    using el tid_of_eq [OF net_wfD(1) [OF server_invD(1) [OF i]]] by (simp add: running_def isInLoopThread_def)
  from echo.pass_keeps [OF K i this _ alloc, of fresh ia conn_alive user] el show ?thesis
    unfolding echo_turn_def with_loop_Some [OF el] by (auto elim!: runs_mono simp: caught_up_thread dest: threads_moved simp: moved_thread)
qed

lemma echo_reach_inv:
  assumes reach: "echo_reach K alloc fresh ia user ids w0 w" and K: "server_kernel K interest opened"
    and alloc: "allocates alloc" and w0: "blank w0" "new_ids (cur_thread w0) ids"
  shows "server_inv interest opened (echo_addr ia) (\<lambda>_. []) {} w"
  using reach
proof induction
  case (started started0 w)
  then show ?case using echo_start_safe [OF server_kernelD(1) [OF K] w0, of ia started0] by simp
next
  case (passes w l w')
  have "loops w l \<noteq> None" using passes.hyps(2) by (auto simp: echo_turn_def with_loop_def split: option.splits)
  then show ?case using echo_turn_safe [OF K alloc passes.IH, of l fresh ia user] passes.hyps(2) by simp
next
  case (releases w c w')
  then show ?case using release_safe [OF server_kernelD(1) [OF K] releases.IH, of c] by auto
qed

end
