(* ===== verification/EchoRun.thy ===== *)
theory EchoRun
  imports EchoLife
begin

text \<open>
  One concrete run of the example program, for the instances of its properties: the program starts with
  an uninitialised \<^verbatim>\<open>started_\<close> that is not 0 (so it has one loop), accepts a connection in the first pass of the
  loop and sees it closed by the peer in the second.
\<close>

section \<open>The states of the run\<close>

text \<open>Nothing exists; the kernel will report the listening channel, then the channel of the connection.\<close>

definition demo_blank :: "byte list \<Rightarrow> sim sworld" where
  "demo_blank bs = \<lparr>wsys = \<lparr>os = sim0\<lparr>sim_in := bs, sim_room := 2,
       sim_ready := [\<lparr>ev_events = EPOLLIN, ev_ptr = 1\<rparr>, \<lparr>ev_events = EPOLLIN, ev_ptr = 9\<rparr>]\<rparr>, logs = []\<rparr>,
     chans = (\<lambda>_. None), loops = (\<lambda>_. None), cachedTid = (\<lambda>_. 0), cur_thread = 7, loopInThread = (\<lambda>_. None),
     numCreated = 0, acceptor_obj = None, conns = (\<lambda>_. None), strings = (\<lambda>_. None), server = None\<rparr>"

definition demo_ipPort :: string where "demo_ipPort = toIp (echo_addr (\<lambda>_. 0)) @ '':'' @ dec (unat (toPort (echo_addr (\<lambda>_. 0))))"


definition demo_srv :: "int \<Rightarrow> (string \<times> conn_id) list \<Rightarrow> tcp_server" where
  "demo_srv n cs = \<lparr>srv_connectionCallback = Some onConnection_ref, srv_messageCallback = Some onMessage_ref,
     srv_threadInitCallback = None, srv_writeCompleteCallback = None, srv_loop = 0, ipPort = demo_ipPort,
     srv_name = ''EchoServer-01'',
     threadPool = \<lparr>baseLoop = 0, pool_name = ''EchoServer-01'', numThreads = 3, pool_started = False, pool_next = 0,
       pool_threads = [], pool_loops = []\<rparr>,
     srv_started = 2, nextConnId = n, connections = cs\<rparr>"

definition demo_main_loop :: "(fd \<rightharpoonup> chan_id) \<Rightarrow> epoll_event list \<Rightarrow> chan_id list \<Rightarrow> Timestamp \<Rightarrow> event_loop" where
  "demo_main_loop m evs active tm = \<lparr>looping = False, loop_quit = False, threadId = 7, wakeupFd = 6, wakeupChannel = 0,
     pollReturnTime = tm,
     loop_poller = Some \<lparr>ownerLoop = 0, po_channels = m, epollfd = 7, po_events = evs\<rparr>,
     activeChannels = active, callingPendingFunctors = False, pendingFunctors = []\<rparr>"

definition demo_sim :: "byte list \<Rightarrow> nat \<Rightarrow> interest_list \<Rightarrow> epoll_event list \<Rightarrow> sim" where
  "demo_sim bs n il evs = \<lparr>sim_in = bs, sim_out = (\<lambda>_. []), sim_room = 2, sim_interest = (\<lambda>_ _. None)(7 := il),
     sim_ready = evs, sim_counter = 0, sim_next = n, sim_closed = []\<rparr>"

definition demo_run :: "sim \<Rightarrow> channels \<Rightarrow> event_loop \<Rightarrow> tcp_server \<Rightarrow> (conn_id \<rightharpoonup> tcp_connection) \<Rightarrow> sim sworld" where
  "demo_run k cs el v ts = \<lparr>wsys = \<lparr>os = k, logs = []\<rparr>, chans = cs, loops = [0 \<mapsto> el], cachedTid = (\<lambda>_. 0), cur_thread = 7,
     loopInThread = [7 \<mapsto> 0], numCreated = 0,
     acceptor_obj = Some \<lparr>acc_loop = 0, acceptSocket = \<lparr>sockfd = 8\<rparr>, acceptChannel = 1,
       newConnectionCallback = Some newConnection_ref, listenning = True\<rparr>,
     conns = ts, strings = (\<lambda>_. None), server = Some v\<rparr>"

definition demo_wake :: channel where
  "demo_wake = setReadCallback (LoopHandleRead 0) (set_index 1 (request EnableReading (mk_Channel 0 6)))"
definition demo_accept :: channel where
  "demo_accept = setReadCallback AcceptorHandleRead (set_index 1 (request EnableReading (mk_Channel 0 8)))"

definition demo_listening :: "byte list \<Rightarrow> sim sworld" where
  "demo_listening bs = demo_run
     (demo_sim bs 6 [6 \<mapsto> \<lparr>ev_events = 3, ev_ptr = 0\<rparr>, 8 \<mapsto> \<lparr>ev_events = 3, ev_ptr = 1\<rparr>]
        [\<lparr>ev_events = EPOLLIN, ev_ptr = 1\<rparr>, \<lparr>ev_events = EPOLLIN, ev_ptr = 9\<rparr>])
     [0 \<mapsto> demo_wake, 1 \<mapsto> demo_accept] (demo_main_loop [6 \<mapsto> 0, 8 \<mapsto> 1] (replicate kInitEventListSize zero_event) [] Timestamp_zero) (demo_srv 1 []) (\<lambda>_. None)"

definition demo_name :: string where "demo_name = connName (demo_srv 1 []) 1"

definition demo_peer :: "tcp_connection" where
  "demo_peer = \<lparr>connectionCallback = Some onConnection_ref, messageCallback = Some onMessage_ref,
     writeCompleteCallback = None, highWaterMarkCallback = None, conn_closeCallback = Some removeConnection_ref, conn_loop = 0,
     conn_name = demo_name, conn_state = KConnected, reading = True, conn_socket = \<lparr>sockfd = 9\<rparr>, conn_channel = 9,
     localAddr = InetAddress_of zero_sockaddr,
     peerAddr = setSockAddr zero_sockaddr (mk_InetAddress (\<lambda>_. 0) 0 ''127.0.0.1''), highWaterMark = defaultHighWaterMark,
     inputBuffer = \<lparr>buf_data = replicate 1032 0, readerIndex = 8, writerIndex = 8\<rparr>,
     outputBuffer = \<lparr>buf_data = replicate 1032 0, readerIndex = 8, writerIndex = 8\<rparr>\<rparr>"

definition demo_open :: "byte list \<Rightarrow> sim sworld" where
  "demo_open bs = demo_run
     (demo_sim bs 7 [6 \<mapsto> \<lparr>ev_events = 3, ev_ptr = 0\<rparr>, 8 \<mapsto> \<lparr>ev_events = 3, ev_ptr = 1\<rparr>, 9 \<mapsto> \<lparr>ev_events = 3, ev_ptr = 9\<rparr>]
        [\<lparr>ev_events = EPOLLIN, ev_ptr = 9\<rparr>])
     [0 \<mapsto> demo_wake, 1 \<mapsto> set_revents EPOLLIN demo_accept,
      9 \<mapsto> set_index 1 (request EnableReading (tie 5 (conn_channel_init 5 0 9)))]
     (demo_main_loop [6 \<mapsto> 0, 8 \<mapsto> 1, 9 \<mapsto> 9] (overwrite (replicate kInitEventListSize zero_event) 0 [\<lparr>ev_events = EPOLLIN, ev_ptr = 1\<rparr>]) [1] (Timestamp_now 0)) (demo_srv 2 [(demo_name, 5)])
     [5 \<mapsto> demo_peer]"


text \<open>The peer has closed: the connection object is left with no reference to it, its descriptor is still open.\<close>

definition demo_closed :: "sim sworld" where
  "demo_closed = (demo_run
     (demo_sim [] 7 [6 \<mapsto> \<lparr>ev_events = 3, ev_ptr = 0\<rparr>, 8 \<mapsto> \<lparr>ev_events = 3, ev_ptr = 1\<rparr>] [])
     [0 \<mapsto> demo_wake, 1 \<mapsto> set_revents EPOLLIN demo_accept,
      9 \<mapsto> set_revents EPOLLIN (tie 5 (conn_channel_init 5 0 9))]
     (demo_main_loop [6 \<mapsto> 0, 8 \<mapsto> 1]
        (overwrite (overwrite (replicate kInitEventListSize zero_event) 0 [\<lparr>ev_events = EPOLLIN, ev_ptr = 1\<rparr>]) 0
           [\<lparr>ev_events = EPOLLIN, ev_ptr = 9\<rparr>]) [9] (Timestamp_now 0))
     (demo_srv 2 [])
     [5 \<mapsto> demo_peer\<lparr>conn_state := KDisconnected,
        inputBuffer := (inputBuffer demo_peer)\<lparr>buf_data := overwrite (replicate 1032 0) 8 []\<rparr>\<rparr>])
     \<lparr>wsys := log_error ''epoll_ctl del fd=%d: already removed or not added''
        \<lparr>os = demo_sim [] 7 [6 \<mapsto> \<lparr>ev_events = 3, ev_ptr = 0\<rparr>, 8 \<mapsto> \<lparr>ev_events = 3, ev_ptr = 1\<rparr>] [], logs = []\<rparr>\<rparr>"

definition demo_alloc :: "sim sworld \<Rightarrow> conn_id \<times> chan_id" where
  "demo_alloc w = (if conns w 5 = None then 5 else LEAST c. conns w c = None,
     if chans w 9 = None then 9 else LEAST i. chans w i = None)"

definition demo_new_ids :: "nat \<Rightarrow> thread_ids" where
  "demo_new_ids i = (int (100 + i), 1 + i, 2 + i)"

section \<open>The run\<close>

lemmas demo_run_defs = demo_run_def demo_sim_def demo_main_loop_def demo_srv_def demo_wake_def demo_accept_def

lemmas world_defs = put_loop_def put_chan_def put_sys_def with_loop_def with_chan_def call_os_def tid_of_def cacheTid_def
  Let_def live_fresh_def sim_ctl_def ctl_applicable_def ctl_apply_def mk_Channel_def setReadCallback_def request_def
  set_index_def Channel_request_def Channel_update_def loop_updateChannel_def lift_poller_def ep_update_def kNew_def
  kAdded_def kDeleted_def isNoneEvent_def event_defs with_acceptor_def with_server_def put_server_def runInLoop_def
  isInLoopThread_def toIpPort_eq CheckLoopNotNull_def

lemmas start_defs = mk_EventLoop_def createEventfd_def newDefaultPoller_def mk_EPollPoller_def mk_EchoServer_def
  mk_TcpServer_def mk_Acceptor_def createNonblocking_def bindAddress_def setReuseAddr_def setReusePort_def
  setNewConnectionCallback_def TcpServer_setThreadNum_def Acceptor_listen_def Socket_listen_def TcpServer_start_def
  setThreadNum_def mk_EventLoopThreadPool_def srv_setMessageCallback_def srv_setConnectionCallback_def

lemmas turn_defs = echo_turn_def loop_iter_def loop_poll_def handleEvent_def handleEventWithGuard_def call_if_def
  wants_close_def wants_error_def wants_write_def wants_read_def doPendingFunctors_def live_reported_def
  kInitEventListSize_def set_revents_def

lemmas accept_defs = Acceptor_handleRead_def Socket_accept_def newConnection_def register_connection_def getNextLoop_def
  getAllLoops_def mk_TcpConnection_def mk_Buffer_default tie_def setKeepAlive_def conn_setCloseCallback_def
  setWriteCompleteCallback_def setMessageCallback_def setConnectionCallback_def connectionEstablished_def invoke_def
  server_callbacks_def echo_callbacks_def onConnection_def with_conn_def put_conn_def set_conn_state_def
  conn_channel_init_def setCloseCallback_def setErrorCallback_def setWriteCallback_def

lemmas close_defs = conn_handleRead_def readFd_def writableBytes_def vec_size_def extrabuf_size_def copy_to_def
  conn_handleClose_def removeConnection_def removeConnectionInLoop_def queueInLoop_def connectionDestroyed_def
  Channel_remove_def loop_removeChannel_def conn_alive_def ctl_errno_def

lemma demo_upto:
  "[0..<9] = [0, 1, 2, 3, 4, 5, 6, 7, 8]" "[0..<10] = [0, 1, 2, 3, 4, 5, 6, 7, 8, 9]"
  by (simp_all add: upt_rec)

lemma demo_reported:
  "take (Suc 0) (overwrite (replicate 16 zero_event) 0 [e]) = [e]"
  "take (Suc 0) (overwrite (overwrite (replicate 16 zero_event) 0 [d]) 0 [e]) = [e]"
  by (simp_all add: overwrite_def)

lemma demo_starts: "echo_start live_kernel False (\<lambda>_. 0) demo_new_ids 1 (demo_blank bs) = Inr (demo_listening bs)"
  by (simp add: demo_blank_def echo_start_def start_defs live_calls sim0_def world_defs demo_listening_def demo_run_defs
      demo_ipPort_def)

lemma demo_accepts: "echo_turn live_kernel demo_alloc (\<lambda>_. 0) (\<lambda>_. 0) (\<lambda>_. Inr) 0 (demo_listening bs) = Inr (demo_open bs)"
  by (simp add: demo_listening_def demo_run_defs turn_defs accept_defs live_calls world_defs demo_upto demo_reported
      demo_open_def demo_peer_def demo_name_def demo_alloc_def)

lemma demo_closes: "echo_turn live_kernel demo_alloc (\<lambda>_. 0) (\<lambda>_. 0) (\<lambda>_. Inr) 0 (demo_open []) = Inr demo_closed"
  by (simp add: demo_open_def demo_peer_def demo_run_defs turn_defs accept_defs close_defs live_calls world_defs demo_upto
      demo_reported demo_closed_def)

section \<open>The states are reachable\<close>

abbreviation demo_reach :: "byte list \<Rightarrow> sim sworld \<Rightarrow> bool" where
  "demo_reach bs \<equiv> echo_reach live_kernel demo_alloc (\<lambda>_. 0) (\<lambda>_. 0) (\<lambda>_. Inr) demo_new_ids (demo_blank bs)"

lemma demo_alloc_ok: "allocates demo_alloc"
  unfolding allocates_def
proof (intro allI impI)
  have free: "m (LEAST n. m n = None) = None" if "finite (dom m)" for m :: "nat \<rightharpoonup> 'b"
  proof -
    obtain n where "n \<notin> dom m" using ex_new_if_finite [OF infinite_UNIV_nat \<open>finite (dom m)\<close>] by blast
    then have "m n = None" by blast
    then show ?thesis by (rule LeastI)
  qed
  fix w :: "sim sworld" assume "finite (dom (conns w)) \<and> finite (dom (chans w))"
  then show "conns w (fst (demo_alloc w)) = None \<and> chans w (snd (demo_alloc w)) = None"
    using free [of "conns w"] free [of "chans w"] by (simp add: demo_alloc_def)
qed

lemma demo_blank_ok: "blank (demo_blank bs)" "new_ids (cur_thread (demo_blank bs)) demo_new_ids"
  by (simp_all add: blank_def cache_ok_def demo_blank_def new_ids_def demo_new_ids_def)

lemma demo_reach_listening: "demo_reach bs (demo_listening bs)"
  by (rule echo_reach.started [OF demo_starts])

lemma demo_reach_open: "demo_reach bs (demo_open bs)"
  by (rule echo_reach.passes [OF demo_reach_listening demo_accepts])

lemma demo_reach_closed: "demo_reach [] demo_closed"
  by (rule echo_reach.passes [OF demo_reach_open demo_closes])

lemma demo_open_conn: "conns (demo_open bs) 5 = Some demo_peer" "conn_state demo_peer = KConnected" "conn_channel demo_peer = 9"
  "conn_name demo_peer = demo_name" "server (demo_open bs) = Some (demo_srv 2 [(demo_name, 5)])"
  by (simp_all add: demo_open_def demo_run_def demo_peer_def)

lemma demo_closed_free: "unreferenced demo_closed 5"
  "conns demo_closed 5 = Some (demo_peer\<lparr>conn_state := KDisconnected,
     inputBuffer := (inputBuffer demo_peer)\<lparr>buf_data := overwrite (replicate 1032 0) 8 []\<rparr>\<rparr>)"
  by (simp_all add: demo_closed_def demo_run_defs held_def listed_def owed_def)

end
