(* ===== verification/EchoTeam.thy ===== *)
theory EchoTeam
  imports EchoRun
begin

text \<open>
  A second concrete run of the example program, with the pool's three threads: the server's loop accepts a
  connection and hands it over to the loop of the first thread, which brings it up in its next pass and sees
  it closed by the peer in the one after.
\<close>

section \<open>The states of the run\<close>

definition team_loop :: "loop_id \<Rightarrow> tid \<Rightarrow> (fd \<rightharpoonup> chan_id) \<Rightarrow> epoll_event list \<Rightarrow> chan_id list \<Rightarrow> Timestamp \<Rightarrow> task list \<Rightarrow> event_loop" where
  "team_loop l th m evs active tm ts = \<lparr>looping = False, loop_quit = False, threadId = th, wakeupFd = 7 + 2 * int l,
     wakeupChannel = 1 + l, pollReturnTime = tm,
     loop_poller = Some \<lparr>ownerLoop = l, po_channels = m, epollfd = 8 + 2 * int l, po_events = evs\<rparr>,
     activeChannels = active, callingPendingFunctors = False, pendingFunctors = ts\<rparr>"

definition team_threads :: "nat \<Rightarrow> event_loop_thread" where
  "team_threads i = \<lparr>elt_loop = Some (1 + i), exiting = False, elt_thread = \<lparr>thr_started = True, thr_joined = False, thr_tid = 100 + int i,
     thr_name = ''EchoServer-01'' @ fmt_d (int i)\<rparr>\<rparr>"

definition team_srv :: "int \<Rightarrow> int \<Rightarrow> (string \<times> conn_id) list \<Rightarrow> tcp_server" where
  "team_srv n nx cs = \<lparr>srv_connectionCallback = Some onConnection_ref, srv_messageCallback = Some onMessage_ref,
     srv_threadInitCallback = None, srv_writeCompleteCallback = None, srv_loop = 0, ipPort = demo_ipPort,
     srv_name = ''EchoServer-01'',
     threadPool = \<lparr>baseLoop = 0, pool_name = ''EchoServer-01'', numThreads = 3, pool_started = True, pool_next = nx,
       pool_threads = [team_threads 0, team_threads 1, team_threads 2], pool_loops = [1, 2, 3]\<rparr>,
     srv_started = 1, nextConnId = n, connections = cs\<rparr>"

definition team_wake :: "loop_id \<Rightarrow> channel" where
  "team_wake l = setReadCallback (LoopHandleRead l) (set_index 1 (request EnableReading (mk_Channel l (7 + 2 * int l))))"

definition idle_events :: "epoll_event list" where "idle_events = replicate kInitEventListSize zero_event"

definition team_run :: "sim \<Rightarrow> (chan_id \<rightharpoonup> channel) \<Rightarrow> event_loop \<Rightarrow> event_loop \<Rightarrow> tcp_server \<Rightarrow> (conn_id \<rightharpoonup> tcp_connection) \<Rightarrow> tid \<Rightarrow> sim sworld" where
  "team_run k cs el el1 v ts th = \<lparr>wsys = \<lparr>os = k, logs = []\<rparr>,
     chans = cs(3 \<mapsto> team_wake 2, 4 \<mapsto> team_wake 3),
     loops = [0 \<mapsto> el, 1 \<mapsto> el1, 2 \<mapsto> team_loop 2 101 [11 \<mapsto> 3] idle_events [] Timestamp_zero [],
        3 \<mapsto> team_loop 3 102 [13 \<mapsto> 4] idle_events [] Timestamp_zero []],
     cachedTid = (\<lambda>_. 0)(100 := 100, 101 := 101, 102 := 102), cur_thread = th,
     loopInThread = [7 \<mapsto> 0, 100 \<mapsto> 1, 101 \<mapsto> 2, 102 \<mapsto> 3], numCreated = 3,
     acceptor_obj = Some \<lparr>acc_loop = 0, acceptSocket = \<lparr>sockfd = 8\<rparr>, acceptChannel = 1,
       newConnectionCallback = Some newConnection_ref, listenning = True\<rparr>,
     conns = ts, strings = (\<lambda>_. None), server = Some v\<rparr>"

definition team_sim :: "nat \<Rightarrow> interest_list \<Rightarrow> interest_list \<Rightarrow> epoll_event list \<Rightarrow> sim" where
  "team_sim n il il1 evs = \<lparr>sim_in = [], sim_out = (\<lambda>_. []), sim_room = 100,
     sim_interest = (\<lambda>_ _. None)(7 := il, 10 := il1, 12 := [11 \<mapsto> \<lparr>ev_events = 3, ev_ptr = 3\<rparr>], 14 := [13 \<mapsto> \<lparr>ev_events = 3, ev_ptr = 4\<rparr>]),
     sim_ready = evs, sim_counter = 0, sim_next = n, sim_closed = []\<rparr>"

text \<open>The kernel reports the listening socket, the eventfd of the first thread, then the connection.\<close>

definition ready_events :: "epoll_event list" where
  "ready_events = [\<lparr>ev_events = EPOLLIN, ev_ptr = 1\<rparr>, \<lparr>ev_events = EPOLLIN, ev_ptr = 2\<rparr>, \<lparr>ev_events = EPOLLIN, ev_ptr = 9\<rparr>]"

definition team_blank :: "sim sworld" where
  "team_blank = (demo_blank [])\<lparr>wsys := \<lparr>os = sim0\<lparr>sim_room := 100, sim_ready := ready_events\<rparr>, logs = []\<rparr>\<rparr>"

definition team_listening :: "sim sworld" where
  "team_listening = team_run
     (team_sim 12 [6 \<mapsto> \<lparr>ev_events = 3, ev_ptr = 0\<rparr>, 8 \<mapsto> \<lparr>ev_events = 3, ev_ptr = 1\<rparr>] [9 \<mapsto> \<lparr>ev_events = 3, ev_ptr = 2\<rparr>] ready_events)
     [0 \<mapsto> demo_wake, 1 \<mapsto> demo_accept, 2 \<mapsto> team_wake 1]
     (demo_main_loop [6 \<mapsto> 0, 8 \<mapsto> 1] idle_events [] Timestamp_zero)
     (team_loop 1 100 [9 \<mapsto> 2] idle_events [] Timestamp_zero [])
     (team_srv 1 0 []) (\<lambda>_. None) 7"

definition team_peer :: "StateE \<Rightarrow> tcp_connection" where
  "team_peer st = demo_peer\<lparr>conn_loop := 1, conn_socket := \<lparr>sockfd = 15\<rparr>, conn_name := connName (team_srv 1 0 []) 1, conn_state := st\<rparr>"

text \<open>The server's loop has accepted the connection; the first thread's loop has brought it up.\<close>

definition team_pending :: "sim sworld" where
  "team_pending = team_run
     ((team_sim 13 [6 \<mapsto> \<lparr>ev_events = 3, ev_ptr = 0\<rparr>, 8 \<mapsto> \<lparr>ev_events = 3, ev_ptr = 1\<rparr>] [9 \<mapsto> \<lparr>ev_events = 3, ev_ptr = 2\<rparr>] (tl ready_events))
        \<lparr>sim_out := (\<lambda>_. [])(9 := map Byte one_bytes), sim_room := 92\<rparr>)
     [0 \<mapsto> demo_wake, 1 \<mapsto> set_revents EPOLLIN demo_accept, 2 \<mapsto> team_wake 1, 9 \<mapsto> conn_channel_init 5 1 15]
     (demo_main_loop [6 \<mapsto> 0, 8 \<mapsto> 1] (overwrite idle_events 0 [\<lparr>ev_events = EPOLLIN, ev_ptr = 1\<rparr>]) [1] (Timestamp_now 0))
     (team_loop 1 100 [9 \<mapsto> 2] idle_events [] Timestamp_zero [ConnectionEstablished 5])
     (team_srv 2 1 [(connName (team_srv 1 0 []) 1, 5)]) [5 \<mapsto> team_peer KConnecting] 7"

definition team_up :: "sim sworld" where
  "team_up = team_run
     ((team_sim 13 [6 \<mapsto> \<lparr>ev_events = 3, ev_ptr = 0\<rparr>, 8 \<mapsto> \<lparr>ev_events = 3, ev_ptr = 1\<rparr>]
         [9 \<mapsto> \<lparr>ev_events = 3, ev_ptr = 2\<rparr>, 15 \<mapsto> \<lparr>ev_events = 3, ev_ptr = 9\<rparr>] (tl (tl ready_events)))
        \<lparr>sim_out := (\<lambda>_. [])(9 := map Byte one_bytes), sim_room := 92\<rparr>)
     [0 \<mapsto> demo_wake, 1 \<mapsto> set_revents EPOLLIN demo_accept, 2 \<mapsto> set_revents EPOLLIN (team_wake 1),
      9 \<mapsto> set_index 1 (request EnableReading (tie 5 (conn_channel_init 5 1 15)))]
     (demo_main_loop [6 \<mapsto> 0, 8 \<mapsto> 1] (overwrite idle_events 0 [\<lparr>ev_events = EPOLLIN, ev_ptr = 1\<rparr>]) [1] (Timestamp_now 0))
     (team_loop 1 100 [9 \<mapsto> 2, 15 \<mapsto> 9] (overwrite idle_events 0 [\<lparr>ev_events = EPOLLIN, ev_ptr = 2\<rparr>]) [2] (Timestamp_now 0) [])
     (team_srv 2 1 [(connName (team_srv 1 0 []) 1, 5)]) [5 \<mapsto> team_peer KConnected] 100"

section \<open>The run\<close>

lemmas thread_defs = pool_start_def start_thread_def mk_EventLoopThread_def mk_Thread_def startLoop_def threadFunc_init_def
  enter_thread_def thread_name_def setDefaultName_def snprintf_def Thread_start_def

lemmas team_defs = team_loop_def team_threads_def team_srv_def team_wake_def idle_events_def team_run_def team_sim_def
  ready_events_def demo_run_defs

lemma team_numerals: "(2 :: nat) = Suc (Suc 0)" "(3 :: nat) = Suc (Suc (Suc 0))" "(4 :: nat) = Suc (Suc (Suc (Suc 0)))"
  "[0..<3] = [0, 1, 2]"
  by (simp_all add: upt_rec)

lemma team_upto:
  "[0..<15] = [0, 1, 2, 3, 4, 5, 6, 7, 8, 9, 10, 11, 12, 13, 14]"
  "[0..<16] = [0, 1, 2, 3, 4, 5, 6, 7, 8, 9, 10, 11, 12, 13, 14, 15]"
  by (simp_all add: upt_rec)

lemma live_eventfd:
  "sys_write live_kernel f bs k = (let n = min (sim_room k) (length bs) in
     ((int n, 0), k\<lparr>sim_out := (sim_out k)(f := sim_out k f @ map Byte (take n bs)), sim_room := sim_room k - n\<rparr>))"
  "sys_read8 live_kernel f k = ((8, 0), k\<lparr>sim_counter := 0\<rparr>)"
  by (simp_all add: live_kernel_def sim_kernel_def)

lemmas team_turn_defs = team_defs turn_defs accept_defs close_defs wakeup_def loop_handleRead_def live_calls live_eventfd
  world_defs team_upto demo_reported demo_alloc_def team_peer_def demo_peer_def one_bytes_def

lemma team_starts: "echo_start live_kernel False (\<lambda>_. 0) demo_new_ids 0 team_blank = Inr team_listening"
  by (simp add: team_blank_def team_listening_def team_defs demo_blank_def echo_start_def start_defs live_calls sim0_def
      world_defs thread_defs demo_new_ids_def demo_ipPort_def team_numerals dec.simps)

lemma team_accepts: "echo_turn live_kernel demo_alloc (\<lambda>_. 0) (\<lambda>_. 0) (\<lambda>_. Inr) 0 team_listening = Inr team_pending"
  by (simp add: team_turn_defs team_numerals team_listening_def team_pending_def) (intro conjI ext; simp)

lemma team_comes_up: "echo_turn live_kernel demo_alloc (\<lambda>_. 0) (\<lambda>_. 0) (\<lambda>_. Inr) 1 team_pending = Inr team_up"
  by (simp add: team_turn_defs team_numerals team_pending_def team_up_def) (intro conjI ext; simp)

lemma team_goes_down:
  "\<exists>w t v. echo_turn live_kernel demo_alloc (\<lambda>_. 0) (\<lambda>_. 0) (\<lambda>_. Inr) 1 team_up = Inr w \<and> conns w 5 = Some t \<and>
     conn_state t = KDisconnected \<and> conn_loop t = 1 \<and> server w = Some v \<and> srv_loop v = 0 \<and> listed w 5"
  by (simp add: team_turn_defs team_up_def listed_def)

section \<open>The states are reachable\<close>

abbreviation team_reach :: "sim sworld \<Rightarrow> bool" where
  "team_reach \<equiv> echo_reach live_kernel demo_alloc (\<lambda>_. 0) (\<lambda>_. 0) (\<lambda>_. Inr) demo_new_ids team_blank"

lemma team_blank_ok: "blank team_blank" "new_ids (cur_thread team_blank) demo_new_ids"
  using demo_blank_ok [of "[]"] by (simp_all add: team_blank_def blank_def cache_ok_def)

lemma team_reach_pending: "team_reach team_pending"
  by (rule echo_reach.passes [OF echo_reach.started [OF team_starts] team_accepts])

lemma team_reach_up: "team_reach team_up"
  by (rule echo_reach.passes [OF team_reach_pending team_comes_up])

lemma team_reach_down:
  "\<exists>w t v. team_reach w \<and> conns w 5 = Some t \<and> conn_state t = KDisconnected \<and> conn_loop t = 1 \<and>
     server w = Some v \<and> srv_loop v = 0 \<and> listed w 5"
  using team_goes_down echo_reach.passes [OF team_reach_up] by blast

lemma team_pending_conn: "conns team_pending 5 = Some (team_peer KConnecting)" "conn_state (team_peer st) = st"
  "conn_loop (team_peer st) = 1"
  by (simp_all add: team_pending_def team_run_def team_peer_def)

end
