(* ===== verification/EchoProgress.thy ===== *)
theory EchoProgress
  imports EchoProgram EchoTeam
begin

text \<open>
  Progress of the example program: no connection is forgotten, and whatever the order in which the loops take
  their turns, a connection comes up as soon as its loop has had a turn, and one that went down is
  cleaned up after a turn of the server's loop and then one of its own.
\<close>

section \<open>Turns in any order\<close>

definition echo_turns :: "'k kernel \<Rightarrow> (('k, 'm) sworld_scheme \<Rightarrow> conn_id \<times> chan_id) \<Rightarrow> (('k, 'm) sworld_scheme \<Rightarrow> str_id) \<Rightarrow>
    (string \<Rightarrow> 32 word) \<Rightarrow> (nat \<Rightarrow> ('k, 'm) sworld_scheme \<Rightarrow> ('k, 'm) sworld_scheme res) \<Rightarrow> loop_id list \<Rightarrow>
    ('k, 'm) sworld_scheme \<Rightarrow> ('k, 'm) sworld_scheme res" where
  "echo_turns K alloc fresh ia user ls = fold_r (echo_turn K alloc fresh ia user) ls"

lemma turns_mid:
  assumes pre: "runs (exits K interest) P (echo_turns K alloc fresh ia user as w)" and P: "\<And>u. P u \<Longrightarrow> runs (exits K interest) Q (echo_turns K alloc fresh ia user bs u)"
  shows "runs (exits K interest) Q (echo_turns K alloc fresh ia user (as @ bs) w)"
  unfolding echo_turns_def fold_r_append
  using runs_bind [OF pre [unfolded echo_turns_def], of Q] P [unfolded echo_turns_def] by blast

lemma turn_last:
  assumes "runs (exits K interest) P (echo_turn K alloc fresh ia user l w)"
  shows "runs (exits K interest) P (echo_turns K alloc fresh ia user [l] w)"
  using assms by (cases "echo_turn K alloc fresh ia user l w") (simp_all add: echo_turns_def)

lemma turns_safe:
  assumes K: "server_kernel K interest opened" and alloc: "allocates alloc"
  shows "server_inv interest opened addr (\<lambda>_. []) {} w \<Longrightarrow> \<forall>l \<in> set ls. loops w l \<noteq> None \<Longrightarrow>
     runs (exits K interest) (\<lambda>w'. server_inv interest opened addr (\<lambda>_. []) {} w' \<and> moved w w') (echo_turns K alloc fresh ia user ls w)"
proof (induction ls arbitrary: w)
  case (Cons l ls)
  have "runs (exits K interest) (\<lambda>w'. server_inv interest opened addr (\<lambda>_. []) {} w' \<and> moved w w')
      (bind_r (echo_turn K alloc fresh ia user l w) (echo_turns K alloc fresh ia user ls))"
  proof (rule runs_bind [OF echo_turn_safe [OF K alloc Cons.prems(1)]])
    show "loops w l \<noteq> None" using Cons.prems(2) by simp
    fix u assume u: "server_inv interest opened addr (\<lambda>_. []) {} u \<and> moved w u \<and> caught_up l w u"
    then have "\<forall>l \<in> set ls. loops u l \<noteq> None" using Cons.prems(2) by (auto simp: moved_def)
    then have "runs (exits K interest) (\<lambda>w'. server_inv interest opened addr (\<lambda>_. []) {} w' \<and> moved u w') (echo_turns K alloc fresh ia user ls u)"
      using Cons.IH u by blast
    then show "runs (exits K interest) (\<lambda>w'. server_inv interest opened addr (\<lambda>_. []) {} w' \<and> moved w w') (echo_turns K alloc fresh ia user ls u)"
      by (rule runs_mono) (use u moved_trans in blast)
  qed
  then show ?case by (simp add: echo_turns_def)
qed (simp add: echo_turns_def)

text \<open>The loops of the server and of a connection exist.\<close>

lemma conn_loop_lives:
  assumes inv: "server_inv interest opened addr B X w" and t: "conns w c = Some t"
  shows "loops w (conn_loop t) \<noteq> None"
proof -
  obtain ch where ch: "chans w (conn_channel t) = Some ch" "conn_good X c t ch" using inv_connE [OF inv t] .
  then show ?thesis using net_wfD(6) [OF server_invD(1) [OF inv] ch(1)] by (simp add: conn_good_def conn_chan_def)
qed

lemma srv_loop_lives:
  "server_inv interest opened addr B X w \<Longrightarrow> server w = Some v \<Longrightarrow> loops w (srv_loop v) \<noteq> None"
  by (drule server_invD(4)) (auto elim!: server_okE simp: server_good_def)

lemma moved_conn:
  assumes "moved w w'" and "conns w c = Some t"
  shows "\<exists>t'. conns w' c = Some t' \<and> conn_loop t' = conn_loop t \<and>
     (conn_state t \<noteq> KConnecting \<longrightarrow> conn_state t' \<noteq> KConnecting) \<and>
     (conn_state t = KDisconnected \<longrightarrow> conn_state t' = KDisconnected) \<and> (\<not> listed w c \<longrightarrow> \<not> listed w' c) \<and>
     (conn_state t = KDisconnected \<and> \<not> polled w t \<longrightarrow> \<not> polled w' t')"
  using assms unfolding moved_def onward_def by blast

section \<open>A connection comes up\<close>

lemma comes_up:
  assumes K: "server_kernel K interest opened" and alloc: "allocates alloc"
    and inv: "server_inv interest opened addr (\<lambda>_. []) {} w" and t: "conns w c = Some t"
    and live: "\<forall>l \<in> set (as @ bs). loops w l \<noteq> None"
  shows "runs (exits K interest) (\<lambda>w'. \<exists>t'. conns w' c = Some t' \<and> conn_state t' \<noteq> KConnecting)
    (echo_turns K alloc fresh ia user (as @ [conn_loop t] @ bs) w)"
proof (rule turns_mid)
  have "\<forall>l \<in> set as. loops w l \<noteq> None" using live by simp
  then show "runs (exits K interest) (\<lambda>u. server_inv interest opened addr (\<lambda>_. []) {} u \<and> moved w u) (echo_turns K alloc fresh ia user as w)"
    by (rule turns_safe [OF K alloc inv])
  fix u assume u: "server_inv interest opened addr (\<lambda>_. []) {} u \<and> moved w u"
  obtain t1 where t1: "conns u c = Some t1" "conn_loop t1 = conn_loop t"
    using moved_conn [OF conjunct2 [OF u] t] by blast
  have l: "loops u (conn_loop t) \<noteq> None" using conn_loop_lives [OF conjunct1 [OF u] t1(1)] t1(2) by simp
  show "runs (exits K interest) (\<lambda>w'. \<exists>t'. conns w' c = Some t' \<and> conn_state t' \<noteq> KConnecting) (echo_turns K alloc fresh ia user ([conn_loop t] @ bs) u)"
  proof (rule turns_mid [OF turn_last [OF echo_turn_safe [OF K alloc conjunct1 [OF u] l]]])
    fix x assume x: "server_inv interest opened addr (\<lambda>_. []) {} x \<and> moved u x \<and> caught_up (conn_loop t) u x"
    then obtain t2 where t2: "conns x c = Some t2" "conn_state t2 \<noteq> KConnecting"
      using t1 unfolding caught_up_def by blast
    have "\<forall>l \<in> set bs. loops x l \<noteq> None" using live u x by (auto simp: moved_def)
    from turns_safe [OF K alloc conjunct1 [OF x] this, of fresh ia user]
    show "runs (exits K interest) (\<lambda>w'. \<exists>t'. conns w' c = Some t' \<and> conn_state t' \<noteq> KConnecting) (echo_turns K alloc fresh ia user bs x)"
      by (rule runs_mono) (use moved_conn [OF _ t2(1)] t2(2) in blast)
  qed
qed

section \<open>A connection is cleaned up\<close>

text \<open>Down and out of the map; down, out of the map and unknown to the poller. Both are kept.\<close>

definition unlisted :: "conn_id \<Rightarrow> loop_id \<Rightarrow> ('k, 'm) sworld_scheme \<Rightarrow> bool" where
  "unlisted c l w \<longleftrightarrow> (\<exists>t. conns w c = Some t \<and> conn_loop t = l \<and> conn_state t = KDisconnected \<and> \<not> listed w c)"

definition cleaned_up :: "conn_id \<Rightarrow> ('k, 'm) sworld_scheme \<Rightarrow> bool" where
  "cleaned_up c w \<longleftrightarrow> (\<exists>t. conns w c = Some t \<and> conn_state t = KDisconnected \<and> \<not> listed w c \<and> \<not> polled w t)"

lemma unlisted_stays: "unlisted c l w \<Longrightarrow> moved w w' \<Longrightarrow> unlisted c l w'"
  unfolding unlisted_def using moved_conn [of w w' c] by metis

lemma cleaned_up_stays: "cleaned_up c w \<Longrightarrow> moved w w' \<Longrightarrow> cleaned_up c w'"
  unfolding cleaned_up_def using moved_conn [of w w' c] by metis

lemma leaves_map:
  assumes K: "server_kernel K interest opened" and alloc: "allocates alloc"
    and inv: "server_inv interest opened addr (\<lambda>_. []) {} w" and v: "server w = Some v"
    and t: "conns w c = Some t" "conn_state t = KDisconnected"
  shows "runs (exits K interest) (\<lambda>w'. server_inv interest opened addr (\<lambda>_. []) {} w' \<and> moved w w' \<and> unlisted c (conn_loop t) w')
    (echo_turns K alloc fresh ia user [srv_loop v] w)"
proof (rule runs_mono [OF turn_last [OF echo_turn_safe [OF K alloc inv srv_loop_lives [OF inv v]]]])
  fix u assume u: "server_inv interest opened addr (\<lambda>_. []) {} u \<and> moved w u \<and> caught_up (srv_loop v) w u"
  then have "\<not> listed u c" using t v unfolding caught_up_def by auto
  moreover obtain t' where "conns u c = Some t'" "conn_loop t' = conn_loop t" "conn_state t' = KDisconnected"
    using moved_conn [of w u c t] u t by blast
  ultimately show "server_inv interest opened addr (\<lambda>_. []) {} u \<and> moved w u \<and> unlisted c (conn_loop t) u"
    using u by (auto simp: unlisted_def)
qed

lemma leaves_poller:
  assumes K: "server_kernel K interest opened" and alloc: "allocates alloc"
    and inv: "server_inv interest opened addr (\<lambda>_. []) {} w" and c: "unlisted c l w"
  shows "runs (exits K interest) (\<lambda>w'. server_inv interest opened addr (\<lambda>_. []) {} w' \<and> moved w w' \<and> cleaned_up c w')
    (echo_turns K alloc fresh ia user [l] w)"
proof -
  obtain t where t: "conns w c = Some t" "conn_loop t = l" "conn_state t = KDisconnected" "\<not> listed w c"
    using c by (auto simp: unlisted_def)
  have "loops w l \<noteq> None" using conn_loop_lives [OF inv t(1)] t(2) by simp
  from turn_last [OF echo_turn_safe [OF K alloc inv this, of fresh ia user]] show ?thesis
  proof (rule runs_mono)
    fix u assume u: "server_inv interest opened addr (\<lambda>_. []) {} u \<and> moved w u \<and> caught_up l w u"
    then obtain t' where t': "conns u c = Some t'" "\<not> polled u t'" using t unfolding caught_up_def by blast
    have "unlisted c l u" using unlisted_stays [OF c] u by blast
    then show "server_inv interest opened addr (\<lambda>_. []) {} u \<and> moved w u \<and> cleaned_up c u"
      using u t' by (auto simp: unlisted_def cleaned_up_def)
  qed
qed

lemma cleans_up:
  assumes K: "server_kernel K interest opened" and alloc: "allocates alloc"
    and inv: "server_inv interest opened addr (\<lambda>_. []) {} w" and v: "server w = Some v"
    and t: "conns w c = Some t" "conn_state t = KDisconnected"
    and live: "\<forall>l \<in> set (as @ bs @ ds). loops w l \<noteq> None"
  shows "runs (exits K interest) (\<lambda>w'. server_inv interest opened addr (\<lambda>_. []) {} w' \<and> cleaned_up c w')
    (echo_turns K alloc fresh ia user (as @ [srv_loop v] @ bs @ [conn_loop t] @ ds) w)"
proof (rule turns_mid)
  let ?l = "conn_loop t" and ?inv = "server_inv interest opened addr (\<lambda>_. []) {}"
  have "\<forall>l \<in> set as. loops w l \<noteq> None" using live by simp
  then show "runs (exits K interest) (\<lambda>u. ?inv u \<and> moved w u) (echo_turns K alloc fresh ia user as w)"
    by (rule turns_safe [OF K alloc inv])
  fix u assume u: "?inv u \<and> moved w u"
  from server_stays [OF inv conjunct1 [OF u] conjunct2 [OF u] v] obtain v1 where
    v1: "server u = Some v1" "srv_loop v1 = srv_loop v" by blast
  obtain t1 where t1: "conns u c = Some t1" "conn_loop t1 = ?l" "conn_state t1 = KDisconnected"
    using moved_conn [OF conjunct2 [OF u] t(1)] t(2) by blast
  show "runs (exits K interest) (\<lambda>w'. ?inv w' \<and> cleaned_up c w') (echo_turns K alloc fresh ia user ([srv_loop v] @ bs @ [?l] @ ds) u)"
  proof (rule turns_mid)
    show "runs (exits K interest) (\<lambda>x. ?inv x \<and> moved u x \<and> unlisted c ?l x) (echo_turns K alloc fresh ia user [srv_loop v] u)"
      using leaves_map [OF K alloc conjunct1 [OF u] v1(1) t1(1,3), of fresh ia user] v1(2) t1(2) by simp
    fix x assume x: "?inv x \<and> moved u x \<and> unlisted c ?l x"
    then have wx: "moved w x" using u moved_trans by blast
    show "runs (exits K interest) (\<lambda>w'. ?inv w' \<and> cleaned_up c w') (echo_turns K alloc fresh ia user (bs @ [?l] @ ds) x)"
    proof (rule turns_mid)
      have "\<forall>l \<in> set bs. loops x l \<noteq> None" using live wx by (auto simp: moved_def)
      with x show "runs (exits K interest) (\<lambda>y. ?inv y \<and> moved x y) (echo_turns K alloc fresh ia user bs x)"
        by (intro turns_safe [OF K alloc]) simp_all
      fix y assume y: "?inv y \<and> moved x y"
      then have wy: "moved w y" "unlisted c ?l y" using wx moved_trans unlisted_stays x by blast+
      show "runs (exits K interest) (\<lambda>w'. ?inv w' \<and> cleaned_up c w') (echo_turns K alloc fresh ia user ([?l] @ ds) y)"
      proof (rule turns_mid [OF leaves_poller [OF K alloc conjunct1 [OF y] wy(2)]])
        fix z assume z: "?inv z \<and> moved y z \<and> cleaned_up c z"
        then have "\<forall>l \<in> set ds. loops z l \<noteq> None" using live wy(1) by (auto simp: moved_def)
        with z have "runs (exits K interest) (\<lambda>w'. ?inv w' \<and> moved z w') (echo_turns K alloc fresh ia user ds z)"
          by (intro turns_safe [OF K alloc]) simp_all
        then show "runs (exits K interest) (\<lambda>w'. ?inv w' \<and> cleaned_up c w') (echo_turns K alloc fresh ia user ds z)"
          by (rule runs_mono) (use z cleaned_up_stays in blast)
      qed
    qed
  qed
qed

section \<open>Nothing is forgotten\<close>

definition pending :: "('k, 'm) world_scheme \<Rightarrow> loop_id \<Rightarrow> task \<Rightarrow> bool" where
  "pending w l tk \<longleftrightarrow> (\<exists>el. loops w l = Some el \<and> tk \<in> set (pendingFunctors el))"

lemma due_pending:
  assumes inv: "server_inv interest opened addr (\<lambda>_. []) {} w" and "conns w c = Some t" "due w c t = Some (l, tk)"
  shows "pending w l tk"
proof -
  have "tk \<in> set (owed (\<lambda>_. []) w l)" using server_invD(5) [OF inv] assms(2,3) unfolding cared_ok_def by blast
  then show ?thesis by (cases "loops w l") (simp_all add: owed_def pending_def)
qed

section \<open>Properties\<close>

text \<open>
  C5. No connection is forgotten. In every state the example program can reach, a connection that is
  coming up has its \<^verbatim>\<open>connectionEstablished\<close> pending in its loop; one that is down but still in the server's map
  has its \<^verbatim>\<open>removeConnectionInLoop\<close> pending in the server's loop; one that is down, out of the map and still
  known to its poller has its \<^verbatim>\<open>connectionDestroyed\<close> pending in its own loop.
\<close>

theorem echo_forgets_nothing:
  assumes K: "server_kernel K interest opened" and alloc: "allocates alloc"
    and w0: "blank w0" "new_ids (cur_thread w0) ids"
    and w: "echo_reach K alloc fresh ia user ids w0 w" and v: "server w = Some v" and t: "conns w c = Some t"
  shows "(conn_state t = KConnecting \<longrightarrow> pending w (conn_loop t) (ConnectionEstablished c)) \<and>
     (conn_state t = KDisconnected \<and> listed w c \<longrightarrow> pending w (srv_loop v) (RemoveConnectionInLoop c)) \<and>
     (conn_state t = KDisconnected \<and> \<not> listed w c \<and> polled w t \<longrightarrow> pending w (conn_loop t) (ConnectionDestroyed c))"
  using due_pending [OF echo_reach_inv [OF w K alloc w0] t] v by (simp add: due_def)

theorem echo_forgets_nothing_witness:
  "pending team_pending 1 (ConnectionEstablished 5) \<and>
   (\<exists>w. team_reach w \<and> pending w 0 (RemoveConnectionInLoop 5))"
proof
  obtain v where "server team_pending = Some v" by (simp add: team_pending_def team_run_def)
  from echo_forgets_nothing [OF live_server_kernel demo_alloc_ok team_blank_ok team_reach_pending this team_pending_conn(1)]
  show "pending team_pending 1 (ConnectionEstablished 5)" using team_pending_conn(2,3) by simp
  obtain w t v where w: "team_reach w" "conns w 5 = Some t" "conn_state t = KDisconnected" "server w = Some v"
    "srv_loop v = 0" "listed w 5" using team_reach_down by blast
  from echo_forgets_nothing [OF live_server_kernel demo_alloc_ok team_blank_ok w(1,4,2)] w
  show "\<exists>w. team_reach w \<and> pending w 0 (RemoveConnectionInLoop 5)" by auto
qed

text \<open>
  C12. A connection comes up. From every state the example program can reach, whatever the order in which
  the loops take their turns, after a turn of its loop a connection is no longer \<^verbatim>\<open>kConnecting\<close>, unless the process has
  ended by then (by the overflow of the connection number, SIGPIPE or a refused epoll_ctl, see \<open>exits\<close>).
\<close>

theorem echo_comes_up:
  assumes K: "server_kernel K interest opened" and alloc: "allocates alloc"
    and w0: "blank w0" "new_ids (cur_thread w0) ids"
    and w: "echo_reach K alloc fresh ia user ids w0 w" and t: "conns w c = Some t"
    and live: "\<forall>l \<in> set (as @ bs). loops w l \<noteq> None"
  shows "runs (exits K interest) (\<lambda>w'. \<exists>t'. conns w' c = Some t' \<and> conn_state t' \<noteq> KConnecting)
    (echo_turns K alloc fresh ia user (as @ [conn_loop t] @ bs) w)"
  by (rule comes_up [OF K alloc echo_reach_inv [OF w K alloc w0] t live])

theorem echo_comes_up_witness:
  "runs (exits live_kernel sim_watched) (\<lambda>w'. \<exists>t'. conns w' 5 = Some t' \<and> conn_state t' \<noteq> KConnecting)
     (echo_turns live_kernel demo_alloc (\<lambda>_. 0) (\<lambda>_. 0) (\<lambda>_. Inr) [0, 2, 1, 0] team_pending)"
proof -
  have "\<forall>l \<in> set ([0, 2] @ [0]). loops team_pending l \<noteq> None" by (simp add: team_pending_def team_run_def)
  from echo_comes_up [OF live_server_kernel demo_alloc_ok team_blank_ok team_reach_pending team_pending_conn(1) this]
  show ?thesis using team_pending_conn(3) by simp
qed

text \<open>
  C6. A connection that is down is cleaned up. From every state the example program can reach, whatever
  the order in which the loops take their turns, after a turn of the server's loop and a later one of the
  connection's loop it is out of the server's map, unregistered, and no epoll instance watches it, unless
  the process has ended by then (by the overflow of the connection number, SIGPIPE or a refused epoll_ctl).
\<close>

theorem echo_cleans_up:
  assumes K: "server_kernel K interest opened" and alloc: "allocates alloc"
    and w0: "blank w0" "new_ids (cur_thread w0) ids"
    and w: "echo_reach K alloc fresh ia user ids w0 w" and v: "server w = Some v"
    and t: "conns w c = Some t" "conn_state t = KDisconnected"
    and live: "\<forall>l \<in> set (as @ bs @ ds). loops w l \<noteq> None"
  shows "runs (exits K interest) (\<lambda>w'. \<exists>t'. conns w' c = Some t' \<and> conn_state t' = KDisconnected \<and> \<not> listed w' c \<and> \<not> polled w' t' \<and>
       watched interest (conn_channel t') w' = None)
    (echo_turns K alloc fresh ia user (as @ [srv_loop v] @ bs @ [conn_loop t] @ ds) w)"
proof (rule runs_mono [OF cleans_up [OF K alloc echo_reach_inv [OF w K alloc w0] v t live]])
  fix w' assume a: "server_inv interest opened (echo_addr ia) (\<lambda>_. []) {} w' \<and> cleaned_up c w'"
  then obtain t' where t': "conns w' c = Some t'" "conn_state t' = KDisconnected" "\<not> listed w' c" "\<not> polled w' t'"
    by (auto simp: cleaned_up_def)
  obtain ch where ch: "chans w' (conn_channel t') = Some ch" using inv_connE [OF conjunct1 [OF a] t'(1)] .
  then have "ch_index ch = kNew" using t'(4) by (simp add: polled_def)
  then have "watched interest (conn_channel t') w' = None"
    by (intro watched_eq(2) [OF inv_loop_ok [OF conjunct1 [OF a] ch] ch])
  then show "\<exists>t'. conns w' c = Some t' \<and> conn_state t' = KDisconnected \<and> \<not> listed w' c \<and> \<not> polled w' t' \<and>
       watched interest (conn_channel t') w' = None" using t' by blast
qed

theorem echo_cleans_up_witness:
  "\<exists>w. team_reach w \<and> listed w 5 \<and> runs (exits live_kernel sim_watched) (\<lambda>w'. \<exists>t'. conns w' 5 = Some t' \<and> \<not> listed w' 5 \<and> \<not> polled w' t')
     (echo_turns live_kernel demo_alloc (\<lambda>_. 0) (\<lambda>_. 0) (\<lambda>_. Inr) [0, 1] w)"
proof -
  obtain w t v where w: "team_reach w" "conns w 5 = Some t" "conn_state t = KDisconnected" "server w = Some v"
    "srv_loop v = 0" "conn_loop t = 1" "listed w 5" using team_reach_down by blast
  have "\<forall>l \<in> set ([] @ [] @ []). loops w l \<noteq> None" by simp
  from echo_cleans_up [OF live_server_kernel demo_alloc_ok team_blank_ok w(1,4,2,3) this] w(5,6)
  have "runs (exits live_kernel sim_watched) (\<lambda>w'. \<exists>t'. conns w' 5 = Some t' \<and> \<not> listed w' 5 \<and> \<not> polled w' t')
     (echo_turns live_kernel demo_alloc (\<lambda>_. 0) (\<lambda>_. 0) (\<lambda>_. Inr) [0, 1] w)"
    by (auto elim!: runs_mono)
  then show ?thesis using w(1,7) by blast
qed

end
