(* ===== verification/EchoTurns.thy ===== *)
theory EchoTurns
  imports EchoRun ServerRegistry
begin

text \<open>
  What one pass of a loop does for its connections, in any state the example program can reach: a message is
  echoed, a new connection is accepted. The invariant supplies what the pass of a single connection needs.
\<close>

section \<open>The view of a connection\<close>

lemma inv_conn_view:
  assumes inv: "server_inv interest opened addr B {} w" and t: "conns w c = Some t" and ch: "chans w (conn_channel t) = Some ch"
    and el: "loops w (conn_loop t) = Some el"
  shows "conn_view interest c t ch el w"
proof -
  note N = net_wfD [OF server_invD(1) [OF inv]] and O = server_invD(2) [OF inv]
  have good: "conn_good {} c t ch" using inv_connE [OF inv t] ch by fastforce
  obtain x where x: "chans w (wakeupChannel el) = Some x" "loop_good (conn_loop t) el x" using objs_wfD(2) [OF O el] by blast
  have "wakeupFd el \<noteq> ch_fd ch"
    using N(8) [OF x(1) ch] x(2) conn_chan_other(1) [OF O t el] by (auto simp: loop_good_def)
  then show ?thesis
    using t ch el good N(2) [of "conn_loop t"] by (simp add: conn_view_def conn_good_def conn_chan_def buffers_good_def)
qed

lemma inv_turn:
  assumes inv: "server_inv interest opened addr B X w" and el: "loops w l = Some el"
  shows "server_inv interest opened addr B X (w\<lparr>cur_thread := threadId el\<rparr>)"
    and "isInLoopThread el (w\<lparr>cur_thread := threadId el\<rparr>)"
proof -
  let ?w = "w\<lparr>cur_thread := threadId el\<rparr>"
  have "server_inv interest opened addr B X (w\<lparr>numCreated := numCreated w, cur_thread := threadId el, cachedTid := cachedTid w\<rparr>)"
    by (rule inv_cur_thread [OF inv]) simp
  then show i: "server_inv interest opened addr B X ?w" by simp
  show "isInLoopThread el ?w" using tid_of_eq [OF net_wfD(1) [OF server_invD(1) [OF i]]] by (simp add: isInLoopThread_def)
qed

lemma input_iov_bound: "buffers_good t \<Longrightarrow> sum_list (input_iov t) \<le> max_buffer + 65536"
proof -
  assume g: "buffers_good t"
  have "unat (writableBytes (inputBuffer t)) \<le> length (buf_data (inputBuffer t))"
    using g by (simp add: buffers_good_def unat_writableBytes)
  then show ?thesis using g by (auto simp: input_iov_def Let_def buffers_good_def extrabuf_size_def)
qed

section \<open>Accepting a connection\<close>

lemma idle_functors:
  "loops w l = Some el \<Longrightarrow> pendingFunctors el = [] \<Longrightarrow>
     doPendingFunctors run l w = Inr (put_loop l (el\<lparr>pendingFunctors := [], callingPendingFunctors := False\<rparr>) w)"
  by (simp add: doPendingFunctors_def Let_def put_loop_def)

lemma poll_one:
  assumes K: "net_kernel K interest opened" and wf: "net_wf interest opened w" and el: "loops w l = Some el" "loop_poller el = Some p"
    and c: "chans w i = Some ch" and wait: "reports K p i r (os (wsys w)) k'"
  shows "\<exists>w1 p' now. loop_poll K l w = Inr w1 \<and> chans w1 = (chans w)(i \<mapsto> set_revents r ch) \<and> os (wsys w1) = k' \<and> same_rest w w1 \<and>
     loops w1 = (loops w)(l \<mapsto> el\<lparr>loop_poller := Some p', activeChannels := [i], pollReturnTime := now\<rparr>) \<and>
     net_wf interest opened w1"
proof -
  let ?ev = "\<lparr>ev_events = r, ev_ptr = i\<rparr>"
  from wait obtain e where call: "sys_epoll_wait K (epollfd p) (length (po_events p)) kPollTimeoutMs (os (wsys w)) =
      ((1, e, [?ev]), k')" unfolding reports_def by blast
  have one: "(0 :: int) < 1" and ptrs: "\<forall>ev \<in> set [?ev]. chans w (ev_ptr ev) \<noteq> None" using c by simp_all
  from poll_events [OF net_kernelD(3) [OF K] call one ptrs, of "[]"] obtain cs' p' where
    poll: "EPollPoller_poll K kPollTimeoutMs [] (chans w, p, wsys w) =
        Inr (Timestamp_now (sys_time K k'), [i], (cs', p', (wsys w)\<lparr>os := k'\<rparr>))"
      "fillActiveChannels [?ev] (chans w) [] = Inr (cs', [i])" by auto
  have cs: "cs' = (chans w)(i \<mapsto> set_revents r ch)" using poll(2) c by simp
  let ?el = "el\<lparr>loop_poller := Some p', activeChannels := [i], pollReturnTime := Timestamp_now (sys_time K k')\<rparr>"
  let ?w1 = "put_loop l ?el (w\<lparr>chans := cs', wsys := (wsys w)\<lparr>os := k'\<rparr>\<rparr>)"
  have "loop_poll K l w = Inr ?w1" using el poll(1) by (simp add: loop_poll_def del: EPollPoller_poll.simps)
  moreover from this net_poll [OF K wf el(1)] have "net_wf interest opened ?w1" by auto
  moreover have "same_rest w ?w1" by (simp add: same_rest_def put_loop_def)
  ultimately show ?thesis by (intro exI [of _ ?w1] exI [of _ p'] exI) (simp add: cs put_loop_def)
qed

text \<open>The handler of a channel with a read callback only.\<close>

lemma handleEvent_read_only:
  assumes "getc w = Some ch" "\<not> ch_tied ch" "ch_revents ch = EPOLLIN" "readCallback ch = Some h" "disp h w = Inr w'"
    and "getc w' = Some ch'" "writeCallback ch' = None"
  shows "handleEvent getc alive disp w = Inr w'"
  using assms
  by (simp add: handleEvent_def handleEventWithGuard_def call_if_def wants_close_def wants_error_def wants_read_def
      event_defs)

lemma accept_turn:
  fixes w :: "('k, 'm) sworld_scheme"
  assumes K: "server_kernel K interest opened" and alloc: "allocates alloc"
    and inv: "server_inv interest opened addr (\<lambda>_. []) {} w"
    and a: "acceptor_obj w = Some a" and el: "loops w (acc_loop a) = Some el" "loop_poller el = Some p"
    and wait: "reports K p (acceptChannel a) EPOLLIN (os (wsys w)) k1"
    and got: "sys_accept4 K (sockfd (acceptSocket a)) k1 = ((n, e, peer), k2)" "0 \<le> n"
  shows "\<exists>u p' now. chans u = (chans w)(acceptChannel a \<mapsto> set_revents EPOLLIN (the (chans w (acceptChannel a)))) \<and>
     loops u = (loops w)(acc_loop a \<mapsto> el\<lparr>loop_poller := Some p', activeChannels := [acceptChannel a], pollReturnTime := now\<rparr>) \<and>
     server u = server w \<and> conns u = conns w \<and> cur_thread u = threadId el \<and> cachedTid u = cachedTid w \<and>
     server_inv interest opened addr (\<lambda>_. []) {} u \<and>
     conns u (fst (alloc u)) = None \<and> chans u (snd (alloc u)) = None \<and>
     (\<forall>i d. chans u i = Some d \<longrightarrow> ch_fd d \<noteq> n) \<and> (\<forall>l. loop_epoll u l \<noteq> Some n) \<and>
     (\<forall>u'. newConnection K (server_callbacks K (echo_callbacks K fresh)) (fst (alloc u)) (snd (alloc u)) n (InetAddress_of peer) u = Inr u' \<longrightarrow>
        echo_turn K alloc fresh ia user (acc_loop a) w =
          doPendingFunctors (run_task K (server_callbacks K (echo_callbacks K fresh)) user) (acc_loop a) u')"
proof -
  let ?CB = "server_callbacks K (echo_callbacks K fresh)" and ?w = "w\<lparr>cur_thread := threadId el\<rparr>" and ?i = "acceptChannel a"
  note i = inv_turn [OF inv el(1)] and N = server_kernelD(1) [OF K]
  obtain x where x: "chans w ?i = Some x" "acceptor_chan a x" using objs_wfD(3) [OF server_invD(2) [OF inv] a] by blast
  have a': "acceptor_obj ?w = Some a" "loops ?w (acc_loop a) = Some el" "chans ?w ?i = Some x"
     "reports K p ?i EPOLLIN (os (wsys ?w)) k1" using a el x wait by simp_all
  have cb: "newConnectionCallback a = Some newConnection_ref"
    using server_invD(4) [OF inv] a by (auto elim!: server_okE simp: server_good_def)
  from poll_one [OF N server_invD(1) [OF i(1)] a'(2) el(2) a'(3,4)] obtain w1 p' now where w1: "loop_poll K (acc_loop a) ?w = Inr w1"
    "chans w1 = (chans ?w)(?i \<mapsto> set_revents EPOLLIN x)" "os (wsys w1) = k1" "same_rest ?w w1"
    "loops w1 = (loops ?w)(acc_loop a \<mapsto> el\<lparr>loop_poller := Some p', activeChannels := [?i], pollReturnTime := now\<rparr>)"
    "net_wf interest opened w1" by blast
  let ?el = "el\<lparr>loop_poller := Some p', activeChannels := [?i], pollReturnTime := now\<rparr>"
  have so: "server w1 = server w" "acceptor_obj w1 = Some a" "conns w1 = conns w" "cur_thread w1 = threadId el" "cachedTid w1 = cachedTid w"
    using same_rest_objs [OF w1(4)] w1(4) a by (simp_all add: same_objs_def same_rest_def)
  have i1: "server_inv interest opened addr (\<lambda>_. []) {} w1 \<and> stable ?w w1"
    by (rule inv_frame [OF i(1) w1(6)])
      (use same_rest_objs [OF w1(4)] w1(2,5) x(1) el(1) in \<open>auto simp: same_loops_def loop_view_def intro!: revents_same\<close>)
  let ?u = "put_sys ((wsys w1)\<lparr>os := k2\<rparr>) w1"
  have cr: "creates opened k1 n k2" and il: "interest ep k2 = interest ep k1" for ep
    using descriptorD(4) [OF N, of k1 "sockfd (acceptSocket a)"] descriptorD(9) [OF N, of ep "sockfd (acceptSocket a)" k1] got by simp_all
  have op: "n \<notin> opened k1" "opened k2 = insert n (opened k1)" using cr got(2) by (simp_all add: creates_def)
  have "net_wf interest opened ?u"
    by (rule net_wf_grow [OF w1(6)]) (use op il w1(3) in auto)
  then have ui: "server_inv interest opened addr (\<lambda>_. []) {} ?u \<and> stable w1 ?u"
    by (intro inv_frame [OF conjunct1 [OF i1]]) (auto intro!: revents_same same_loops_refl simp: same_objs_def)
  note NW = net_wfD [OF w1(6)]
  have fresh: "conns ?u (fst (alloc ?u)) = None" "chans ?u (snd (alloc ?u)) = None"
    using alloc inv_finite [OF conjunct1 [OF ui]] unfolding allocates_def by blast+
  have fd: "ch_fd d \<noteq> n" if "chans ?u j = Some d" for j d using NW(7) [of j d] that op(1) w1(3) by auto
  have ep: "loop_epoll ?u l \<noteq> Some n" for l using NW(3) [of l n] op(1) w1(3) by (auto simp: loop_epoll_def)
  have turn: "echo_turn K alloc fresh ia user (acc_loop a) w = doPendingFunctors (run_task K ?CB user) (acc_loop a) u'"
    if u': "newConnection K ?CB (fst (alloc ?u)) (snd (alloc ?u)) n (InetAddress_of peer) ?u = Inr u'" for u'
  proof -
    have h: "dispatch K ?CB alloc ia now AcceptorHandleRead w1 = Inr u'"
      using Acceptor_handleRead_disposes [OF so(2), of K n e peer k2] got w1(3) cb u' by simp
    from echo.accept_keeps [OF K conjunct1 [OF i1] alloc, of fresh ia] h have "stable w1 u'" by simp
    from stable_chanD [OF this, of ?i "set_revents EPOLLIN x"] w1(2) obtain y where
      y: "chans u' ?i = Some y" "handlers y = handlers (set_revents EPOLLIN x)" by auto
    have "handleEvent (\<lambda>v. chans v ?i) conn_alive (dispatch K ?CB alloc ia now) w1 = Inr u'"
      using w1(2) x(2) handlersD(2) [OF y(2)] h y(1)
      by (intro handleEvent_read_only [of "\<lambda>v. chans v ?i" _ "set_revents EPOLLIN x" AcceptorHandleRead _ _ y])
        (simp_all add: acceptor_chan_def set_revents_def)
    then show ?thesis
      using loop_iter_one [OF w1(1), of ?el ?i conn_alive "dispatch K ?CB alloc ia" u'] w1(5) el(1)
      by (simp add: echo_turn_def)
  qed
  show ?thesis
    by (intro exI [of _ ?u] exI [of _ p'] exI [of _ now]) (use w1(2,5) so fresh fd ep ui turn x(1) in auto)
qed

text \<open>The new connection \<open>c\<close> of a server: its object, and its entry in the map.\<close>

definition new_in_server :: "tcp_server \<Rightarrow> fd \<Rightarrow> sockaddr_in \<Rightarrow> ('k, 'm) sworld_scheme \<Rightarrow> ('k, 'm) sworld_scheme \<Rightarrow>
    conn_id \<Rightarrow> tcp_connection \<Rightarrow> bool" where
  "new_in_server v n peer w w' c t \<longleftrightarrow> conns w c = None \<and> conns w' c = Some t \<and> conn_socket t = \<lparr>sockfd = n\<rparr> \<and>
     peerAddr t = InetAddress_of peer \<and> conn_name t = connName v (nextConnId v) \<and> conn_loop t = next_loop v \<and>
     map_option (\<lambda>v'. map_of (connections v')) (server w') = Some ((map_of (connections v))(conn_name t \<mapsto> c))"

text \<open>The loop whose turn it is runs in another thread: the connection is handed over to it.\<close>

lemma accept_elsewhere:
  fixes u :: "('k, 'm) sworld_scheme"
  assumes v: "server u = Some v" "server_wf addr v" "nextConnId v < 2 ^ 31 - 1" and f: "0 \<le> n" and c: "conns u c = None"
    and el2: "loops u (next_loop v) = Some el2" "\<not> isInLoopThread el2 u"
    and el: "loops u l = Some el1" "isInLoopThread el1 u" "pendingFunctors el1 = []"
  shows "\<exists>u' w' t. newConnection K CB c ch n (InetAddress_of peer) u = Inr u' \<and> doPendingFunctors run l u' = Inr w' \<and>
     new_in_server v n peer u w' c t \<and> conn_state t = KConnecting \<and>
     loops w' (next_loop v) = Some (el2\<lparr>pendingFunctors := pendingFunctors el2 @ [ConnectionEstablished c]\<rparr>)"
proof -
  obtain u' v' t where u': "newConnection K CB c ch n (InetAddress_of peer) u = Inr u'" "server u' = Some v'" "conns u' = (conns u)(c \<mapsto> t)"
     "new_connection v (next_loop v) ch n (InetAddress_of peer) t" "map_of (connections v') = (map_of (connections v))(conn_name t \<mapsto> c)"
     "loops u' = (loops u)(next_loop v \<mapsto> el2\<lparr>pendingFunctors := pendingFunctors el2 @ [ConnectionEstablished c]\<rparr>)"
    using newConnection_queued [OF v f el2, of K CB c ch "InetAddress_of peer"] by blast
  have ne: "next_loop v \<noteq> l" using el el2 by auto
  then have "loops u' l = Some el1" using u'(6) el(1) by simp
  from idle_functors [OF this el(3), of run] ne u' c show ?thesis
    by (intro exI [of _ u'] exI conjI) (auto simp: new_in_server_def new_connection_def)
qed

text \<open>It is the loop's own turn: the connection comes up at once.\<close>

lemma accept_here:
  fixes u :: "('k, 'm) sworld_scheme"
  assumes K: "kernel_ok K interest sent" and inv: "server_inv interest opened addr B {} u"
    and v: "server u = Some v" "nextConnId v < 2 ^ 31 - 1" and f: "0 \<le> n" "\<forall>i d. chans u i = Some d \<longrightarrow> ch_fd d \<noteq> n"
    and new: "conns u c = None" "chans u ch = None"
    and el: "loops u (next_loop v) = Some el1" "isInLoopThread el1 u" "pendingFunctors el1 = []"
  shows "\<exists>u' w' t. newConnection K (server_callbacks K (echo_callbacks K fresh)) c ch n (InetAddress_of peer) u = Inr u' \<and>
     doPendingFunctors run (next_loop v) u' = Inr w' \<and> new_in_server v n peer u w' c t \<and> conn_state t = KConnected \<and>
     watched interest (conn_channel t) w' = Some kReadEvent"
proof -
  let ?CB = "server_callbacks K (echo_callbacks K fresh)" and ?l = "next_loop v"
  note I = server_invD [OF inv] and N = net_wfD [OF server_invD(1) [OF inv]]
  obtain a where g: "server_good addr v a (\<lambda>l. loops u l \<noteq> None) (conns u)" using I(4) v(1) by (auto elim!: server_okE)
  then have wf: "server_wf addr v" and "srv_connectionCallback v \<noteq> None" by (simp_all add: server_good_def)
  then obtain cb where cb: "srv_connectionCallback v = Some cb" by blast
  have ok: "loop_ok interest ?l u" using N(2) el(1) by simp
  obtain x where x: "chans u (wakeupChannel el1) = Some x" "loop_good ?l el1 x" using objs_wfD(2) [OF I(2) el(1)] by blast
  have "wakeupFd el1 \<noteq> n" using f(2) x by (auto simp: loop_good_def)
  moreover have "\<forall>i d. owned (chans u) ?l i d \<longrightarrow> ch_fd d \<noteq> n" using f(2) by (auto simp: owned_def)
  moreover have "\<forall>p. loop_poller el1 = Some p \<longrightarrow> interest (epollfd p) (os (wsys u)) n = None"
  proof (intro allI impI)
    fix p assume "loop_poller el1 = Some p"
    then have ep: "loop_epoll u ?l = Some (epollfd p)" using el(1) by (simp add: loop_epoll_def)
    show "interest (epollfd p) (os (wsys u)) n = None"
    proof (cases "interest (epollfd p) (os (wsys u)) n")
      case (Some en)
      then show ?thesis using N(5) [OF ep Some] f(2) by blast
    qed
  qed
  ultimately obtain u' t x1 e1 v1 where u': "newConnection K ?CB c ch n (InetAddress_of peer) u = call_connection ?CB cb c u'"
     "conn_view interest c t x1 e1 u'" "conn_state t = KConnected" "conn_name t = connName v (nextConnId v)" "conn_channel t = ch"
     "conn_loop t = ?l" "conn_socket t = \<lparr>sockfd = n\<rparr>" "peerAddr t = InetAddress_of peer" "ch_index x1 \<noteq> kNew"
     "ch_events x1 = kReadEvent" "pendingFunctors e1 = pendingFunctors el1" "server u' = Some v1"
     "map_of (connections v1) = (map_of (connections v))(conn_name t \<mapsto> c)"
    using newConnection_connects [OF K v(1) wf v(2) f(1) el(1,2) ok _ new(2) _ _ cb, of ?CB c "InetAddress_of peer"] by blast
  have t: "conns u' c = Some t" "loops u' ?l = Some e1" using u'(2,6) by (simp_all add: conn_view_def)
  have call: "call_connection ?CB cb c u' = Inr u'"
    using t(1) by (simp add: server_callbacks_def echo_callbacks_def onConnection_def toIpPort_eq)
  let ?e = "e1\<lparr>pendingFunctors := [], callingPendingFunctors := False\<rparr>"
  let ?w' = "put_loop ?l ?e u'"
  have "doPendingFunctors run ?l u' = Inr ?w'" using idle_functors [OF t(2)] u'(11) el(3) by simp
  moreover have view: "conn_view interest c t x1 ?e ?w'" using put_loop_view [OF u'(2), of ?e] u'(6) by simp
  moreover have "watched interest (conn_channel t) ?w' = Some kReadEvent"
  proof -
    have "loop_ok interest (ch_loop x1) ?w'" "chans ?w' (conn_channel t) = Some x1" using view by (simp_all add: conn_view_def)
    from watched_eq(1) [OF this] u'(9,10) show ?thesis by (simp add: event_defs)
  qed
  moreover have "new_in_server v n peer u ?w' c t"
    using new(1) t u'(4-8,12,13) by (simp add: new_in_server_def put_loop_def)
  ultimately show ?thesis using u'(1,3) call by auto
qed

lemma live_kernel_ok: "kernel_ok live_kernel sim_watched (\<lambda>f k. sim_out k f)"
proof -
  have "epoll_frame_contract live_kernel sim_watched"
    by (simp add: epoll_frame_contract_def live_kernel_def sim_kernel_def Let_def)
  moreover have "stream_contract live_kernel (\<lambda>f k. sim_out k f)"
    by (auto simp: stream_contract_def live_kernel_def sim_kernel_def sim_ctl_def Let_def)
  ultimately show ?thesis
    using net_kernelD(1) [OF live_net_kernel] live_grants(1) server_kernelD(3) [OF live_server_kernel] by (simp add: kernel_ok_def)
qed

section \<open>Properties\<close>

text \<open>
  C13. The echo server echoes. In every state the example program can reach, on a kernel that refuses no epoll_ctl, let
  the loop of a connected connection have no pending functors, let epoll_wait report the connection's channel,
  and only it, with plain \<^verbatim>\<open>EPOLLIN\<close>, let the read deliver some bytes and the direct write not fail with \<^verbatim>\<open>EPIPE\<close> or
  \<^verbatim>\<open>ECONNRESET\<close> (the rest would be dropped). Then the pass returns, and of the bytes read the part the kernel took is
  on the stream, in order, the rest is in the output buffer with write interest; the connection is \<^verbatim>\<open>kDisconnecting\<close>;
  its stream is not ended if something is left, and it is ended, if everything was taken and the kernel accepts the
  shutdown.
\<close>

theorem echo_answers:
  assumes K: "server_kernel K interest opened" "kernel_ok K interest sent" and alloc: "allocates alloc"
    and w0: "blank w0" "new_ids (cur_thread w0) ids" and w: "echo_reach K alloc fresh ia user ids w0 w"
    and t: "conns w c = Some t" "conn_state t = KConnected" and ch: "chans w (conn_channel t) = Some ch"
    and el: "loops w (conn_loop t) = Some el" "pendingFunctors el = []" "loop_poller el = Some p"
    and wait: "reports K p (conn_channel t) EPOLLIN (os (wsys w)) k1"
    and got: "sys_readv K (ch_fd ch) (input_iov t) k1 = ((n, e, bs), k2)" "0 < n" and nf: "\<not> send_faults K ch t bs k2"
  shows "\<exists>w' t' ch' el' fin. echo_turn K alloc fresh ia user (conn_loop t) w = Inr w' \<and>
     conn_view interest c t' ch' el' w' \<and> conn_state t' = KDisconnecting \<and> pendingFunctors el' = [] \<and>
     content (outputBuffer t') = drop (accepted K ch t bs k2) bs \<and> (content (outputBuffer t') \<noteq> [] \<longrightarrow> isWriting ch') \<and>
     sent (ch_fd ch) (os (wsys w')) =
       sent (ch_fd ch) (os (wsys w)) @ map Byte (take (accepted K ch t bs k2) bs) @ fin \<and>
     (accepted K ch t bs k2 < length bs \<longrightarrow> fin = []) \<and>
     (length bs \<le> accepted K ch t bs k2 \<and> (\<forall>k. 0 \<le> fst (fst (sys_shutdown_wr K (ch_fd ch) k))) \<longrightarrow> fin = [Fin])"
proof -
  let ?w = "w\<lparr>cur_thread := threadId el\<rparr>"
  note i = inv_turn [OF echo_reach_inv [OF w K(1) alloc w0] el(1)]
  have v: "conn_view interest c t ch el ?w" by (rule inv_conn_view [OF i(1)]) (use t ch el(1) in simp_all)
  have t1: "conns ?w c = Some t" using t(1) by simp
  have good: "conn_good {} c t ch" using inv_connE [OF i(1) t1] ch by fastforce
  have g: "ch_tied ch" "ch_tie ch = Some c" "readCallback ch = Some (ConnHandleRead c)" "plain_conn t" "isReading ch"
    "\<not> isWriting ch" "content (outputBuffer t) = []" "content (inputBuffer t) = []" "readerIndex (inputBuffer t) = KCheapPrend"
    "length (buf_data (inputBuffer t)) \<le> max_buffer" "length (buf_data (outputBuffer t)) \<le> max_buffer" "buffers_good t"
    using good t(2) by (simp_all add: conn_good_def conn_chan_def buffers_good_def callbacks_good_def plain_conn_def isReading_def
        isWriting_def event_defs)
  have "length bs \<le> max_buffer + 65536"
    using readv_contractD [OF server_kernelD(2) [OF K(1)] got(1)] got(2) input_iov_bound [OF g(12)] by linarith
  then have len: "length bs + length (buf_data (outputBuffer t)) < 2 ^ 62" "length (buf_data (inputBuffer t)) + length bs < 2 ^ 62"
    using g(10,11) by (simp_all add: max_buffer_def)
  have wait1: "reports K p (conn_channel t) EPOLLIN (os (wsys ?w)) k1" using wait by simp
  from echo_pass [OF K(2) server_kernelD(2) [OF K(1)] net_kernelD(3) [OF server_kernelD(1) [OF K(1)]] v i(2) el(2) g(1-3) t(2) g(4-9)
      el(3) wait1 got len nf, of fresh alloc ia user] el(1)
  show ?thesis by (simp add: echo_turn_def)
qed

theorem echo_answers_witness:
  "\<exists>w'. echo_turn live_kernel demo_alloc (\<lambda>_. 0) (\<lambda>_. 0) (\<lambda>_. Inr) 0 (demo_open [7]) = Inr w' \<and>
     sim_out (os (wsys w')) 9 = [Byte 7, Fin]"
proof -
  let ?w = "demo_open [7]" and ?ch = "set_index 1 (request EnableReading (tie 5 (conn_channel_init 5 0 9)))"
  let ?p = "\<lparr>ownerLoop = 0, po_channels = [6 \<mapsto> 0, 8 \<mapsto> 1, 9 \<mapsto> 9], epollfd = 7,
      po_events = overwrite (replicate kInitEventListSize zero_event) 0 [\<lparr>ev_events = EPOLLIN, ev_ptr = 1\<rparr>]\<rparr>"
  let ?el = "demo_main_loop [6 \<mapsto> 0, 8 \<mapsto> 1, 9 \<mapsto> 9] (po_events ?p) [1] (Timestamp_now 0)"
  let ?k1 = "(os (wsys ?w))\<lparr>sim_ready := []\<rparr>" and ?k2 = "(os (wsys ?w))\<lparr>sim_ready := [], sim_in := []\<rparr>"
  have w: "chans ?w (conn_channel demo_peer) = Some ?ch" "loops ?w (conn_loop demo_peer) = Some ?el" "pendingFunctors ?el = []"
      "loop_poller ?el = Some ?p"
    by (simp_all add: demo_open_def demo_run_def demo_peer_def demo_main_loop_def)
  have ch: "ch_fd ?ch = 9" "\<not> isWriting ?ch"
    by (simp_all add: tie_def isWriting_def conn_channel_init_def setReadCallback_def setWriteCallback_def setCloseCallback_def
        setErrorCallback_def mk_Channel_def event_defs)
  have wait: "reports live_kernel ?p (conn_channel demo_peer) EPOLLIN (os (wsys ?w)) ?k1"
    by (simp add: reports_def live_calls demo_open_def demo_run_def demo_sim_def live_reported_def demo_upto demo_peer_def Let_def
        kInitEventListSize_def event_defs)
  have "input_iov demo_peer = [1024, 65536]"
    by (simp add: input_iov_def demo_peer_def writableBytes_def vec_size_def extrabuf_size_def Let_def)
  then have got: "sys_readv live_kernel (ch_fd ?ch) (input_iov demo_peer) ?k1 = ((1, 0, [7]), ?k2)"
    by (simp add: live_calls demo_open_def demo_run_def demo_sim_def Let_def)
  have out: "content (outputBuffer demo_peer) = []" by (simp add: demo_peer_def content_def)
  have k: "sim_room ?k2 = 2" "sim_out (os (wsys ?w)) 9 = []" by (simp_all add: demo_open_def demo_run_def demo_sim_def)
  have acc: "accepted live_kernel ?ch demo_peer [7] ?k2 = 1" "\<not> send_faults live_kernel ?ch demo_peer [7] ?k2"
    using ch out k(1) by (simp_all add: accepted_def send_faults_def direct_write_def live_kernel_def sim_kernel_def Let_def)
  have shut: "\<forall>k. 0 \<le> fst (fst (sys_shutdown_wr live_kernel 9 k))" by (simp add: live_kernel_def sim_kernel_def)
  have l0: "conn_loop demo_peer = 0" by (simp add: demo_peer_def)
  from echo_answers [OF live_server_kernel live_kernel_ok demo_alloc_ok demo_blank_ok demo_reach_open demo_open_conn(1,2) w wait
      got _ acc(2)] shut
  show ?thesis unfolding acc(1) ch(1) k(2) l0 by auto
qed

text \<open>
  C14. A new connection is taken in. In every state the example program can reach, on a kernel that refuses no epoll_ctl,
  let the server's loop have no pending functors, let epoll_wait report the listening descriptor, and only it,
  readable, let accept4 succeed (it may fail, with \<^verbatim>\<open>EMFILE\<close> say, and no connection is taken in then) and the connection
  number be below its overflow. Then the pass returns with one new
  connection object for the accepted descriptor, under its name in the server's map. If the loop whose turn it
  is runs in another thread, the connection is \<^verbatim>\<open>kConnecting\<close> and its \<^verbatim>\<open>connectionEstablished\<close> is queued there; if it
  is the server's own loop, the connection is up and watched for reading.
\<close>

theorem echo_accepts:
  assumes K: "server_kernel K interest opened" "kernel_ok K interest sent" and alloc: "allocates alloc"
    and w0: "blank w0" "new_ids (cur_thread w0) ids" and w: "echo_reach K alloc fresh ia user ids w0 w"
    and v: "server w = Some v" "nextConnId v < 2 ^ 31 - 1" and a: "acceptor_obj w = Some a"
    and el: "loops w (acc_loop a) = Some el" "loop_poller el = Some p" "pendingFunctors el = []"
    and wait: "reports K p (acceptChannel a) EPOLLIN (os (wsys w)) k1"
    and got: "sys_accept4 K (sockfd (acceptSocket a)) k1 = ((n, e, peer), k2)" "0 \<le> n"
  shows "(\<forall>el2. loops w (next_loop v) = Some el2 \<and> threadId el2 \<noteq> threadId el \<longrightarrow>
       (\<exists>w' c t. echo_turn K alloc fresh ia user (acc_loop a) w = Inr w' \<and> new_in_server v n peer w w' c t \<and>
          conn_state t = KConnecting \<and>
          loops w' (next_loop v) = Some (el2\<lparr>pendingFunctors := pendingFunctors el2 @ [ConnectionEstablished c]\<rparr>))) \<and>
     (next_loop v = acc_loop a \<longrightarrow>
       (\<exists>w' c t. echo_turn K alloc fresh ia user (acc_loop a) w = Inr w' \<and> new_in_server v n peer w w' c t \<and>
          conn_state t = KConnected \<and> watched interest (conn_channel t) w' = Some kReadEvent))"
proof -
  note inv = echo_reach_inv [OF w K(1) alloc w0]
  obtain u p' now where u: "chans u = (chans w)(acceptChannel a \<mapsto> set_revents EPOLLIN (the (chans w (acceptChannel a))))"
     "loops u = (loops w)(acc_loop a \<mapsto> el\<lparr>loop_poller := Some p', activeChannels := [acceptChannel a], pollReturnTime := now\<rparr>)"
     "server u = server w" "conns u = conns w" "cur_thread u = threadId el" "cachedTid u = cachedTid w"
     "server_inv interest opened (echo_addr ia) (\<lambda>_. []) {} u"
     "conns u (fst (alloc u)) = None" "chans u (snd (alloc u)) = None"
     "\<forall>i d. chans u i = Some d \<longrightarrow> ch_fd d \<noteq> n"
     "\<And>u'. newConnection K (server_callbacks K (echo_callbacks K fresh)) (fst (alloc u)) (snd (alloc u)) n (InetAddress_of peer) u = Inr u' \<Longrightarrow>
        echo_turn K alloc fresh ia user (acc_loop a) w =
          doPendingFunctors (run_task K (server_callbacks K (echo_callbacks K fresh)) user) (acc_loop a) u'"
    using accept_turn [OF K(1) alloc inv a el(1,2) wait got, of fresh ia user] by blast
  let ?el = "el\<lparr>loop_poller := Some p', activeChannels := [acceptChannel a], pollReturnTime := now\<rparr>"
  have th: "isInLoopThread x u \<longleftrightarrow> threadId x = threadId el" for x
    using tid_of_eq [OF net_wfD(1) [OF server_invD(1) [OF u(7)]]] u(5) by (simp add: isInLoopThread_def)
  have l: "loops u (acc_loop a) = Some ?el" "isInLoopThread ?el u" "pendingFunctors ?el = []" using u(2) el(3) th by simp_all
  have same: "new_in_server v n peer u w' c t = new_in_server v n peer w w' c t" for w' c t by (simp add: new_in_server_def u(4))
  have vu: "server u = Some v" using v(1) u(3) by simp
  have wf: "server_wf (echo_addr ia) v"
    using server_invD(4) [OF u(7)] vu by (auto elim!: server_okE simp: server_good_def)
  show ?thesis
  proof (intro conjI allI impI)
    fix el2 assume el2: "loops w (next_loop v) = Some el2 \<and> threadId el2 \<noteq> threadId el"
    moreover have "next_loop v \<noteq> acc_loop a"
    proof
      assume "next_loop v = acc_loop a"
      then show False using el2 el(1) by auto
    qed
    ultimately have "loops u (next_loop v) = Some el2" "\<not> isInLoopThread el2 u" unfolding u(2) th by simp_all
    from accept_elsewhere [OF vu wf v(2) got(2) u(8) this l] obtain u' w' t where r:
      "newConnection K (server_callbacks K (echo_callbacks K fresh)) (fst (alloc u)) (snd (alloc u)) n (InetAddress_of peer) u = Inr u'"
      "doPendingFunctors (run_task K (server_callbacks K (echo_callbacks K fresh)) user) (acc_loop a) u' = Inr w'"
      "new_in_server v n peer u w' (fst (alloc u)) t" "conn_state t = KConnecting"
      "loops w' (next_loop v) = Some (el2\<lparr>pendingFunctors := pendingFunctors el2 @ [ConnectionEstablished (fst (alloc u))]\<rparr>)" by blast
    show "\<exists>w' c t. echo_turn K alloc fresh ia user (acc_loop a) w = Inr w' \<and> new_in_server v n peer w w' c t \<and>
        conn_state t = KConnecting \<and>
        loops w' (next_loop v) = Some (el2\<lparr>pendingFunctors := pendingFunctors el2 @ [ConnectionEstablished c]\<rparr>)"
      using trans [OF u(11) [OF r(1)] r(2)] r(3-5) unfolding same by blast
  next
    assume own: "next_loop v = acc_loop a"
    have "loops u (next_loop v) = Some ?el" using l(1) own by simp
    from accept_here [where fresh = fresh and peer = peer and
          run = "run_task K (server_callbacks K (echo_callbacks K fresh)) user", OF K(2) u(7) vu v(2) got(2) u(10) u(8,9) this l(2,3)] obtain u' w' t where r:
      "newConnection K (server_callbacks K (echo_callbacks K fresh)) (fst (alloc u)) (snd (alloc u)) n (InetAddress_of peer) u = Inr u'"
      "doPendingFunctors (run_task K (server_callbacks K (echo_callbacks K fresh)) user) (acc_loop a) u' = Inr w'"
      "new_in_server v n peer u w' (fst (alloc u)) t" "conn_state t = KConnected"
      "watched interest (conn_channel t) w' = Some kReadEvent" unfolding own by blast
    show "\<exists>w' c t. echo_turn K alloc fresh ia user (acc_loop a) w = Inr w' \<and> new_in_server v n peer w w' c t \<and>
        conn_state t = KConnected \<and> watched interest (conn_channel t) w' = Some kReadEvent"
      using trans [OF u(11) [OF r(1)] r(2)] r(3-5) unfolding same by blast
  qed
qed

theorem echo_accepts_witness:
  "\<exists>w' c t. echo_turn live_kernel demo_alloc (\<lambda>_. 0) (\<lambda>_. 0) (\<lambda>_. Inr) 0 (demo_listening []) = Inr w' \<and>
     new_in_server (demo_srv 1 []) 9 zero_sockaddr (demo_listening []) w' c t \<and> conn_state t = KConnected \<and>
     watched sim_watched (conn_channel t) w' = Some kReadEvent"
proof -
  let ?w = "demo_listening []"
  let ?a = "\<lparr>acc_loop = 0, acceptSocket = \<lparr>sockfd = 8\<rparr>, acceptChannel = 1,
       newConnectionCallback = Some newConnection_ref, listenning = True\<rparr>"
  let ?p = "\<lparr>ownerLoop = 0, po_channels = [6 \<mapsto> 0, 8 \<mapsto> 1], epollfd = 7,
      po_events = replicate kInitEventListSize zero_event\<rparr>"
  let ?el = "demo_main_loop [6 \<mapsto> 0, 8 \<mapsto> 1] (po_events ?p) [] Timestamp_zero"
  let ?k1 = "(os (wsys ?w))\<lparr>sim_ready := tl (sim_ready (os (wsys ?w)))\<rparr>"
  have w: "server ?w = Some (demo_srv 1 [])" "nextConnId (demo_srv 1 []) < 2 ^ 31 - 1" "acceptor_obj ?w = Some ?a"
      "loops ?w (acc_loop ?a) = Some ?el" "loop_poller ?el = Some ?p" "pendingFunctors ?el = []"
    by (simp_all add: demo_listening_def demo_run_def demo_srv_def demo_main_loop_def)
  have wait: "reports live_kernel ?p (acceptChannel ?a) EPOLLIN (os (wsys ?w)) ?k1"
    by (simp add: reports_def live_calls demo_listening_def demo_run_def demo_sim_def live_reported_def demo_upto Let_def
        kInitEventListSize_def event_defs)
  have got: "sys_accept4 live_kernel (sockfd (acceptSocket ?a)) ?k1 = ((9, 0, zero_sockaddr), snd (live_fresh ?k1))"
    by (simp add: live_calls demo_listening_def demo_run_def demo_sim_def)
  have turn: "next_loop (demo_srv 1 []) = acc_loop ?a" by (simp add: demo_srv_def next_loop_def getAllLoops_def)
  from echo_accepts [OF live_server_kernel live_kernel_ok demo_alloc_ok demo_blank_ok demo_reach_listening w wait got] turn
  show ?thesis by auto
qed

end
