(* ===== verification/Spec2Isabelle.thy ===== *)
theory Spec2Isabelle
  imports LoopProtocol ThreadProtocol ConnectionStream ServerRegistry ServerLife EchoProgress EchoTurns
begin

text \<open>
  Verification library for Moduo, a TCP server library in the reactor style (C++11, Linux epoll).

  \<^bold>\<open>The program.\<close> An \<^verbatim>\<open>EventLoop\<close> waits on a \<^verbatim>\<open>Poller\<close> (\<^verbatim>\<open>EPollPoller\<close>), lets each active \<^verbatim>\<open>Channel\<close> call its
  handler and then runs the functors other code has queued with \<^verbatim>\<open>runInLoop\<close>/\<^verbatim>\<open>queueInLoop\<close>; an eventfd wakes
  it up. A \<^verbatim>\<open>TcpServer\<close> owns an \<^verbatim>\<open>Acceptor\<close>, which accepts descriptors in the server's loop, and an
  \<^verbatim>\<open>EventLoopThreadPool\<close>, whose threads run one loop each; it gives every new \<^verbatim>\<open>TcpConnection\<close> to the next loop
  in turn. A connection has a \<^verbatim>\<open>Socket\<close>, a channel and two \<^verbatim>\<open>Buffer\<close>s. \<^verbatim>\<open>example/test_server.cc\<close> is an echo
  server on top.

  \<^bold>\<open>How it is modelled.\<close> Objects are records, found by identity in one program state (\<open>world\<close>, extended by
  \<open>aworld\<close>, \<open>cworld\<close> and \<open>sworld\<close> as the components need more objects); an operation is a function from the
  state to the state or to a \<open>failure\<close> (an exit of \<^verbatim>\<open>LOG_FATAL\<close>, an access out of bounds, a call through a
  null or dangling pointer, an empty \<^verbatim>\<open>std::function\<close>, a failed \<^verbatim>\<open>assert\<close>, an abort, an \<^verbatim>\<open>int\<close> overflow, death by
  \<^verbatim>\<open>SIGPIPE\<close>, a call that never returns).
  \<^verbatim>\<open>size_t\<close> is \<open>64 word\<close>, event masks are \<open>32 word\<close>. The operating system is the record \<open>'k kernel\<close> of system
  calls over an arbitrary kernel state; properties that rely on it assume the documented behaviour
  stated as contracts in theories \<open>Kernel\<close> and \<open>NetInvariant\<close> (descriptors are given out new and closed once,
  no other call touches an interest list, an event reported belongs to an entry of the list), and theories
  \<open>SimKernel\<close> and \<open>LiveKernel\<close> are concrete kernels that satisfy them, used by the concrete instances. That a call is
  granted is not part of these contracts: eventfd, epoll_create1, epoll_ctl, socket, bind and listen may be refused,
  and \<^verbatim>\<open>LOG_FATAL\<close> ends the program then (\<open>loop_grants\<close>, \<open>epoll_ctl_grants\<close>, \<open>listen_grants\<close> name the kernels that do
  not). The properties of single operations on a connection suppose that no epoll_ctl is refused (\<open>kernel_ok\<close>) and say so; those of
  the whole program do not, and name the ways in which the process can end (\<open>exits\<close>, \<open>start_exits\<close>), but for the two of \<open>EchoTurns\<close>. A write to
  a connection that the peer has reset raises \<^verbatim>\<open>SIGPIPE\<close>, which the program never ignores: it ends the process unless
  the kernel record says that the signal is ignored (\<open>sigpipe_ignored\<close>). Bound member functions are names (\<open>handler\<close>, \<open>task\<close>);
  user callbacks are references whose meaning is an argument.

  \<^bold>\<open>The theories\<close> (source files under \<^verbatim>\<open>src/src\<close>).
  \<^item> \<open>Base\<close>: outcomes, sequencing, formatting, generic lemmas. \<open>Transition\<close>: reachable states and invariants,
    simulation of a sequence of operations by an abstract state (locales \<open>step_invariant\<close>, \<open>op_simulation\<close>).
  \<^item> \<open>InetAddress\<close>, \<open>Logger\<close> (with \<^verbatim>\<open>Timestamp\<close>): the texts of addresses, time stamps and log lines.
  \<^item> \<open>Buffer\<close>: the byte buffer with its index arithmetic; it is a byte queue as long as \<^verbatim>\<open>makeSpace\<close> does not
    compact, and exactly what goes wrong when it does.
  \<^item> \<open>Channel\<close>, \<open>EPollPoller\<close> (with \<^verbatim>\<open>Poller\<close>, \<^verbatim>\<open>DefaultPoller\<close>): interest requests, dispatch, registration, and
    the agreement of channels, poller and the kernel's interest list. Dispatch is compared with the callbacks that the
    bits of epoll(7) call for.
  \<^item> \<open>EventLoop\<close> (with \<^verbatim>\<open>CurrentThread\<close>): every operation of the loop, sequentially. \<open>LoopProtocol\<close>: the loop
    thread, from before it calls \<^verbatim>\<open>loop()\<close>, and the threads that queue functors or quit, as a step relation. A functor the
    loop thread queues before \<^verbatim>\<open>loop()\<close> waits in the first \<^verbatim>\<open>epoll_wait\<close> (\<open>early_functor_waits\<close>).
  \<^item> \<open>EventLoopThread\<close> (with \<^verbatim>\<open>Thread\<close>, \<^verbatim>\<open>EventLoopThreadPool\<close>): threads and the pool, sequentially; \<^verbatim>\<open>join()\<close> runs what
    the joined thread still does and never returns when that does not end.
    \<open>ThreadProtocol\<close>: the hand-over of the loop between the two threads, as a step relation.
  \<^item> \<open>Socket\<close>, \<open>Acceptor\<close>, \<open>TcpConnection\<close> (with \<^verbatim>\<open>Callbacks.h\<close>), \<open>TcpServer\<close>, \<open>EchoServer\<close>
    (\<^verbatim>\<open>example/test_server.cc\<close>): every operation and handler; \<open>TcpServer\<close> also gives tasks and handlers their
    meaning (\<open>run_task\<close>, \<open>dispatch\<close>), so that \<open>server_loop\<close> is the whole program's loop.
  \<^item> \<open>ConnectionStream\<close>, \<open>ServerRegistry\<close>, \<open>ServerConfig\<close>: refinements of a connection to a byte stream and of
    the server's map to the set of live connections over arbitrary sequences of operations; construction,
    configuration and destruction of the server.
  \<^item> \<open>LoopPass\<close>, \<open>ServerLife\<close>, \<open>EchoPass\<close>: one pass of the loop through all the components: the peer closes and
    the connection is gone everywhere; a message comes in and is echoed.
  \<^item> \<open>NetInvariant\<close>, \<open>ServerInvariant\<close>: an invariant of the whole program. Loops, pollers, channels and kernel
    agree, descriptors and threads are distinct (\<open>net_wf\<close>); every channel belongs to an object that exists, every
    connection is in a state that fits its channel and buffers, every functor owed to a loop can run, the
    server's map finds every open connection, and the functor a connection waits for is owed (\<open>server_inv\<close>).
  \<^item> \<open>ServerHandlers\<close>, \<open>ServerSafety\<close>: every handler, functor and whole pass of a loop keeps the invariant, for any
    user callbacks that do (locale \<open>server_user\<close>). \<open>EchoSafety\<close>: the example's callbacks do.
  \<^item> \<open>EchoLife\<close>, \<open>EchoRun\<close>, \<open>EchoProgram\<close>: \<^verbatim>\<open>main()\<close>. It establishes the invariant; the states reached by passes of the
    loops in any order and by the destruction of unreferenced connections (\<open>echo_reach\<close>) keep it; a
    concrete run from the start to a closed connection; the properties of the whole program. \<open>EchoTurns\<close>:
    what one pass does in any reachable state: a new connection is accepted, a message is echoed.
  \<^item> \<open>EchoTeam\<close>, \<open>EchoProgress\<close>: a concrete run with the pool's threads; progress over passes of the loops in any
    order (\<open>echo_turns\<close>): connections come up, connections that are down leave the map and the poller.

  \<^bold>\<open>What the lemmas show.\<close> Lemmas named \<open>_view\<close> give the exact effect of an operation on a connection in a
  well-formed state (\<open>conn_view\<close>), lemmas named \<open>_ok\<close>, \<open>_wf\<close> and \<open>_sim\<close> that an operation returns, keeps
  well-formedness and simulates its specification. Interfaces are locales, interpreted on the model:
  the byte queue, the poller, the round robin, the registry with counter keys, the invariants of the two
  step relations and the two operation sequences.

  \<^bold>\<open>Termination and bounds.\<close> \<open>loop_while\<close> is a \<open>partial_function\<close> whose result \<open>None\<close> is a loop that never ends;
  no other definition needs fuel (\<^verbatim>\<open>join()\<close> of a thread in such a loop is the failure \<open>Never_Returns\<close>). Sizes below \<open>2 ^ 62\<close> are assumed where \<^verbatim>\<open>size_t\<close> and \<^verbatim>\<open>ssize_t\<close> arithmetic must
  not wrap (no vector is larger), fewer than \<open>2 ^ 31\<close> threads and connection ids because the code keeps
  them in \<^verbatim>\<open>int\<close>. In the whole program no size is assumed: a buffer of the example never exceeds the
  131080 bytes of \<open>max_buffer\<close>, because \<^verbatim>\<open>onMessage\<close> empties the input and a connection sends once.

  \<^bold>\<open>Not modelled.\<close> A failed allocation or thread creation (an exception); the effect of a log line on \<^verbatim>\<open>errno\<close>, which
  \<^verbatim>\<open>sendInLoop\<close> reads after one; reference counts (the destruction of an object is an operation of its own, a dead object
  is absent from the state; in the whole program a connection is destroyed only when neither the server's map nor a
  functor refers to it, and the raw pointers of the other functors do not keep it); in the whole program the passes of
  different loops follow one another, the finer interleavings of the shared fields being those of \<open>LoopProtocol\<close>
  and \<open>ThreadProtocol\<close>; \<^verbatim>\<open>LOG_INFO\<close> and \<^verbatim>\<open>LOG_DEBUG\<close> lines; the C++ memory model (shared fields are read
  and written atomically, the race on \<^verbatim>\<open>loop_\<close> in \<^verbatim>\<open>~EventLoopThread\<close> is a choice of order); \<^verbatim>\<open>localtime\<close> and
  \<^verbatim>\<open>inet_addr\<close>, which are arguments; the order of an \<^verbatim>\<open>unordered_map\<close>, which is that of an association list;
  \<^verbatim>\<open>noncopyable.h\<close>, \<^verbatim>\<open>const.h\<close> and the build files, which have no behaviour.
\<close>

end
